(* ===== verification/Prelude.thy ===== *)
theory Prelude
  imports Main "HOL-Library.Word" "HOL-Library.Monad_Syntax" "HOL-Library.Multiset"
begin

text \<open>
  Shared vocabulary of the development: machine types, the byte-level view of a C
  allocation, little-endian integers, and the list and option lemmas that the components use.

  A C object whose layout matters (an intset, a ziplist) is a \<open>byte list\<close>; loads, stores and
  \<^verbatim>\<open>memmove\<close> return an \<open>option\<close> whose \<open>None\<close> is an access outside the allocation. A theorem
  that concludes \<open>Some\<close> therefore also says that the code stays inside its memory.
\<close>

unbundle bit_operations_syntax

named_theorems mem_simps \<open>rewriting of loads, stores and reallocations\<close>

type_synonym byte = "8 word"
type_synonym u8 = "8 word"
type_synonym u16 = "16 word"
type_synonym u32 = "32 word"
type_synonym u64 = "64 word"

abbreviation (input) INT16_MIN :: int where "INT16_MIN \<equiv> - 32768"
abbreviation (input) INT16_MAX :: int where "INT16_MAX \<equiv> 32767"
abbreviation (input) INT32_MIN :: int where "INT32_MIN \<equiv> - 2147483648"
abbreviation (input) INT32_MAX :: int where "INT32_MAX \<equiv> 2147483647"
abbreviation (input) INT64_MIN :: int where "INT64_MIN \<equiv> - 9223372036854775808"
abbreviation (input) INT64_MAX :: int where "INT64_MAX \<equiv> 9223372036854775807"
abbreviation (input) UINT64_MAX :: int where "UINT64_MAX \<equiv> 18446744073709551615"

abbreviation is_int64 :: "int \<Rightarrow> bool" where
  "is_int64 v \<equiv> INT64_MIN \<le> v \<and> v \<le> INT64_MAX"

subsection \<open>Options\<close>

lemma bind_Some_iff [simp]:
  "(Option.bind x f = Some y) \<longleftrightarrow> (\<exists>v. x = Some v \<and> f v = Some y)"
  by (cases x) auto

subsection \<open>Memory\<close>

definition rd :: "byte list \<Rightarrow> nat \<Rightarrow> nat \<Rightarrow> byte list option" where
  "rd m a n = (if a + n \<le> length m then Some (take n (drop a m)) else None)"

definition wr :: "byte list \<Rightarrow> nat \<Rightarrow> byte list \<Rightarrow> byte list option" where
  "wr m a bs = (if a + length bs \<le> length m
                then Some (take a m @ bs @ drop (a + length bs) m) else None)"

definition memmove :: "byte list \<Rightarrow> nat \<Rightarrow> nat \<Rightarrow> nat \<Rightarrow> byte list option" where
  "memmove m dst src n = do { bs \<leftarrow> rd m src n; wr m dst bs }"

text \<open>
  \<^verbatim>\<open>zrealloc\<close> keeps the common prefix; the bytes it adds are indeterminate, so the allocator
  supplies them as the parameter \<open>junk\<close>, indexed by position.
\<close>

definition zrealloc :: "(nat \<Rightarrow> byte) \<Rightarrow> byte list \<Rightarrow> nat \<Rightarrow> byte list" where
  "zrealloc junk m n = take n m @ map junk [length m..<n]"

lemma length_zrealloc [simp]: "length (zrealloc junk m n) = n"
  by (simp add: zrealloc_def)

lemma zrealloc_grow: "length m \<le> n \<Longrightarrow> zrealloc junk m n = m @ map junk [length m..<n]"
  by (simp add: zrealloc_def)

lemma zrealloc_shrink: "n \<le> length m \<Longrightarrow> zrealloc junk m n = take n m"
  by (simp add: zrealloc_def)

lemma rd_append [mem_simps]:
  "a = length xs \<Longrightarrow> n = length ys \<Longrightarrow> rd (xs @ ys @ zs) a n = Some ys"
  by (simp add: rd_def)

lemma wr_append [mem_simps]:
  "a = length xs \<Longrightarrow> length bs = length ys \<Longrightarrow> wr (xs @ ys @ zs) a bs = Some (xs @ bs @ zs)"
  by (simp add: wr_def)

lemma length_wr: "wr m a bs = Some m' \<Longrightarrow> length m' = length m"
  by (auto simp: wr_def split: if_splits)

lemma length_rd: "rd m a n = Some bs \<Longrightarrow> length bs = n"
  by (auto simp: rd_def split: if_splits)

subsection \<open>Little-endian integers\<close>

primrec enc_le :: "nat \<Rightarrow> int \<Rightarrow> byte list" where
  "enc_le 0 v = []"
| "enc_le (Suc n) v = word_of_int v # enc_le n (v div 256)"

primrec dec_ule :: "byte list \<Rightarrow> int" where
  "dec_ule [] = 0"
| "dec_ule (b # bs) = uint b + 256 * dec_ule bs"

definition dec_sle :: "byte list \<Rightarrow> int" where
  "dec_sle bs = signed_take_bit (8 * length bs - 1) (dec_ule bs)"

lemma length_enc_le [simp]: "length (enc_le n v) = n"
  by (induction n arbitrary: v) auto

lemma mod_mult_256: "(v :: int) mod 256 + 256 * (v div 256 mod k) = v mod (256 * k)" if "k > 0"
  using that by (simp add: zmod_zmult2_eq)

lemma dec_ule_enc_le: "dec_ule (enc_le n v) = v mod 256 ^ n"
  by (induction n arbitrary: v) (auto simp: uint_word_of_int mod_mult_256)

lemma dec_ule_bounds: "0 \<le> dec_ule bs \<and> dec_ule bs < 256 ^ length bs"
proof (induction bs)
  case (Cons b bs)
  have "uint b < 256" using uint_lt2p [of b] by simp
  with Cons show ?case by auto
qed simp

lemma enc_le_dec_ule: "enc_le (length bs) (dec_ule bs) = bs"
proof (induction bs)
  case (Cons b bs)
  have b: "0 \<le> uint b" "uint b < 256" using uint_lt2p [of b] by auto
  then have "(uint b + 256 * dec_ule bs) div 256 = dec_ule bs" by simp
  moreover have "(word_of_int (uint b + 256 * dec_ule bs) :: byte) = b"
  proof -
    have "(word_of_int (256 * dec_ule bs) :: byte) = 0"
      by (simp only: word_of_int_eq_0_iff) (simp add: take_bit_eq_mod)
    then show ?thesis by (simp only: of_int_add) simp
  qed
  ultimately show ?case using Cons by simp
qed simp

lemma signed_take_bit_id:
  "- (2 ^ n) \<le> (v :: int) \<Longrightarrow> v < 2 ^ n \<Longrightarrow> signed_take_bit n v = v"
  by (simp add: signed_take_bit_int_eq_self)

lemma dec_sle_enc_le:
  assumes "0 < n" and "- (2 ^ (8 * n - 1)) \<le> v" and "v < 2 ^ (8 * n - 1)"
  shows "dec_sle (enc_le n v) = v"
proof -
  have "(256 :: int) ^ n = 2 ^ (8 * n)"
    by (simp add: power_mult)
  then have "dec_sle (enc_le n v) = signed_take_bit (8 * n - 1) (take_bit (8 * n) v)"
    by (simp add: dec_sle_def dec_ule_enc_le take_bit_eq_mod)
  also have "\<dots> = signed_take_bit (8 * n - 1) v"
    using assms(1) by (cases n) (simp_all add: signed_take_bit_take_bit)
  also have "\<dots> = v"
    using assms by (intro signed_take_bit_id) auto
  finally show ?thesis .
qed

subsection \<open>Words\<close>

lemma sint_u32_small: "unat (w :: u32) < 2 ^ 31 \<Longrightarrow> sint w = int (unat w)"
proof -
  assume "unat w < 2 ^ 31"
  then have "int (unat w) < int (2 ^ 31)" by (simp only: of_nat_less_iff)
  then have "uint w < 2 ^ 31" by simp
  moreover have "- (2 ^ 31) \<le> uint w"
    by (rule order_trans [OF _ uint_ge_0]) simp
  ultimately have "sint w = uint w"
    by (simp add: sint_uint signed_take_bit_int_eq_self)
  then show ?thesis by simp
qed

lemma unat_of_nat_u32: "n < 2 ^ 32 \<Longrightarrow> unat (of_nat n :: u32) = n"
  by (simp add: unat_of_nat take_bit_eq_mod)

lemma unat_ucast_u8_u32: "unat (ucast (w :: u8) :: u32) = unat w"
proof -
  have "unat w < 2 ^ 8" using unsigned_less [of w, where ?'a = nat] by simp
  then show ?thesis by (simp add: unsigned_ucast_eq take_bit_nat_eq_self)
qed

lemma unat_u32_plus1: "unat (w :: u32) + 1 < 2 ^ 32 \<Longrightarrow> unat (w + 1) = unat w + 1"
  by (simp add: unat_word_ariths)

lemma unat_u32_minus1: "w \<noteq> (0 :: u32) \<Longrightarrow> unat (w - 1) = unat w - 1"
  by (simp add: unat_minus_one)

lemma unat_u32_mult: "unat (a :: u32) * unat b < 2 ^ 32 \<Longrightarrow> unat (a * b) = unat a * unat b"
  by (simp add: unat_word_ariths)

subsection \<open>Arrays of equally sized cells\<close>

text \<open>A buffer that holds an array is the concatenation of its cells.\<close>

definition cells :: "nat \<Rightarrow> byte list list \<Rightarrow> bool" where
  "cells k cs \<longleftrightarrow> (\<forall>c \<in> set cs. length c = k)"

lemma cells_simps [simp]:
  "cells k []" "cells k (c # cs) \<longleftrightarrow> length c = k \<and> cells k cs"
  "cells k (cs @ ds) \<longleftrightarrow> cells k cs \<and> cells k ds"
  by (auto simp: cells_def)

lemma cells_take [simp]: "cells k cs \<Longrightarrow> cells k (take i cs)"
  by (auto simp: cells_def dest: in_set_takeD)

lemma cells_drop [simp]: "cells k cs \<Longrightarrow> cells k (drop i cs)"
  by (auto simp: cells_def dest: in_set_dropD)

lemma cells_map_enc [simp]: "cells k (map (enc_le k) vs)"
  by (auto simp: cells_def)

lemma length_concat_cells: "cells k cs \<Longrightarrow> length (concat cs) = length cs * k"
  by (induction cs) auto

lemma take_concat_cells: "cells k cs \<Longrightarrow> take (i * k) (concat cs) = concat (take i cs)"
  by (induction cs arbitrary: i) (auto simp: take_Cons split: nat.split)

lemma drop_concat_cells: "cells k cs \<Longrightarrow> drop (i * k) (concat cs) = concat (drop i cs)"
  by (induction cs arbitrary: i) (auto simp: drop_Cons split: nat.split)

lemma rd_cells:
  assumes "cells k cs" and "i + n \<le> length cs"
  shows "rd (concat cs) (i * k) (n * k) = Some (concat (take n (drop i cs)))"
proof -
  have "i * k + n * k \<le> length (concat cs)"
    using assms by (simp add: length_concat_cells flip: add_mult_distrib)
  then show ?thesis
    using assms by (simp add: rd_def drop_concat_cells take_concat_cells)
qed

lemma rd_cell:
  "cells k cs \<Longrightarrow> i < length cs \<Longrightarrow> rd (concat cs) (i * k) k = Some (cs ! i)"
  using rd_cells [of k cs i 1] by (simp add: take_Suc_conv_app_nth hd_drop_conv_nth take_Suc)

lemma wr_cells:
  assumes "cells k cs" and "cells k ds" and "i + length ds \<le> length cs"
  shows "wr (concat cs) (i * k) (concat ds) = Some (concat (take i cs @ ds @ drop (i + length ds) cs))"
proof -
  have "i * k + length (concat ds) = (i + length ds) * k"
    using assms(2) by (simp add: length_concat_cells add_mult_distrib)
  moreover have "(i + length ds) * k \<le> length (concat cs)"
    using assms by (simp add: length_concat_cells)
  ultimately show ?thesis
    using assms by (simp add: wr_def drop_concat_cells take_concat_cells)
qed

lemma wr_cell:
  assumes "cells k cs" and "length c = k" and "i < length cs"
  shows "wr (concat cs) (i * k) c = Some (concat (cs[i := c]))"
  using wr_cells [of k cs "[c]" i] assms by (simp add: upd_conv_take_nth_drop)

subsection \<open>Searching lists of lists\<close>

lemma find_append: "find P (xs @ ys) = (case find P xs of None \<Rightarrow> find P ys | Some x \<Rightarrow> Some x)"
  by (induction xs) auto

lemma find_unique:
  assumes "length (filter P xs) \<le> 1"
  shows "find P xs = Some x \<longleftrightarrow> x \<in> set xs \<and> P x"
  using assms
proof (induction xs)
  case (Cons y ys)
  show ?case
  proof (cases "P y")
    case True
    with Cons.prems have "filter P ys = []" by simp
    with True show ?thesis by (auto simp: filter_empty_conv)
  next
    case False
    with Cons show ?thesis by auto
  qed
qed simp

lemma find_concat_at:
  assumes "i < length t" and "\<And>j x. j < length t \<Longrightarrow> j \<noteq> i \<Longrightarrow> x \<in> set (t ! j) \<Longrightarrow> \<not> P x"
  shows "find P (concat t) = find P (t ! i)"
proof -
  have split: "concat t = concat (take i t) @ t ! i @ concat (drop (Suc i) t)"
    using assms(1) by (metis concat.simps(2) concat_append id_take_nth_drop)
  have "\<not> P x" if b: "b \<in> set (take i t)" and x: "x \<in> set b" for b x
  proof -
    obtain j where "j < i" "b = t ! j" using b assms(1) by (auto simp: in_set_conv_nth)
    with x assms(1) assms(2) [of j x] show ?thesis by simp
  qed
  then have "find P (concat (take i t)) = None" by (auto simp: find_None_iff)
  moreover have "\<not> P x" if b: "b \<in> set (drop (Suc i) t)" and x: "x \<in> set b" for b x
  proof -
    obtain j where "j < length t - Suc i" "b = t ! (Suc i + j)" using b by (auto simp: in_set_conv_nth)
    with x assms(2) [of "Suc i + j" x] show ?thesis by simp
  qed
  then have "find P (concat (drop (Suc i) t)) = None" by (auto simp: find_None_iff)
  ultimately show ?thesis by (simp add: split find_append split: option.split)
qed

lemma mset_concat_update:
  "i < length t \<Longrightarrow> mset (concat (t[i := b])) + mset (t ! i) = mset (concat t) + mset b"
proof (induction t arbitrary: i)
  case (Cons c t)
  then show ?case by (cases i) (auto simp: add.assoc add.left_commute)
qed simp

lemma length_filter_mset: "mset xs = mset ys \<Longrightarrow> length (filter P xs) = length (filter P ys)"
  by (metis mset_filter size_mset)

lemma unat_and_mask_less: "n < 64 \<Longrightarrow> unat ((h :: u64) AND mask n) < 2 ^ n"
  by (simp add: flip: take_bit_eq_mask) (simp add: unsigned_take_bit_eq)

lemma add_mset_union_cong:
  assumes "add_mset a X = add_mset b Y"
  shows "add_mset a (X + Z) = add_mset b (Y + Z)" and "add_mset a (Z + X) = add_mset b (Z + Y)"
  using arg_cong [OF assms, of "\<lambda>M. M + Z"] by (simp_all add: add.commute)

end
