(* ===== verification/Intset.thy ===== *)
theory Intset
  imports Prelude
begin

text \<open>
  The integer set of \<^verbatim>\<open>intset.c\<close>: a sorted array of signed integers, each stored little-endian
  in 2, 4 or 8 bytes, which moves to a wider encoding when a value does not fit.
  The structure is kept at the byte level, with the header fields as 32-bit words.
  The representation relation \<open>intset_rep\<close> says which sorted list of integers a
  structure stands for; every operation is shown to stay inside the allocation and to
  compute the corresponding operation on finite sets.

  \<^verbatim>\<open>intrev32ifbe\<close> and \<^verbatim>\<open>memrevNifbe\<close> are the identity on the little-endian layout used here.
  A leading underscore of a C name is written \<open>priv_\<close>.
\<close>

subsection \<open>Data\<close>

record intset =
  is_encoding :: u32
  is_length :: u32
  is_contents :: "byte list"

abbreviation (input) INTSET_ENC_INT16 :: nat where "INTSET_ENC_INT16 \<equiv> 2"
abbreviation (input) INTSET_ENC_INT32 :: nat where "INTSET_ENC_INT32 \<equiv> 4"
abbreviation (input) INTSET_ENC_INT64 :: nat where "INTSET_ENC_INT64 \<equiv> 8"

definition priv_intsetValueEncoding :: "int \<Rightarrow> u8" where
  "priv_intsetValueEncoding v =
     (if v < INT32_MIN \<or> v > INT32_MAX then of_nat INTSET_ENC_INT64
      else if v < INT16_MIN \<or> v > INT16_MAX then of_nat INTSET_ENC_INT32
      else of_nat INTSET_ENC_INT16)"

text \<open>The byte width that the three-way branch on an encoding selects.\<close>

definition enc_width :: "u32 \<Rightarrow> nat" where
  "enc_width e = (if e = of_nat INTSET_ENC_INT64 then 8
                  else if e = of_nat INTSET_ENC_INT32 then 4 else 2)"

definition priv_intsetGetEncoded :: "intset \<Rightarrow> int \<Rightarrow> u8 \<Rightarrow> int option" where
  "priv_intsetGetEncoded s pos enc =
     (let k = enc_width (ucast enc) in
      if pos < 0 then None
      else map_option dec_sle (rd (is_contents s) (nat pos * k) k))"

definition priv_intsetGet :: "intset \<Rightarrow> int \<Rightarrow> int option" where
  "priv_intsetGet s pos = priv_intsetGetEncoded s pos (ucast (is_encoding s))"

definition priv_intsetSet :: "intset \<Rightarrow> int \<Rightarrow> int \<Rightarrow> intset option" where
  "priv_intsetSet s pos value =
     (let k = enc_width (is_encoding s) in
      if pos < 0 then None
      else map_option (\<lambda>m. s\<lparr>is_contents := m\<rparr>) (wr (is_contents s) (nat pos * k) (enc_le k value)))"

definition intsetNew :: intset where
  "intsetNew = \<lparr>is_encoding = of_nat INTSET_ENC_INT16, is_length = 0, is_contents = []\<rparr>"

text \<open>The new size is computed in 32 bits.\<close>

definition intsetResize :: "(nat \<Rightarrow> byte) \<Rightarrow> intset \<Rightarrow> u32 \<Rightarrow> intset" where
  "intsetResize junk s len =
     (let size = len * is_encoding s
      in s\<lparr>is_contents := zrealloc junk (is_contents s) (unat size)\<rparr>)"

subsection \<open>Search\<close>

definition search_mid :: "int \<Rightarrow> int \<Rightarrow> int" where
  "search_mid lo hi = sint (drop_bit 1 (word_of_int lo + word_of_int hi :: u32))"

partial_function (option) intsetSearch_loop ::
  "intset \<Rightarrow> int \<Rightarrow> int \<Rightarrow> int \<Rightarrow> int \<Rightarrow> int \<Rightarrow> (int \<times> int \<times> int) option" where
  "intsetSearch_loop s value lo hi mid cur =
     (if hi \<ge> lo then
        (let mid = search_mid lo hi in
         do { cur \<leftarrow> priv_intsetGet s mid;
              if value > cur then intsetSearch_loop s value (mid + 1) hi mid cur
              else if value < cur then intsetSearch_loop s value lo (mid - 1) mid cur
              else Some (lo, mid, cur) })
      else Some (lo, mid, cur))"

text \<open>The C locals \<^verbatim>\<open>min\<close> and \<^verbatim>\<open>max\<close> are \<open>lo\<close> and \<open>hi\<close>; the output parameter is the second component.\<close>

definition intsetSearch :: "intset \<Rightarrow> int \<Rightarrow> (bool \<times> u32) option" where
  "intsetSearch s value =
     (let hi = sint (is_length s - 1) in
      if is_length s = 0 then Some (False, 0)
      else do {
        last \<leftarrow> priv_intsetGet s hi;
        if value > last then Some (False, is_length s)
        else do {
          first \<leftarrow> priv_intsetGet s 0;
          if value < first then Some (False, 0)
          else do {
            (lo, mid, cur) \<leftarrow> intsetSearch_loop s value 0 hi (- 1) (- 1);
            if value = cur then Some (True, word_of_int mid)
            else Some (False, word_of_int lo) } } })"

subsection \<open>Insertion and removal\<close>

fun upgrade_loop :: "intset \<Rightarrow> u8 \<Rightarrow> nat \<Rightarrow> nat \<Rightarrow> intset option" where
  "upgrade_loop s curenc prepend 0 = Some s"
| "upgrade_loop s curenc prepend (Suc n) =
     do { v \<leftarrow> priv_intsetGetEncoded s (int n) curenc;
          s' \<leftarrow> priv_intsetSet s (int (n + prepend)) v;
          upgrade_loop s' curenc prepend n }"

definition intsetUpgradeAndAdd :: "(nat \<Rightarrow> byte) \<Rightarrow> intset \<Rightarrow> int \<Rightarrow> intset option" where
  "intsetUpgradeAndAdd junk s value =
     (let curenc = ucast (is_encoding s);
          newenc = priv_intsetValueEncoding value;
          prepend = (if value < 0 then 1 else 0);
          s = s\<lparr>is_encoding := ucast newenc\<rparr>;
          s = intsetResize junk s (is_length s + 1)
      in do {
        s \<leftarrow> (if sint (is_length s) < 0 then None
              else upgrade_loop s curenc prepend (nat (sint (is_length s))));
        s \<leftarrow> (if prepend = 1 then priv_intsetSet s 0 value
              else priv_intsetSet s (sint (is_length s)) value);
        Some (s\<lparr>is_length := is_length s + 1\<rparr>) })"

definition intsetMoveTail :: "intset \<Rightarrow> u32 \<Rightarrow> u32 \<Rightarrow> intset option" where
  "intsetMoveTail s from to =
     (let k = enc_width (is_encoding s);
          bytes = (is_length s - from) * of_nat k
      in map_option (\<lambda>m. s\<lparr>is_contents := m\<rparr>)
           (memmove (is_contents s) (unat to * k) (unat from * k) (unat bytes)))"

definition intsetAdd :: "(nat \<Rightarrow> byte) \<Rightarrow> intset \<Rightarrow> int \<Rightarrow> (intset \<times> bool) option" where
  "intsetAdd junk s value =
     (let valenc = priv_intsetValueEncoding value in
      if ucast valenc > is_encoding s
      then map_option (\<lambda>s'. (s', True)) (intsetUpgradeAndAdd junk s value)
      else do {
        (found, pos) \<leftarrow> intsetSearch s value;
        if found then Some (s, False)
        else do {
          let s = intsetResize junk s (is_length s + 1);
          s \<leftarrow> (if pos < is_length s then intsetMoveTail s pos (pos + 1) else Some s);
          s \<leftarrow> priv_intsetSet s (sint pos) value;
          Some (s\<lparr>is_length := is_length s + 1\<rparr>, True) } })"

definition intsetRemove :: "(nat \<Rightarrow> byte) \<Rightarrow> intset \<Rightarrow> int \<Rightarrow> (intset \<times> bool) option" where
  "intsetRemove junk s value =
     (let valenc = priv_intsetValueEncoding value in
      if ucast valenc \<le> is_encoding s
      then do {
        (found, pos) \<leftarrow> intsetSearch s value;
        if found
        then do {
          let len = is_length s;
          s \<leftarrow> (if pos < len - 1 then intsetMoveTail s (pos + 1) pos else Some s);
          let s = intsetResize junk s (len - 1);
          Some (s\<lparr>is_length := len - 1\<rparr>, True) }
        else Some (s, False) }
      else Some (s, False))"

subsection \<open>Queries\<close>

definition intsetFind :: "intset \<Rightarrow> int \<Rightarrow> bool option" where
  "intsetFind s value =
     (let valenc = priv_intsetValueEncoding value in
      if ucast valenc \<le> is_encoding s then map_option fst (intsetSearch s value) else Some False)"

text \<open>\<^verbatim>\<open>rand()\<close> is the parameter \<open>r\<close>; a modulus of zero traps.\<close>

definition intsetRandom :: "nat \<Rightarrow> intset \<Rightarrow> int option" where
  "intsetRandom r s =
     (if is_length s = 0 then None
      else priv_intsetGet s (sint ((of_nat r :: u32) mod is_length s)))"

definition intsetGet :: "intset \<Rightarrow> u32 \<Rightarrow> (bool \<times> int option) option" where
  "intsetGet s pos =
     (if pos < is_length s then map_option (\<lambda>v. (True, Some v)) (priv_intsetGet s (sint pos))
      else Some (False, None))"

definition intsetLen :: "intset \<Rightarrow> u32" where
  "intsetLen s = is_length s"

definition intsetBlobLen :: "intset \<Rightarrow> u64" where
  "intsetBlobLen s = 8 + ucast (is_length s * is_encoding s)"

subsection \<open>Representation\<close>

definition fits :: "nat \<Rightarrow> int \<Rightarrow> bool" where
  "fits k v \<longleftrightarrow> - (2 ^ (8 * k - 1)) \<le> v \<and> v < 2 ^ (8 * k - 1)"

definition intset_rep :: "intset \<Rightarrow> int list \<Rightarrow> bool" where
  "intset_rep s vs \<longleftrightarrow>
     (let k = unat (is_encoding s) in
      (k = 2 \<or> k = 4 \<or> k = 8) \<and> unat (is_length s) = length vs \<and>
      is_contents s = concat (map (enc_le k) vs) \<and> list_all (fits k) vs \<and> sorted_wrt (<) vs)"

definition ins_pos :: "int \<Rightarrow> int list \<Rightarrow> nat" where
  "ins_pos v vs = length (takeWhile (\<lambda>x. x < v) vs)"

lemma dec_sle_fits: "0 < k \<Longrightarrow> fits k v \<Longrightarrow> dec_sle (enc_le k v) = v"
  by (simp add: fits_def dec_sle_enc_le)

lemma fits_mono: "fits k v \<Longrightarrow> k \<le> k' \<Longrightarrow> fits k' v"
proof -
  assume *: "fits k v" "k \<le> k'"
  then have "(2 :: int) ^ (8 * k - 1) \<le> 2 ^ (8 * k' - 1)"
    by (intro power_increasing) auto
  with * show ?thesis unfolding fits_def by linarith
qed

lemma enc_width_of_nat:
  "k = 2 \<or> k = 4 \<or> k = 8 \<Longrightarrow> enc_width (of_nat k) = k"
  by (auto simp: enc_width_def)

lemma enc_width_ucast:
  "unat (e :: u8) = 2 \<or> unat e = 4 \<or> unat e = 8 \<Longrightarrow> enc_width (ucast e) = unat e"
proof -
  assume *: "unat e = 2 \<or> unat e = 4 \<or> unat e = 8"
  have "(ucast e :: u32) = of_nat (unat e)" by simp
  with * show ?thesis by (metis enc_width_of_nat)
qed

lemma valenc_cases:
  "unat (priv_intsetValueEncoding v) = 2 \<or> unat (priv_intsetValueEncoding v) = 4 \<or>
   unat (priv_intsetValueEncoding v) = 8"
  by (simp add: priv_intsetValueEncoding_def)

lemma valenc_fits:
  assumes "is_int64 v" and "k = 2 \<or> k = 4 \<or> k = 8"
  shows "fits k v \<longleftrightarrow> unat (priv_intsetValueEncoding v) \<le> k"
  using assms by (auto simp: fits_def priv_intsetValueEncoding_def)

lemma search_mid_eq:
  assumes "0 \<le> lo" and "lo \<le> hi" and "hi < 2 ^ 31"
  shows "search_mid lo hi = (lo + hi) div 2"
proof -
  have "uint (word_of_int lo + word_of_int hi :: u32) = lo + hi"
    using assms by (simp add: uint_word_of_int flip: of_int_add)
  then have u: "uint (drop_bit 1 (word_of_int lo + word_of_int hi :: u32)) = (lo + hi) div 2"
    using assms by (simp only: unsigned_drop_bit_eq) (simp add: drop_bit_eq_div take_bit_eq_mod)
  moreover have "(lo + hi) div 2 < 2 ^ 31" "- (2 ^ 31) \<le> (lo + hi) div 2" using assms by simp_all
  ultimately show ?thesis
    by (simp add: search_mid_def sint_uint signed_take_bit_int_eq_self)
qed

lemma intset_repD:
  assumes "intset_rep s vs"
  obtains k where "k = 2 \<or> k = 4 \<or> k = 8" and "unat (is_encoding s) = k"
    and "is_encoding s = of_nat k" and "enc_width (is_encoding s) = k"
    and "unat (is_length s) = length vs" and "is_contents s = concat (map (enc_le k) vs)"
    and "list_all (fits k) vs" and "sorted_wrt (<) vs"
proof -
  let ?k = "unat (is_encoding s)"
  have k: "?k = 2 \<or> ?k = 4 \<or> ?k = 8" using assms by (simp add: intset_rep_def Let_def)
  moreover have "is_encoding s = of_nat ?k" by simp
  moreover from this k have "enc_width (is_encoding s) = ?k" by (metis enc_width_of_nat)
  ultimately show thesis
    using assms that [of ?k] by (simp add: intset_rep_def Let_def)
qed

lemma getEncoded_cells:
  assumes "is_contents s = concat (map (enc_le k) vs) @ rest" and "i < length vs"
    and "unat enc = k" and "k = 2 \<or> k = 4 \<or> k = 8" and "list_all (fits k) vs"
  shows "priv_intsetGetEncoded s (int i) enc = Some (vs ! i)"
proof -
  have w: "enc_width (ucast enc) = k" using assms(3,4) enc_width_ucast by metis
  have "rd (concat (map (enc_le k) vs) @ rest) (i * k) k = Some (enc_le k (vs ! i))"
  proof -
    have "rd (concat (map (enc_le k) vs)) (i * k) k = Some (map (enc_le k) vs ! i)"
      using assms(2) by (intro rd_cell) auto
    then show ?thesis
      using assms(2) by (auto simp: rd_def split: if_splits)
  qed
  moreover have "dec_sle (enc_le k (vs ! i)) = vs ! i"
    using assms(2,4,5) by (intro dec_sle_fits) (auto simp: list_all_length)
  ultimately show ?thesis
    using w assms(1) by (simp add: priv_intsetGetEncoded_def)
qed

lemma intsetGet_rep:
  assumes "intset_rep s vs" and "i < length vs"
  shows "priv_intsetGet s (int i) = Some (vs ! i)"
proof -
  from assms(1) obtain k where k: "k = 2 \<or> k = 4 \<or> k = 8" "unat (is_encoding s) = k"
    "is_contents s = concat (map (enc_le k) vs)" "list_all (fits k) vs"
    by (rule intset_repD)
  have "unat (ucast (is_encoding s) :: u8) = k"
    using k(1,2) by (auto simp: unsigned_ucast_eq)
  with k assms(2) show ?thesis
    unfolding priv_intsetGet_def by (intro getEncoded_cells [where rest = "[]"]) auto
qed

lemma search_loop_correct:
  assumes get: "\<And>i. i < length vs \<Longrightarrow> priv_intsetGet s (int i) = Some (vs ! i)"
    and len: "length vs < 2 ^ 31" and srt: "sorted_wrt (<) vs"
  shows "\<lbrakk>0 \<le> lo; lo \<le> hi + 1; hi < int (length vs); \<forall>i < nat lo. vs ! i < v;
          \<forall>i. nat (hi + 1) \<le> i \<and> i < length vs \<longrightarrow> v < vs ! i; hi < lo \<longrightarrow> cur \<noteq> v\<rbrakk> \<Longrightarrow>
    \<exists>lo' mid' cur'. intsetSearch_loop s v lo hi mid cur = Some (lo', mid', cur') \<and>
      (if cur' = v then 0 \<le> mid' \<and> mid' < int (length vs) \<and> vs ! nat mid' = v
       else 0 \<le> lo' \<and> nat lo' \<le> length vs \<and> (\<forall>i < nat lo'. vs ! i < v) \<and>
            (\<forall>i. nat lo' \<le> i \<and> i < length vs \<longrightarrow> v < vs ! i))"
proof (induction "nat (hi + 1 - lo)" arbitrary: lo hi mid cur rule: less_induct)
  case less
  show ?case
  proof (cases "lo \<le> hi")
    case False
    with less.prems have "lo = hi + 1" by simp
    with less.prems False show ?thesis
      by (subst intsetSearch_loop.simps) auto
  next
    case True
    define m where "m = (lo + hi) div 2"
    have hi31: "hi < 2 ^ 31" using less.prems(3) len by (simp add: nat_less_iff)
    have m: "lo \<le> m" "m \<le> hi" "search_mid lo hi = m"
      using True less.prems search_mid_eq [OF _ True hi31] by (auto simp: m_def)
    then have mlen: "nat m < length vs" "0 \<le> m" using less.prems by auto
    then have g: "priv_intsetGet s m = Some (vs ! nat m)" using get [of "nat m"] by simp
    have unf: "intsetSearch_loop s v lo hi mid cur =
        (if vs ! nat m < v then intsetSearch_loop s v (m + 1) hi m (vs ! nat m)
         else if v < vs ! nat m then intsetSearch_loop s v lo (m - 1) m (vs ! nat m)
         else Some (lo, m, vs ! nat m))"
      using True m g by (subst intsetSearch_loop.simps) simp
    consider "vs ! nat m < v" | "v < vs ! nat m" | "v = vs ! nat m" by linarith
    then show ?thesis
    proof cases
      case 1
      have "\<forall>i < nat (m + 1). vs ! i < v"
      proof (intro allI impI)
        fix i assume "i < nat (m + 1)"
        then have "i = nat m \<or> i < nat m" by linarith
        then show "vs ! i < v"
          using 1 srt mlen sorted_wrt_nth_less [OF srt, of i "nat m"] by fastforce
      qed
      with less.hyps [of hi "m + 1" "vs ! nat m" m] 1 m less.prems True show ?thesis
        unfolding unf by simp
    next
      case 2
      have "\<forall>i. nat (m - 1 + 1) \<le> i \<and> i < length vs \<longrightarrow> v < vs ! i"
      proof (intro allI impI)
        fix i assume "nat (m - 1 + 1) \<le> i \<and> i < length vs"
        then have "i = nat m \<or> nat m < i" "i < length vs" by auto
        then show "v < vs ! i"
          using 2 sorted_wrt_nth_less [OF srt, of "nat m" i] by fastforce
      qed
      moreover have "intsetSearch_loop s v lo hi mid cur = intsetSearch_loop s v lo (m - 1) m (vs ! nat m)"
        using unf 2 by auto
      ultimately show ?thesis
        using less.hyps [of "m - 1" lo "vs ! nat m" m] 2 m less.prems True by simp
    next
      case 3
      with unf mlen show ?thesis by simp
    qed
  qed
qed

lemma ins_posI:
  assumes "p \<le> length vs" and "\<forall>i < p. vs ! i < v" and "\<forall>i. p \<le> i \<and> i < length vs \<longrightarrow> v \<le> vs ! i"
  shows "ins_pos v vs = p"
proof -
  have "takeWhile (\<lambda>x. x < v) vs = take p vs"
    using assms by (intro takeWhile_eq_take_P_nth) auto
  with assms(1) show ?thesis by (simp add: ins_pos_def)
qed

lemma ins_pos_le: "ins_pos v vs \<le> length vs"
  by (simp add: ins_pos_def length_takeWhile_le)

lemma intsetSearch_correct:
  assumes rep: "intset_rep s vs" and len: "length vs < 2 ^ 31"
  shows "intsetSearch s v = Some (v \<in> set vs, of_nat (ins_pos v vs))"
proof (cases "vs = []")
  case True
  with rep have "is_length s = 0" by (auto elim!: intset_repD simp: unat_eq_zero)
  with True show ?thesis by (simp add: intsetSearch_def ins_pos_def)
next
  case False
  note get = intsetGet_rep [OF rep]
  from rep have ul: "unat (is_length s) = length vs" and srt: "sorted_wrt (<) vs"
    by (auto elim!: intset_repD)
  define n where "n = length vs"
  have n: "0 < n" "n < 2 ^ 31" "n = length vs" using False len by (auto simp: n_def)
  have nz: "is_length s \<noteq> 0" using ul n by auto
  have "unat (is_length s - 1) = n - 1" using unat_u32_minus1 [OF nz] ul n by simp
  then have hi: "sint (is_length s - 1) = int (n - 1)"
    using n by (subst sint_u32_small) auto
  have glast: "priv_intsetGet s (int (n - 1)) = Some (vs ! (n - 1))"
    by (rule get) (use n in simp)
  have gfirst: "priv_intsetGet s 0 = Some (vs ! 0)" using get [of 0] n by simp
  have le: "i < n \<Longrightarrow> vs ! i \<le> vs ! (n - 1)" "i < n \<Longrightarrow> vs ! 0 \<le> vs ! i" for i
    using sorted_wrt_nth_less [OF srt, of i "n - 1"] sorted_wrt_nth_less [OF srt, of 0 i] n
    by (cases "i = n - 1"; cases "i = 0"; force)+
  consider "vs ! (n - 1) < v" | "v < vs ! 0" "\<not> vs ! (n - 1) < v"
    | "\<not> vs ! (n - 1) < v" "\<not> v < vs ! 0" by blast
  then show ?thesis
  proof cases
    case 1
    then have "\<forall>i < n. vs ! i < v" using le by fastforce
    then have "v \<notin> set vs" "ins_pos v vs = n"
      using n by (auto simp: in_set_conv_nth intro!: ins_posI)
    moreover have "of_nat (unat (is_length s)) = is_length s" by simp
    then have "is_length s = of_nat n" using ul n by simp
    ultimately show ?thesis using 1 nz hi glast by (simp add: intsetSearch_def Let_def)
  next
    case 2
    then have "\<forall>i < n. v < vs ! i" using le by fastforce
    then have "v \<notin> set vs" "ins_pos v vs = 0"
      using n by (auto simp: in_set_conv_nth intro!: ins_posI less_imp_le)
    then show ?thesis using 2 nz hi glast gfirst by (simp add: intsetSearch_def Let_def)
  next
    case 3
    have "\<exists>lo' mid' cur'. intsetSearch_loop s v 0 (int (n - 1)) (- 1) (- 1) = Some (lo', mid', cur') \<and>
      (if cur' = v then 0 \<le> mid' \<and> mid' < int (length vs) \<and> vs ! nat mid' = v
       else 0 \<le> lo' \<and> nat lo' \<le> length vs \<and> (\<forall>i < nat lo'. vs ! i < v) \<and>
            (\<forall>i. nat lo' \<le> i \<and> i < length vs \<longrightarrow> v < vs ! i))"
      using n by (intro search_loop_correct get len srt) auto
    then obtain lo mid cur where l: "intsetSearch_loop s v 0 (int (n - 1)) (- 1) (- 1) = Some (lo, mid, cur)"
      and r: "if cur = v then 0 \<le> mid \<and> mid < int n \<and> vs ! nat mid = v
       else 0 \<le> lo \<and> nat lo \<le> n \<and> (\<forall>i < nat lo. vs ! i < v) \<and>
            (\<forall>i. nat lo \<le> i \<and> i < n \<longrightarrow> v < vs ! i)"
      using n(3) by auto
    show ?thesis
    proof (cases "cur = v")
      case True
      with r have m: "0 \<le> mid" "nat mid < n" "vs ! nat mid = v" by auto
      have "ins_pos v vs = nat mid"
      proof (rule ins_posI)
        show "\<forall>i < nat mid. vs ! i < v"
          using sorted_wrt_nth_less [OF srt, of _ "nat mid"] m n by auto
        show "\<forall>i. nat mid \<le> i \<and> i < length vs \<longrightarrow> v \<le> vs ! i"
          using sorted_wrt_nth_less [OF srt, of "nat mid"] m n
          by (metis le_neq_implies_less less_imp_le order_refl)
      qed (use m n in auto)
      moreover have "v \<in> set vs" using m n by (metis nth_mem)
      moreover have "(word_of_int mid :: u32) = of_nat (nat mid)" using m by simp
      ultimately show ?thesis
        using 3 nz hi glast gfirst l True by (simp add: intsetSearch_def Let_def)
    next
      case False
      with r have m: "0 \<le> lo" "nat lo \<le> n" "\<forall>i < nat lo. vs ! i < v"
        "\<forall>i. nat lo \<le> i \<and> i < n \<longrightarrow> v < vs ! i" by auto
      then have "ins_pos v vs = nat lo" using n by (intro ins_posI) (auto intro: less_imp_le)
      moreover have "v \<notin> set vs"
        using m n by (metis in_set_conv_nth less_irrefl not_less)
      moreover have "(word_of_int lo :: u32) = of_nat (nat lo)" using m by simp
      ultimately show ?thesis
        using 3 nz hi glast gfirst l False by (simp add: intsetSearch_def Let_def)
    qed
  qed
qed

subsection \<open>The buffer operations on cells\<close>

lemma intsetSet_cells:
  assumes "is_contents s = concat cs" and "cells k cs" and "enc_width (is_encoding s) = k"
    and "i < length cs"
  shows "priv_intsetSet s (int i) v = Some (s\<lparr>is_contents := concat (cs[i := enc_le k v])\<rparr>)"
  using assms wr_cell [of k cs "enc_le k v" i] by (simp add: priv_intsetSet_def)

lemma intsetMoveTail_cells:
  assumes "is_contents s = concat cs" and "cells k cs" and "enc_width (is_encoding s) = k"
    and "unat (is_length s) = n" and "unat from \<le> n" and "n \<le> length cs" and "n * k < 2 ^ 32"
    and "unat to + (n - unat from) \<le> length cs"
  shows "intsetMoveTail s from to =
    Some (s\<lparr>is_contents := concat (take (unat to) cs @ take (n - unat from) (drop (unat from) cs)
              @ drop (unat to + (n - unat from)) cs)\<rparr>)"
proof -
  have d: "unat (is_length s - from) = n - unat from"
    using assms(4,5) by (subst unat_sub) (auto simp: word_le_nat_alt)
  have k32: "k < 2 ^ 32" using assms(3) by (auto simp: enc_width_def split: if_splits)
  have "(n - unat from) * k \<le> n * k" by simp
  then have "(n - unat from) * k < 2 ^ 32" using assms(7) by (rule le_less_trans)
  then have b: "unat ((is_length s - from) * of_nat k) = (n - unat from) * k"
    using d k32 by (subst unat_u32_mult) (auto simp: unat_of_nat_u32)
  have r: "rd (concat cs) (unat from * k) ((n - unat from) * k)
      = Some (concat (take (n - unat from) (drop (unat from) cs)))"
    using assms by (intro rd_cells) auto
  have "length (take (n - unat from) (drop (unat from) cs)) = n - unat from"
    using assms(6) by simp
  then have "wr (concat cs) (unat to * k) (concat (take (n - unat from) (drop (unat from) cs)))
      = Some (concat (take (unat to) cs @ take (n - unat from) (drop (unat from) cs)
              @ drop (unat to + (n - unat from)) cs))"
    using assms wr_cells [of k cs "take (n - unat from) (drop (unat from) cs)" "unat to"] by simp
  with b r assms(1,3) show ?thesis
    by (simp add: intsetMoveTail_def memmove_def Let_def)
qed

lemma intsetResize_grow:
  assumes "is_contents s = concat cs" and "cells k cs" and "unat (is_encoding s) = k"
    and "unat (is_length s) = length cs" and "(length cs + 1) * k < 2 ^ 32" and "0 < k"
  obtains J where "length J = k"
    and "intsetResize junk s (is_length s + 1) = s\<lparr>is_contents := concat (cs @ [J])\<rparr>"
proof -
  have "(length cs + 1) * 1 \<le> (length cs + 1) * k" using assms(6) by (intro mult_le_mono) auto
  then have "unat (is_length s + 1) = length cs + 1"
    using assms(4,5) by (subst unat_u32_plus1) auto
  then have sz: "unat ((is_length s + 1) * is_encoding s) = (length cs + 1) * k"
    using assms(3,5) by (subst unat_u32_mult) auto
  let ?J = "map junk [length (concat cs)..<(length cs + 1) * k]"
  have "length ?J = k" using assms(2) by (simp add: length_concat_cells)
  moreover have "intsetResize junk s (is_length s + 1) = s\<lparr>is_contents := concat (cs @ [?J])\<rparr>"
    using sz assms(1,2) by (simp add: intsetResize_def zrealloc_grow length_concat_cells)
  ultimately show thesis by (rule that)
qed

lemma upgrade_loop_correct:
  assumes k: "k = 2 \<or> k = 4 \<or> k = 8" "k' = 2 \<or> k' = 4 \<or> k' = 8" "k \<le> k'"
    and enc: "unat curenc = k" and fit: "list_all (fits k) vs" and p: "p \<le> 1"
  shows "\<lbrakk>enc_width (is_encoding s) = k'; length (is_contents s) = (length vs + 1) * k';
    j \<le> length vs; take (j * k) (is_contents s) = concat (map (enc_le k) (take j vs))\<rbrakk> \<Longrightarrow>
    \<exists>m. upgrade_loop s curenc p j = Some (s\<lparr>is_contents := m\<rparr>) \<and>
      length m = length (is_contents s) \<and>
      drop (p * k') (take ((j + p) * k') m) = concat (map (enc_le k') (take j vs)) \<and>
      drop ((j + p) * k') m = drop ((j + p) * k') (is_contents s)"
proof (induction j arbitrary: s)
  case 0
  have "s\<lparr>is_contents := is_contents s\<rparr> = s" by simp
  then show ?case by (intro exI [of _ "is_contents s"]) simp
next
  case (Suc j)
  let ?c = "is_contents s"
  have jl: "j < length vs" using Suc.prems by simp
  have "?c = concat (map (enc_le k) (take (Suc j) vs)) @ drop (Suc j * k) ?c"
    using Suc.prems(4) by (metis append_take_drop_id)
  then have get: "priv_intsetGetEncoded s (int j) curenc = Some (vs ! j)"
    using getEncoded_cells [of s k "take (Suc j) vs" "drop (Suc j * k) ?c" j curenc] jl k enc fit
    by (simp add: list_all_length)
  define m1 where "m1 = take ((j + p) * k') ?c @ enc_le k' (vs ! j) @ drop ((Suc j + p) * k') ?c"
  have in_range: "(Suc j + p) * k' \<le> length ?c"
    using Suc.prems(2,3) jl p by (simp only: mult_le_mono1)
  then have set: "priv_intsetSet s (int (j + p)) (vs ! j) = Some (s\<lparr>is_contents := m1\<rparr>)"
    using Suc.prems(1) by (simp add: priv_intsetSet_def wr_def m1_def nat_add_distrib algebra_simps)
  have len1: "length m1 = length ?c" using in_range by (simp add: m1_def)
  have jk: "j * k \<le> (j + p) * k'" using k(3) by (simp add: mult_le_mono)
  have "take (j * k) m1 = take (j * k) ?c"
    using jk in_range by (simp add: m1_def min_absorb1)
  also have "\<dots> = take (j * k) (take (Suc j * k) ?c)" by (simp add: min_absorb1)
  also have "\<dots> = concat (map (enc_le k) (take j vs))"
    unfolding Suc.prems(4) using jl take_concat_cells [of k "map (enc_le k) (take (Suc j) vs)" j]
    by (simp add: take_map)
  finally have t1: "take (j * k) m1 = concat (map (enc_le k) (take j vs))" .
  from Suc.IH [of "s\<lparr>is_contents := m1\<rparr>"] Suc.prems(1,2) jl t1 len1
  obtain m where m: "upgrade_loop (s\<lparr>is_contents := m1\<rparr>) curenc p j = Some (s\<lparr>is_contents := m\<rparr>)"
    "length m = length ?c" "drop (p * k') (take ((j + p) * k') m) = concat (map (enc_le k') (take j vs))"
    "drop ((j + p) * k') m = drop ((j + p) * k') m1"
    by auto
  have d1: "drop ((j + p) * k') m1 = enc_le k' (vs ! j) @ drop ((Suc j + p) * k') ?c"
    using in_range by (simp add: m1_def)
  have tk: "take ((Suc j + p) * k') m = take ((j + p) * k') m @ enc_le k' (vs ! j)"
  proof -
    have "take ((Suc j + p) * k') m = take ((j + p) * k') m @ take k' (drop ((j + p) * k') m)"
      by (simp add: take_add [symmetric] add.commute)
    then show ?thesis using m(4) d1 by simp
  qed
  have "drop (p * k') (take ((Suc j + p) * k') m) = concat (map (enc_le k') (take (Suc j) vs))"
    using m(2,3) tk in_range jl by (simp add: take_Suc_conv_app_nth)
  moreover have "drop ((Suc j + p) * k') m = drop ((Suc j + p) * k') ?c"
  proof -
    have "drop ((Suc j + p) * k') m = drop k' (drop ((j + p) * k') m)"
      by (simp add: add.commute)
    then show ?thesis using m(4) d1 by simp
  qed
  ultimately show ?case using get set m(1,2) by auto
qed

subsection \<open>Insertion\<close>

lemma intset_repI:
  assumes "is_encoding s = of_nat k" and "k = 2 \<or> k = 4 \<or> k = 8"
    and "unat (is_length s) = length vs" and "is_contents s = concat (map (enc_le k) vs)"
    and "list_all (fits k) vs" and "sorted_wrt (<) vs"
  shows "intset_rep s vs"
proof -
  have "unat (is_encoding s) = k" using assms(1,2) by (auto simp: unat_of_nat)
  with assms show ?thesis by (simp add: intset_rep_def Let_def)
qed

definition set_ins :: "int \<Rightarrow> int list \<Rightarrow> int list" where
  "set_ins v vs = take (ins_pos v vs) vs @ v # drop (ins_pos v vs) vs"

lemma ins_pos_less: "i < ins_pos v vs \<Longrightarrow> vs ! i < v"
  unfolding ins_pos_def by (metis nth_mem set_takeWhileD takeWhile_nth)

lemma ins_pos_ge:
  assumes "sorted_wrt (<) vs" and "ins_pos v vs \<le> i" and "i < length vs"
  shows "v \<le> vs ! i"
proof -
  have "v \<le> vs ! ins_pos v vs"
    using assms nth_length_takeWhile [of "\<lambda>x. x < v" vs] by (simp add: ins_pos_def)
  then show ?thesis
    using assms sorted_wrt_nth_less [of "(<)" vs "ins_pos v vs" i]
    by (cases "i = ins_pos v vs") force+
qed

lemma sorted_set_ins:
  assumes "sorted_wrt (<) vs" and "v \<notin> set vs"
  shows "sorted_wrt (<) (set_ins v vs)"
proof -
  have "\<forall>x \<in> set (take (ins_pos v vs) vs). x < v"
    by (metis in_set_conv_nth ins_pos_less length_take min_less_iff_conj nth_take)
  moreover have "\<forall>x \<in> set (drop (ins_pos v vs) vs). v < x"
  proof
    fix x assume x: "x \<in> set (drop (ins_pos v vs) vs)"
    then obtain i where "ins_pos v vs \<le> i" "i < length vs" "x = vs ! i"
      by (auto simp: in_set_conv_nth) (metis add.commute le_add2 less_diff_conv nth_drop)
    with ins_pos_ge [OF assms(1)] have "v \<le> x" by blast
    moreover have "x \<noteq> v" using x assms(2) by (auto dest: in_set_dropD)
    ultimately show "v < x" by simp
  qed
  moreover have "\<forall>x \<in> set (take (ins_pos v vs) vs). \<forall>y \<in> set (drop (ins_pos v vs) vs). x < y"
    using calculation by (meson less_trans)
  ultimately show ?thesis
    using assms(1) by (simp add: set_ins_def sorted_wrt_append sorted_wrt_take sorted_wrt_drop)
qed

lemma set_set_ins: "set (set_ins v vs) = insert v (set vs)"
  unfolding set_ins_def by (metis Un_insert_right append_take_drop_id list.simps(15) set_append)

lemma length_set_ins: "length (set_ins v vs) = length vs + 1"
  using ins_pos_le [of v vs] by (simp add: set_ins_def)

lemma set_ins_outside:
  assumes "sorted_wrt (<) vs" and "list_all (fits k) vs" and "\<not> fits k v"
  shows "set_ins v vs = (if v < 0 then v # vs else vs @ [v])"
proof (cases "v < 0")
  case True
  then have "v < - (2 ^ (8 * k - 1))"
    using assms(3) by (auto simp: fits_def)
  then have "\<forall>x \<in> set vs. v \<le> x" using assms(2) by (force simp: list_all_iff fits_def)
  then have "ins_pos v vs = 0" by (intro ins_posI) auto
  with True show ?thesis by (simp add: set_ins_def)
next
  case False
  then have "2 ^ (8 * k - 1) \<le> v"
    using assms(3) by (auto simp: fits_def)
  then have "\<forall>x \<in> set vs. x < v" using assms(2) by (force simp: list_all_iff fits_def)
  then have "ins_pos v vs = length vs" by (intro ins_posI) auto
  with False show ?thesis by (simp add: set_ins_def)
qed

lemma intset_rep_intsetNew: "intset_rep intsetNew []"
  by (simp add: intset_rep_def intsetNew_def)

text \<open>
  The three phases of \<^verbatim>\<open>intsetUpgradeAndAdd\<close>: the reallocated buffer starts with the old cells; the
  loop leaves the widened cells with one free cell at the right end; the value fills it.
\<close>

lemma upgrade_alloc:
  assumes rep: "intset_rep s vs" and enc: "unat (is_encoding s) = k" and kk: "k < k'"
    and k': "k' = 2 \<or> k' = 4 \<or> k' = 8" and room: "(length vs + 1) * 8 < 2 ^ 32"
  obtains m where
    "intsetResize junk (s\<lparr>is_encoding := of_nat k'\<rparr>) (is_length s + 1)
       = s\<lparr>is_encoding := of_nat k', is_contents := m\<rparr>"
    "length m = (length vs + 1) * k'" "take (length vs * k) m = concat (map (enc_le k) vs)"
proof -
  let ?n = "length vs"
  have ul: "unat (is_length s) = ?n" and c: "is_contents s = concat (map (enc_le k) vs)"
    using rep enc by (auto simp: intset_rep_def Let_def)
  have u': "unat (of_nat k' :: u32) = k'" using k' by (auto simp: unat_of_nat)
  have n: "(?n + 1) * k' < 2 ^ 32" "?n + 1 < 2 ^ 29" using room k' by auto
  have "unat (is_length s + 1) = ?n + 1" using ul n by (subst unat_u32_plus1) auto
  then have sz: "unat ((is_length s + 1) * of_nat k') = (?n + 1) * k'"
    using u' n by (subst unat_u32_mult) auto
  have l: "length (concat (map (enc_le k) vs)) = ?n * k"
    using length_concat_cells [of k "map (enc_le k) vs"] by simp
  have "?n * k \<le> (?n + 1) * k'" using kk by (intro mult_le_mono) auto
  with l sz c show thesis
    by (intro that [of "zrealloc junk (is_contents s) ((?n + 1) * k')"])
      (auto simp: intsetResize_def zrealloc_grow)
qed

definition spread :: "nat \<Rightarrow> int \<Rightarrow> int list \<Rightarrow> byte list \<Rightarrow> byte list list" where
  "spread k v vs J = (if v < 0 then J # map (enc_le k) vs else map (enc_le k) vs @ [J])"

lemma upgrade_spread:
  assumes k: "k = 2 \<or> k = 4 \<or> k = 8" "k' = 2 \<or> k' = 4 \<or> k' = 8" "k \<le> k'"
    and enc: "unat curenc = k" "enc_width (is_encoding s) = k'" and fit: "list_all (fits k) vs"
    and len: "length (is_contents s) = (length vs + 1) * k'"
    and old: "take (length vs * k) (is_contents s) = concat (map (enc_le k) vs)"
    and p: "p = (if v < 0 then 1 else 0)"
  shows "\<exists>J. length J = k' \<and>
    upgrade_loop s curenc p (length vs) = Some (s\<lparr>is_contents := concat (spread k' v vs J)\<rparr>)"
proof -
  let ?n = "length vs"
  have p1: "p \<le> 1" using p by simp
  obtain m where m: "upgrade_loop s curenc p ?n = Some (s\<lparr>is_contents := m\<rparr>)"
    "length m = (?n + 1) * k'" "drop (p * k') (take ((?n + p) * k') m) = concat (map (enc_le k') vs)"
    using upgrade_loop_correct [OF k enc(1) fit p1 enc(2) len order_refl] old len by auto
  show ?thesis
  proof (cases "v < 0")
    case True
    then have "m = take k' m @ concat (map (enc_le k') vs)"
      using m(2,3) p by simp (metis append_take_drop_id)
    with True m(1,2) show ?thesis by (intro exI [of _ "take k' m"]) (auto simp: spread_def)
  next
    case False
    then have "m = concat (map (enc_le k') vs) @ drop (?n * k') m"
      using m(2,3) p by simp (metis append_take_drop_id)
    with False m(1,2) show ?thesis by (intro exI [of _ "drop (?n * k') m"]) (auto simp: spread_def)
  qed
qed

lemma spread_fill:
  assumes "length J = k" and "is_contents s = concat (spread k v vs J)"
    and "enc_width (is_encoding s) = k" and "set_ins v vs = (if v < 0 then v # vs else vs @ [v])"
  shows "priv_intsetSet s (int (if v < 0 then 0 else length vs)) v
      = Some (s\<lparr>is_contents := concat (map (enc_le k) (set_ins v vs))\<rparr>)"
proof -
  have "(spread k v vs J)[(if v < 0 then 0 else length vs) := enc_le k v] = map (enc_le k) (set_ins v vs)"
    using assms(4) by (simp add: spread_def list_update_append)
  moreover have "cells k (spread k v vs J)" "length (spread k v vs J) = length vs + 1"
    using assms(1) by (auto simp: spread_def)
  ultimately show ?thesis
    using intsetSet_cells [OF assms(2) _ assms(3), of "if v < 0 then 0 else length vs" v] by simp
qed

lemma upgrade_correct:
  assumes rep: "intset_rep s vs" and v: "is_int64 v" and room: "(length vs + 1) * 8 < 2 ^ 32"
    and wide: "ucast (priv_intsetValueEncoding v) > is_encoding s"
  shows "\<exists>s'. intsetUpgradeAndAdd junk s v = Some s' \<and> intset_rep s' (set_ins v vs) \<and> v \<notin> set vs"
proof -
  from rep obtain k where k: "k = 2 \<or> k = 4 \<or> k = 8" "unat (is_encoding s) = k"
    "unat (is_length s) = length vs" "list_all (fits k) vs" "sorted_wrt (<) vs"
    by (rule intset_repD)
  define k' where "k' = unat (priv_intsetValueEncoding v)"
  have k': "k' = 2 \<or> k' = 4 \<or> k' = 8" using valenc_cases by (simp add: k'_def)
  have newenc: "(ucast (priv_intsetValueEncoding v) :: u32) = of_nat k'" by (simp add: k'_def)
  have "unat (of_nat k' :: u32) = k'" using k' by (auto simp: unat_of_nat)
  then have kk: "k < k'" using wide newenc k(2) by (simp add: word_less_nat_alt)
  have nofit: "\<not> fits k v" and fit': "fits k' v"
    using valenc_fits [OF v k(1)] valenc_fits [OF v k'] kk by (simp_all add: k'_def)
  have cur: "unat (ucast (is_encoding s) :: u8) = k" using k(1,2) by (auto simp: unsigned_ucast_eq)
  have si: "sint (is_length s) = int (length vs)"
    using k(3) room by (subst sint_u32_small) auto
  obtain m0 where m0: "intsetResize junk (s\<lparr>is_encoding := of_nat k'\<rparr>) (is_length s + 1)
       = s\<lparr>is_encoding := of_nat k', is_contents := m0\<rparr>"
    "length m0 = (length vs + 1) * k'" "take (length vs * k) m0 = concat (map (enc_le k) vs)"
    by (rule upgrade_alloc [OF rep k(2) kk k' room])
  let ?s2 = "s\<lparr>is_encoding := of_nat k', is_contents := m0\<rparr>"
  let ?p = "if v < 0 then 1 else 0 :: nat"
  obtain J where J: "length J = k'" "upgrade_loop ?s2 (ucast (is_encoding s)) ?p (length vs)
      = Some (?s2\<lparr>is_contents := concat (spread k' v vs J)\<rparr>)"
    using upgrade_spread [OF k(1) k' less_imp_le [OF kk] cur _ k(4), of ?s2 ?p v] m0(2,3)
      enc_width_of_nat [OF k'] by auto
  let ?s3 = "?s2\<lparr>is_contents := concat (spread k' v vs J)\<rparr>"
  have fill: "priv_intsetSet ?s3 (int (if v < 0 then 0 else length vs)) v
      = Some (?s3\<lparr>is_contents := concat (map (enc_le k') (set_ins v vs))\<rparr>)"
    by (rule spread_fill [OF J(1)])
      (use enc_width_of_nat [OF k'] set_ins_outside [OF k(5,4) nofit] in auto)
  let ?s' = "s\<lparr>is_encoding := of_nat k', is_length := is_length s + 1,
               is_contents := concat (map (enc_le k') (set_ins v vs))\<rparr>"
  have "intsetUpgradeAndAdd junk s v = Some ?s'"
    using m0(1) J(2) fill si unfolding intsetUpgradeAndAdd_def newenc Let_def
    by (auto split: if_splits)
  moreover have notin: "v \<notin> set vs" using nofit k(4) by (auto simp: list_all_iff)
  moreover have "intset_rep ?s' (set_ins v vs)"
  proof (rule intset_repI [OF _ k'])
    have "unat (is_length s + 1) = length vs + 1" using k(3) room by (subst unat_u32_plus1) auto
    then show "unat (is_length ?s') = length (set_ins v vs)" by (simp add: length_set_ins)
    show "list_all (fits k') (set_ins v vs)"
      using fit' k(4) kk by (auto simp: list_all_iff set_set_ins intro: fits_mono)
    show "sorted_wrt (<) (set_ins v vs)" using k(5) notin by (rule sorted_set_ins)
  qed simp_all
  ultimately show ?thesis by blast
qed

lemma insert_cells:
  assumes rep: "intset_rep s vs" and enc: "unat (is_encoding s) = k" and room: "(length vs + 1) * 8 < 2 ^ 32"
    and p: "p \<le> length vs"
  shows "\<exists>J. length J = k \<and>
    (let s1 = intsetResize junk s (is_length s + 1) in
     if of_nat p < is_length s1 then intsetMoveTail s1 (of_nat p) (of_nat p + 1) else Some s1)
       = Some (s\<lparr>is_contents := concat (map (enc_le k) (take p vs) @ [J] @ map (enc_le k) (drop p vs))\<rparr>)"
proof -
  let ?n = "length vs" and ?cs = "map (enc_le k) vs"
  from rep enc have k: "k = 2 \<or> k = 4 \<or> k = 8" "enc_width (is_encoding s) = k"
    "unat (is_length s) = ?n" "is_contents s = concat ?cs"
    by (auto elim!: intset_repD)
  have n: "(?n + 1) * k < 2 ^ 32" "?n + 1 < 2 ^ 29" using room k(1) by auto
  obtain J where J: "length J = k"
    "intsetResize junk s (is_length s + 1) = s\<lparr>is_contents := concat (?cs @ [J])\<rparr>"
    by (rule intsetResize_grow [OF k(4) _ enc]) (use k n in auto)
  let ?s1 = "s\<lparr>is_contents := concat (?cs @ [J])\<rparr>"
  have up: "unat (of_nat p :: u32) = p" using p n by (intro unat_of_nat_u32) simp
  have up1: "unat (of_nat p + 1 :: u32) = p + 1" using up p n by (subst unat_u32_plus1) auto
  show ?thesis
  proof (cases "p < ?n")
    case True
    let ?J = "enc_le k (vs ! p)"
    have eq: "take (p + 1) (?cs @ [J]) @ take (?n - p) (drop p (?cs @ [J])) @ drop (p + 1 + (?n - p)) (?cs @ [J])
        = map (enc_le k) (take p vs) @ [?J] @ map (enc_le k) (drop p vs)"
      using True by (simp add: take_map drop_map take_Suc_conv_app_nth)
    have mv: "intsetMoveTail ?s1 (of_nat p) (of_nat p + 1) =
      Some (?s1\<lparr>is_contents := concat (map (enc_le k) (take p vs) @ [?J] @ map (enc_le k) (drop p vs))\<rparr>)"
      unfolding eq [symmetric]
      using intsetMoveTail_cells [of ?s1 "?cs @ [J]" k ?n "of_nat p" "of_nat p + 1"] up up1 True k n J
      by simp
    with mv J True up k(3) show ?thesis
      by (intro exI [of _ ?J]) (simp add: word_less_nat_alt Let_def)
  next
    case False
    with p have "p = ?n" by simp
    with J up k(3) show ?thesis
      by (intro exI [of _ J]) (simp add: word_less_nat_alt Let_def)
  qed
qed

lemma insert_correct:
  assumes rep: "intset_rep s vs" and v: "is_int64 v" and room: "(length vs + 1) * 8 < 2 ^ 32"
    and narrow: "\<not> ucast (priv_intsetValueEncoding v) > is_encoding s" and new: "v \<notin> set vs"
  shows "\<exists>s'. intsetAdd junk s v = Some (s', True) \<and> intset_rep s' (set_ins v vs)"
proof -
  from rep obtain k where k: "k = 2 \<or> k = 4 \<or> k = 8" "unat (is_encoding s) = k"
    "is_encoding s = of_nat k" "enc_width (is_encoding s) = k"
    "unat (is_length s) = length vs" "list_all (fits k) vs" "sorted_wrt (<) vs"
    by (rule intset_repD)
  have vfit: "fits k v"
    using narrow k(2) valenc_fits [OF v k(1)] by (simp add: word_less_nat_alt unat_ucast_u8_u32)
  let ?p = "ins_pos v vs"
  have p: "?p \<le> length vs" by (rule ins_pos_le)
  have up: "unat (of_nat ?p :: u32) = ?p" using p room by (intro unat_of_nat_u32) simp
  have sp: "sint (of_nat ?p :: u32) = int ?p" using up p room by (subst sint_u32_small) auto
  obtain J where J: "length J = k"
    "(let s1 = intsetResize junk s (is_length s + 1) in
      if of_nat ?p < is_length s1 then intsetMoveTail s1 (of_nat ?p) (of_nat ?p + 1) else Some s1)
       = Some (s\<lparr>is_contents := concat (map (enc_le k) (take ?p vs) @ [J] @ map (enc_le k) (drop ?p vs))\<rparr>)"
    using insert_cells [OF rep k(2) room p, of junk] by (elim exE conjE) (rule that)
  let ?s2 = "s\<lparr>is_contents := concat (map (enc_le k) (take ?p vs) @ [J] @ map (enc_le k) (drop ?p vs))\<rparr>"
  let ?s' = "s\<lparr>is_length := is_length s + 1, is_contents := concat (map (enc_le k) (set_ins v vs))\<rparr>"
  have "priv_intsetSet ?s2 (int ?p) v = Some (?s2\<lparr>is_contents := concat (map (enc_le k) (set_ins v vs))\<rparr>)"
    using intsetSet_cells [of ?s2 "map (enc_le k) (take ?p vs) @ [J] @ map (enc_le k) (drop ?p vs)" k ?p v]
      J(1) k(4) p by (simp add: set_ins_def list_update_append)
  moreover have "intsetSearch s v = Some (False, of_nat ?p)"
    using intsetSearch_correct [OF rep, of v] room new by simp
  ultimately have "intsetAdd junk s v = Some (?s', True)"
    using narrow J(2) sp unfolding intsetAdd_def Let_def by simp
  moreover have "intset_rep ?s' (set_ins v vs)"
  proof (rule intset_repI [OF _ k(1)])
    have "unat (is_length s + 1) = length vs + 1" using k(5) room by (subst unat_u32_plus1) auto
    then show "unat (is_length ?s') = length (set_ins v vs)" by (simp add: length_set_ins)
    show "list_all (fits k) (set_ins v vs)" using vfit k(6) by (auto simp: list_all_iff set_set_ins)
    show "sorted_wrt (<) (set_ins v vs)" using k(7) new by (rule sorted_set_ins)
  qed (use k(3) in simp_all)
  ultimately show ?thesis by blast
qed

lemma intsetAdd_rep:
  assumes rep: "intset_rep s vs" and v: "is_int64 v" and room: "(length vs + 1) * 8 < 2 ^ 32"
  shows "\<exists>s'. intsetAdd junk s v = Some (s', v \<notin> set vs) \<and>
              intset_rep s' (if v \<in> set vs then vs else set_ins v vs)"
proof (cases "ucast (priv_intsetValueEncoding v) > is_encoding s")
  case True
  with upgrade_correct [OF rep v room True, of junk] show ?thesis
    by (auto simp: intsetAdd_def Let_def)
next
  case False
  show ?thesis
  proof (cases "v \<in> set vs")
    case True
    with False intsetSearch_correct [OF rep, of v] room rep show ?thesis
      by (simp add: intsetAdd_def Let_def)
  next
    case new: False
    with insert_correct [OF rep v room False] show ?thesis by auto
  qed
qed

subsection \<open>Removal and queries\<close>

definition set_del :: "int \<Rightarrow> int list \<Rightarrow> int list" where
  "set_del v vs = take (ins_pos v vs) vs @ drop (Suc (ins_pos v vs)) vs"

lemma ins_pos_member:
  assumes "sorted_wrt (<) vs" and "v \<in> set vs"
  shows "ins_pos v vs < length vs" and "vs ! ins_pos v vs = v"
proof -
  obtain i where i: "i < length vs" "vs ! i = v" using assms(2) by (auto simp: in_set_conv_nth)
  have "ins_pos v vs = i"
  proof (rule ins_posI)
    show "\<forall>j < i. vs ! j < v" using i sorted_wrt_nth_less [OF assms(1)] by blast
    show "\<forall>j. i \<le> j \<and> j < length vs \<longrightarrow> v \<le> vs ! j"
      using i sorted_wrt_nth_less [OF assms(1), of i] by (metis le_neq_implies_less less_imp_le order_refl)
  qed (use i in simp)
  with i show "ins_pos v vs < length vs" "vs ! ins_pos v vs = v" by auto
qed

lemma set_del_split:
  assumes "sorted_wrt (<) vs" and "v \<in> set vs"
  obtains xs ys where "vs = xs @ v # ys" and "set_del v vs = xs @ ys"
  using id_take_nth_drop [OF ins_pos_member(1) [OF assms]] ins_pos_member(2) [OF assms]
  by (auto simp: set_del_def intro: that)

lemma set_set_del:
  assumes "sorted_wrt (<) vs" and "v \<in> set vs"
  shows "set (set_del v vs) = set vs - {v}" and "sorted_wrt (<) (set_del v vs)"
    and "length (set_del v vs) = length vs - 1"
proof -
  obtain xs ys where "vs = xs @ v # ys" "set_del v vs = xs @ ys" by (rule set_del_split [OF assms])
  with assms(1) show "set (set_del v vs) = set vs - {v}" "sorted_wrt (<) (set_del v vs)"
    "length (set_del v vs) = length vs - 1"
    by (auto simp: sorted_wrt_append)
qed

lemma remove_cells:
  assumes rep: "intset_rep s vs" and enc: "unat (is_encoding s) = k" and room: "length vs * 8 < 2 ^ 32"
    and p: "p < length vs"
  shows "\<exists>m. (if of_nat p < is_length s - 1 then intsetMoveTail s (of_nat p + 1) (of_nat p) else Some s)
      = Some (s\<lparr>is_contents := m\<rparr>) \<and>
    intsetResize junk (s\<lparr>is_contents := m\<rparr>) (is_length s - 1)
      = s\<lparr>is_contents := concat (map (enc_le k) (take p vs @ drop (Suc p) vs))\<rparr>"
proof -
  let ?n = "length vs" and ?cs = "map (enc_le k) vs"
  from rep enc have k: "k = 2 \<or> k = 4 \<or> k = 8" "enc_width (is_encoding s) = k"
    "unat (is_length s) = ?n" "is_contents s = concat ?cs"
    by (auto elim!: intset_repD)
  have n: "?n * k < 2 ^ 32" "?n < 2 ^ 29" using room k(1) by auto
  have up: "unat (of_nat p :: u32) = p" using p n by (intro unat_of_nat_u32) simp
  have up1: "unat (of_nat p + 1 :: u32) = p + 1" using up p n by (subst unat_u32_plus1) auto
  have nz: "is_length s \<noteq> 0" using k(3) p by auto
  have un: "unat (is_length s - 1) = ?n - 1" using unat_u32_minus1 [OF nz] k(3) by simp
  have "(?n - 1) * k \<le> ?n * k" by simp
  then have "(?n - 1) * k < 2 ^ 32" using n(1) by (rule le_less_trans)
  then have sz: "unat ((is_length s - 1) * is_encoding s) = (?n - 1) * k"
    using un enc by (subst unat_u32_mult) auto
  have trunc: "intsetResize junk (s\<lparr>is_contents := concat ds\<rparr>) (is_length s - 1)
      = s\<lparr>is_contents := concat (take (?n - 1) ds)\<rparr>" if "cells k ds" "length ds = ?n" for ds
    using that sz by (simp add: intsetResize_def zrealloc_shrink length_concat_cells take_concat_cells)
  show ?thesis
  proof (cases "p < ?n - 1")
    case True
    let ?ds = "take p ?cs @ take (?n - (p + 1)) (drop (p + 1) ?cs) @ drop (p + (?n - (p + 1))) ?cs"
    have ds: "cells k ?ds" "length ?ds = ?n" using True by auto
    have eq: "take (?n - 1) ?ds = map (enc_le k) (take p vs @ drop (Suc p) vs)"
      using True by (simp add: take_map drop_map)
    have "intsetMoveTail s (of_nat p + 1) (of_nat p) = Some (s\<lparr>is_contents := concat ?ds\<rparr>)"
      using intsetMoveTail_cells [of s ?cs k ?n "of_nat p + 1" "of_nat p"] up up1 True k n by simp
    with trunc [OF ds] True up un show ?thesis
      unfolding eq by (intro exI [of _ "concat ?ds"]) (simp only: word_less_nat_alt if_True)
  next
    case False
    with p have "p = ?n - 1" by simp
    then have eq: "take (?n - 1) ?cs = map (enc_le k) (take p vs @ drop (Suc p) vs)"
      using p by (simp add: take_map)
    have "\<not> of_nat p < is_length s - 1" using False up un by (simp add: word_less_nat_alt)
    moreover have "s = s\<lparr>is_contents := concat ?cs\<rparr>" using k(4) by simp
    ultimately show ?thesis
      using trunc [of ?cs] unfolding eq by (intro exI [of _ "concat ?cs"]) simp
  qed
qed

lemma intsetRemove_rep:
  assumes rep: "intset_rep s vs" and v: "is_int64 v" and room: "length vs * 8 < 2 ^ 32"
  shows "\<exists>s'. intsetRemove junk s v = Some (s', v \<in> set vs) \<and>
              intset_rep s' (if v \<in> set vs then set_del v vs else vs)"
proof -
  from rep obtain k where k: "k = 2 \<or> k = 4 \<or> k = 8" "unat (is_encoding s) = k"
    "is_encoding s = of_nat k" "unat (is_length s) = length vs" "list_all (fits k) vs"
    "sorted_wrt (<) vs"
    by (rule intset_repD)
  have wide: "ucast (priv_intsetValueEncoding v) \<le> is_encoding s \<longleftrightarrow> fits k v"
    using k(2) valenc_fits [OF v k(1)] by (simp add: word_le_nat_alt unat_ucast_u8_u32)
  have srch: "intsetSearch s v = Some (v \<in> set vs, of_nat (ins_pos v vs))"
    using room by (intro intsetSearch_correct [OF rep]) simp
  show ?thesis
  proof (cases "v \<in> set vs")
    case False
    with wide srch rep show ?thesis by (simp add: intsetRemove_def Let_def)
  next
    case True
    let ?p = "ins_pos v vs"
    let ?s' = "s\<lparr>is_length := is_length s - 1, is_contents := concat (map (enc_le k) (set_del v vs))\<rparr>"
    have fit: "fits k v" using True k(5) by (auto simp: list_all_iff)
    from remove_cells [OF rep k(2) room ins_pos_member(1) [OF k(6) True], of junk, folded set_del_def]
    obtain m where m: "(if of_nat ?p < is_length s - 1 then intsetMoveTail s (of_nat ?p + 1) (of_nat ?p)
        else Some s) = Some (s\<lparr>is_contents := m\<rparr>)"
      "intsetResize junk (s\<lparr>is_contents := m\<rparr>) (is_length s - 1)
        = s\<lparr>is_contents := concat (map (enc_le k) (set_del v vs))\<rparr>"
      by (elim exE conjE) (rule that)
    have "intsetRemove junk s v = Some (?s', True)"
      using wide fit srch True m unfolding intsetRemove_def Let_def by simp
    moreover have "intset_rep ?s' (set_del v vs)"
    proof (rule intset_repI [OF _ k(1)])
      have "is_length s \<noteq> 0" using k(4) True by auto
      then have "unat (is_length s - 1) = length vs - 1" using unat_u32_minus1 k(4) by metis
      then show "unat (is_length ?s') = length (set_del v vs)" using set_set_del(3) [OF k(6) True] by simp
      show "list_all (fits k) (set_del v vs)" using k(5) set_set_del(1) [OF k(6) True] by (auto simp: list_all_iff)
    qed (use k(3) set_set_del(2) [OF k(6) True] in simp_all)
    ultimately show ?thesis using True by auto
  qed
qed

lemma intsetFind_rep:
  assumes rep: "intset_rep s vs" and v: "is_int64 v" and room: "length vs < 2 ^ 31"
  shows "intsetFind s v = Some (v \<in> set vs)"
proof -
  from rep obtain k where k: "k = 2 \<or> k = 4 \<or> k = 8" "unat (is_encoding s) = k" "list_all (fits k) vs"
    by (rule intset_repD)
  have "ucast (priv_intsetValueEncoding v) \<le> is_encoding s \<longleftrightarrow> fits k v"
    using k(2) valenc_fits [OF v k(1)] by (simp add: word_le_nat_alt unat_ucast_u8_u32)
  then show ?thesis
    using intsetSearch_correct [OF rep room, of v] k(3) by (auto simp: intsetFind_def Let_def list_all_iff)
qed

subsection \<open>The set interface\<close>

text \<open>
  What a client of an integer set relies on: a representation relation to sorted lists, and
  insertion, removal and lookup that compute the operation on sets and report whether
  the set changed, as long as the set has at most \<open>cap\<close> members.
\<close>

locale int_set =
  fixes rep :: "'s \<Rightarrow> int list \<Rightarrow> bool" and new :: 's
    and add :: "'s \<Rightarrow> int \<Rightarrow> ('s \<times> bool) option" and del :: "'s \<Rightarrow> int \<Rightarrow> ('s \<times> bool) option"
    and find :: "'s \<Rightarrow> int \<Rightarrow> bool option" and cap :: nat
  assumes rep_sorted: "rep s vs \<Longrightarrow> sorted_wrt (<) vs"
    and rep_new: "rep new []"
    and rep_add: "rep s vs \<Longrightarrow> is_int64 v \<Longrightarrow> length vs < cap \<Longrightarrow>
      \<exists>s' vs'. add s v = Some (s', v \<notin> set vs) \<and> rep s' vs' \<and> set vs' = insert v (set vs)"
    and rep_del: "rep s vs \<Longrightarrow> is_int64 v \<Longrightarrow> length vs \<le> cap \<Longrightarrow>
      \<exists>s' vs'. del s v = Some (s', v \<in> set vs) \<and> rep s' vs' \<and> set vs' = set vs - {v}"
    and rep_find: "rep s vs \<Longrightarrow> is_int64 v \<Longrightarrow> length vs \<le> cap \<Longrightarrow> find s v = Some (v \<in> set vs)"

datatype set_op = SetAdd int | SetDel int

fun set_op_arg :: "set_op \<Rightarrow> int" where
  "set_op_arg (SetAdd v) = v"
| "set_op_arg (SetDel v) = v"

text \<open>A sequence of calls, with the \<^verbatim>\<open>success\<close> flag of each, and the same sequence on sets.\<close>

fun set_run :: "('s \<Rightarrow> int \<Rightarrow> ('s \<times> bool) option) \<Rightarrow> ('s \<Rightarrow> int \<Rightarrow> ('s \<times> bool) option) \<Rightarrow>
    's \<Rightarrow> set_op list \<Rightarrow> ('s \<times> bool list) option" where
  "set_run add del s [] = Some (s, [])"
| "set_run add del s (x # xs) =
     do { (s', b) \<leftarrow> (case x of SetAdd v \<Rightarrow> add s v | SetDel v \<Rightarrow> del s v);
          (s'', bs) \<leftarrow> set_run add del s' xs;
          Some (s'', b # bs) }"

fun set_spec :: "int set \<Rightarrow> set_op list \<Rightarrow> int set \<times> bool list" where
  "set_spec A [] = (A, [])"
| "set_spec A (SetAdd v # xs) = (case set_spec (insert v A) xs of (B, bs) \<Rightarrow> (B, (v \<notin> A) # bs))"
| "set_spec A (SetDel v # xs) = (case set_spec (A - {v}) xs of (B, bs) \<Rightarrow> (B, (v \<in> A) # bs))"

context int_set
begin

lemma rep_distinct: "rep s vs \<Longrightarrow> distinct vs"
  using rep_sorted by (simp add: strict_sorted_iff)

lemma run_refines:
  assumes "rep s vs" and "length vs + length ops \<le> cap" and "\<forall>x \<in> set ops. is_int64 (set_op_arg x)"
  shows "\<exists>s' vs' bs. set_run add del s ops = Some (s', bs) \<and> rep s' vs' \<and>
           length vs' \<le> length vs + length ops \<and> set_spec (set vs) ops = (set vs', bs)"
  using assms
proof (induction ops arbitrary: s vs)
  case Nil
  then show ?case by auto
next
  case (Cons x xs)
  let ?A' = "case x of SetAdd v \<Rightarrow> insert v (set vs) | SetDel v \<Rightarrow> set vs - {v}"
  have step: "\<exists>s' vs'. (case x of SetAdd v \<Rightarrow> add s v | SetDel v \<Rightarrow> del s v) =
      Some (s', case x of SetAdd v \<Rightarrow> v \<notin> set vs | SetDel v \<Rightarrow> v \<in> set vs) \<and> rep s' vs' \<and> set vs' = ?A'"
    using rep_add [OF Cons.prems(1)] rep_del [OF Cons.prems(1)] Cons.prems(2,3)
    by (cases x) simp_all
  then obtain s' vs' where s': "(case x of SetAdd v \<Rightarrow> add s v | SetDel v \<Rightarrow> del s v) =
      Some (s', case x of SetAdd v \<Rightarrow> v \<notin> set vs | SetDel v \<Rightarrow> v \<in> set vs)" "rep s' vs'" "set vs' = ?A'"
    by (elim exE conjE) (rule that)
  have "card ?A' \<le> card (set vs) + 1"
    by (cases x) (simp_all add: card_insert_if card_Diff_singleton_if le_SucI)
  then have len: "length vs' \<le> length vs + 1"
    using s'(3) distinct_card [OF rep_distinct [OF s'(2)]] distinct_card [OF rep_distinct [OF Cons.prems(1)]]
    by simp
  then have "length vs' + length xs \<le> cap" "\<forall>x \<in> set xs. is_int64 (set_op_arg x)"
    using Cons.prems(2,3) by simp_all
  from Cons.IH [OF s'(2) this] obtain s'' vs'' bs where
    r: "set_run add del s' xs = Some (s'', bs)" "rep s'' vs''" "length vs'' \<le> length vs' + length xs"
    "set_spec (set vs') xs = (set vs'', bs)" by (elim exE conjE) (rule that)
  let ?b = "case x of SetAdd v \<Rightarrow> v \<notin> set vs | SetDel v \<Rightarrow> v \<in> set vs"
  have "set_run add del s (x # xs) = Some (s'', ?b # bs)" using s'(1) r(1) by simp
  moreover have "set_spec (set vs) (x # xs) = (set vs'', ?b # bs)"
    using s'(3) r(4) by (cases x) simp_all
  moreover have "length vs'' \<le> length vs + length (x # xs)" using len r(3) by simp
  ultimately show ?case using r(2) by blast
qed

end

definition INTSET_CAP :: nat where
  "INTSET_CAP = 536870910"

interpretation intset: int_set intset_rep intsetNew "intsetAdd junk" "intsetRemove junk" intsetFind INTSET_CAP
  for junk
proof unfold_locales
  show "intset_rep s vs \<Longrightarrow> sorted_wrt (<) vs" for s vs by (auto elim: intset_repD)
  show "intset_rep intsetNew []" by (rule intset_rep_intsetNew)
  show "\<exists>s' vs'. intsetAdd junk s v = Some (s', v \<notin> set vs) \<and> intset_rep s' vs' \<and> set vs' = insert v (set vs)"
    if "intset_rep s vs" "is_int64 v" "length vs < INTSET_CAP" for s vs v
  proof -
    have "set (if v \<in> set vs then vs else set_ins v vs) = insert v (set vs)"
      by (simp add: set_set_ins insert_absorb)
    moreover have "(length vs + 1) * 8 < 2 ^ 32" using that(3) by (simp add: INTSET_CAP_def)
    ultimately show ?thesis using intsetAdd_rep [OF that(1,2), of junk] by metis
  qed
  show "\<exists>s' vs'. intsetRemove junk s v = Some (s', v \<in> set vs) \<and> intset_rep s' vs' \<and> set vs' = set vs - {v}"
    if "intset_rep s vs" "is_int64 v" "length vs \<le> INTSET_CAP" for s vs v
  proof -
    have "sorted_wrt (<) vs" using that(1) by (auto elim: intset_repD)
    then have "set (if v \<in> set vs then set_del v vs else vs) = set vs - {v}"
      by (simp add: set_set_del(1))
    moreover have "length vs * 8 < 2 ^ 32" using that(3) by (simp add: INTSET_CAP_def)
    ultimately show ?thesis using intsetRemove_rep [OF that(1,2), of junk] by metis
  qed
  show "intsetFind s v = Some (v \<in> set vs)"
    if "intset_rep s vs" "is_int64 v" "length vs \<le> INTSET_CAP" for s vs v
    using that by (intro intsetFind_rep) (auto simp: INTSET_CAP_def)
qed

lemma intsetGet_correct:
  assumes "intset_rep s vs" and "length vs < 2 ^ 31"
  shows "intsetGet s pos =
    Some (if unat pos < length vs then (True, Some (vs ! unat pos)) else (False, None))"
proof -
  have "unat (is_length s) = length vs" using assms(1) by (auto elim!: intset_repD)
  moreover have "unat pos < length vs \<Longrightarrow> sint pos = int (unat pos)"
    using assms(2) by (intro sint_u32_small) simp
  ultimately show ?thesis
    using intsetGet_rep [OF assms(1), of "unat pos"] by (simp add: intsetGet_def word_less_nat_alt)
qed

lemma intsetRandom_member:
  assumes "intset_rep s vs" and "length vs < 2 ^ 31" and "vs \<noteq> []"
  shows "\<exists>v \<in> set vs. intsetRandom r s = Some v"
proof -
  have ul: "unat (is_length s) = length vs" using assms(1) by (auto elim!: intset_repD)
  let ?i = "(of_nat r :: u32) mod is_length s"
  have i: "unat ?i < length vs" using ul assms(3) by (simp add: unat_mod_distrib)
  then have "sint ?i = int (unat ?i)" using assms(2) by (intro sint_u32_small) simp
  then show ?thesis
    using intsetGet_rep [OF assms(1) i] i ul assms(3) by (auto simp: intsetRandom_def)
qed

lemma intsetBlobLen_correct:
  assumes "intset_rep s vs" and "length vs * 8 < 2 ^ 32"
  shows "unat (intsetBlobLen s) = 8 + length (is_contents s)"
proof -
  from assms(1) obtain k where k: "k = 2 \<or> k = 4 \<or> k = 8" "unat (is_encoding s) = k"
    "unat (is_length s) = length vs" "is_contents s = concat (map (enc_le k) vs)"
    by (rule intset_repD)
  have "length vs * k < 2 ^ 32" using assms(2) k(1) by auto
  then have m: "unat (is_length s * is_encoding s) = length vs * k" using k by (subst unat_u32_mult) auto
  then have "unat (ucast (is_length s * is_encoding s) :: u64) = length vs * k"
    using \<open>length vs * k < 2 ^ 32\<close> by (simp add: unsigned_ucast_eq take_bit_nat_eq_self)
  moreover have "length (is_contents s) = length vs * k"
    using k(4) length_concat_cells [of k "map (enc_le k) vs"] by simp
  ultimately show ?thesis
    using \<open>length vs * k < 2 ^ 32\<close> by (simp add: intsetBlobLen_def unat_word_ariths)
qed

subsection \<open>Properties\<close>

text \<open>
  C1. Every sequence of insertions and removals of 64-bit values, from the empty intset and up to
  the capacity, runs inside the allocated memory, reports for each call whether the set
  changed, and leaves an intset whose members, as \<^verbatim>\<open>intsetFind\<close> sees them, are exactly
  those of the same sequence on mathematical sets.
\<close>

theorem intset_run_refines:
  assumes "length ops \<le> INTSET_CAP" and "\<forall>x \<in> set ops. is_int64 (set_op_arg x)"
  shows "\<exists>s vs bs. set_run (intsetAdd junk) (intsetRemove junk) intsetNew ops = Some (s, bs) \<and>
    intset_rep s vs \<and> set_spec {} ops = (set vs, bs) \<and>
    (\<forall>v. is_int64 v \<longrightarrow> intsetFind s v = Some (v \<in> set vs))"
proof -
  have "\<exists>s vs bs. set_run (intsetAdd junk) (intsetRemove junk) intsetNew ops = Some (s, bs) \<and>
    intset_rep s vs \<and> length vs \<le> length ([] :: int list) + length ops \<and> set_spec (set []) ops = (set vs, bs)"
    by (rule intset.run_refines [OF intset.rep_new]) (use assms in auto)
  then obtain s vs bs where r: "set_run (intsetAdd junk) (intsetRemove junk) intsetNew ops = Some (s, bs)"
    "intset_rep s vs" "length vs \<le> INTSET_CAP" "set_spec {} ops = (set vs, bs)"
    using assms(1) by auto
  moreover have "\<forall>v. is_int64 v \<longrightarrow> intsetFind s v = Some (v \<in> set vs)"
    using intset.rep_find [OF r(2) _ r(3)] by blast
  ultimately show ?thesis by blast
qed

theorem intset_run_refines_witness:
  "\<exists>s vs. set_run (intsetAdd (\<lambda>_. 0)) (intsetRemove (\<lambda>_. 0)) intsetNew
      [SetAdd 5, SetAdd 70000, SetAdd 5, SetDel 5] = Some (s, [True, True, False, True]) \<and>
    intset_rep s vs \<and> set vs = {70000} \<and> intsetFind s 70000 = Some True \<and> intsetFind s 5 = Some False"
proof -
  let ?ops = "[SetAdd 5, SetAdd 70000, SetAdd 5, SetDel 5]"
  have spec: "set_spec {} ?ops = ({70000}, [True, True, False, True])" by auto
  have "length ?ops \<le> INTSET_CAP" "\<forall>x \<in> set ?ops. is_int64 (set_op_arg x)" by (auto simp: INTSET_CAP_def)
  from intset_run_refines [OF this, of "\<lambda>_. 0"] obtain s vs bs where
    "set_run (intsetAdd (\<lambda>_. 0)) (intsetRemove (\<lambda>_. 0)) intsetNew ?ops = Some (s, bs)"
    "intset_rep s vs" "({70000}, [True, True, False, True]) = (set vs, bs)"
    and find: "\<forall>v. is_int64 v \<longrightarrow> intsetFind s v = Some (v \<in> set vs)"
    unfolding spec by (elim exE conjE) (rule that)
  moreover from this have "set vs = {70000}" by simp
  moreover from this find have "intsetFind s 70000 = Some True" "intsetFind s 5 = Some False" by simp_all
  ultimately show ?thesis by (metis prod.inject)
qed

text \<open>
  C2. Inserting an absent value puts it at its place in the sorted array, whether or not the
  encoding has to be widened for it; inserting a member leaves the array as it is.
\<close>

theorem intsetAdd_sorted_insert:
  assumes "intset_rep s vs" and "is_int64 v" and "length vs < INTSET_CAP"
  shows "\<exists>s'. intsetAdd junk s v = Some (s', v \<notin> set vs) \<and>
    intset_rep s' (if v \<in> set vs then vs
                   else takeWhile (\<lambda>x. x < v) vs @ v # dropWhile (\<lambda>x. x < v) vs)"
proof -
  have "set_ins v vs = takeWhile (\<lambda>x. x < v) vs @ v # dropWhile (\<lambda>x. x < v) vs"
    unfolding set_ins_def ins_pos_def
    by (metis dropWhile_eq_drop takeWhile_eq_take)
  moreover have "(length vs + 1) * 8 < 2 ^ 32" using assms(3) by (simp add: INTSET_CAP_def)
  ultimately show ?thesis
    using intsetAdd_rep [OF assms(1,2), of junk] by (cases "v \<in> set vs") simp_all
qed

lemma intset_rep_5_9:
  "intset_rep \<lparr>is_encoding = 2, is_length = 2, is_contents = [5, 0, 9, 0]\<rparr> [5, 9]"
  by code_simp

theorem intsetAdd_sorted_insert_witness:
  "\<exists>s'. intsetAdd (\<lambda>_. 0) \<lparr>is_encoding = 2, is_length = 2, is_contents = [5, 0, 9, 0]\<rparr> 7 = Some (s', True) \<and>
        intset_rep s' [5, 7, 9]"
  using intsetAdd_sorted_insert [OF intset_rep_5_9, of 7 "\<lambda>_. 0"] by (simp add: INTSET_CAP_def)

text \<open>
  C3. The size passed to the allocator is computed in 32 bits. An insertion into a set of
  536870911 eight-byte members asks for a buffer of zero bytes and then writes outside it.
\<close>

theorem intsetAdd_size_wraps:
  assumes rep: "intset_rep s vs" and "is_encoding s = 8" and n: "length vs = 536870911"
    and v: "is_int64 v" and new: "v \<notin> set vs"
  shows "intsetAdd junk s v = None"
proof -
  let ?p = "ins_pos v vs"
  have ul: "unat (is_length s) = 536870911" using rep n by (auto elim!: intset_repD)
  then have l: "is_length s = 536870911" by (metis of_nat_numeral of_nat_unat ucast_id)
  have narrow: "\<not> ucast (priv_intsetValueEncoding v) > is_encoding s"
    using assms(2) valenc_cases [of v] by (auto simp: word_less_nat_alt unat_ucast_u8_u32)
  have srch: "intsetSearch s v = Some (False, of_nat ?p)"
    using intsetSearch_correct [OF rep, of v] n new by simp
  have p: "?p \<le> 536870911" using ins_pos_le [of v vs] n by simp
  have up: "unat (of_nat ?p :: u32) = ?p" using p by (intro unat_of_nat_u32) simp
  have sp: "sint (of_nat ?p :: u32) = int ?p" using up p by (subst sint_u32_small) auto
  have rz: "intsetResize junk s (is_length s + 1) = s\<lparr>is_contents := []\<rparr>"
    using assms(2) l by (simp add: intsetResize_def zrealloc_def)
  have mv: "intsetMoveTail (s\<lparr>is_contents := []\<rparr>) (of_nat ?p) (of_nat ?p + 1) = None"
    if "of_nat ?p < is_length s"
  proof -
    have lt: "?p < 536870911" using that up l by (simp add: word_less_nat_alt)
    have "unat (is_length s - of_nat ?p) = 536870911 - ?p"
      using lt up ul by (subst unat_sub) (auto simp: word_le_nat_alt)
    then have "unat ((is_length s - of_nat ?p) * of_nat 8) = (536870911 - ?p) * 8"
      by (subst unat_u32_mult) auto
    with lt assms(2) show ?thesis
      by (simp add: intsetMoveTail_def memmove_def rd_def enc_width_def Let_def)
  qed
  have "priv_intsetSet (s\<lparr>is_contents := []\<rparr>) (int ?p) v = None"
    using assms(2) by (simp add: priv_intsetSet_def wr_def enc_width_def Let_def)
  with narrow srch rz mv sp show ?thesis
    by (simp add: intsetAdd_def Let_def)
qed

lemma intset_rep_big:
  "intset_rep \<lparr>is_encoding = 8, is_length = 536870911,
     is_contents = concat (map (enc_le 8) (map int [0..<536870911]))\<rparr> (map int [0..<536870911])"
proof -
  have "sorted_wrt (<) (map int [0..<536870911])" by (simp add: sorted_wrt_map)
  moreover have "list_all (fits 8) (map int [0..<536870911])" by (auto simp: list_all_iff fits_def)
  ultimately show ?thesis by (simp add: intset_rep_def)
qed

theorem intsetAdd_size_wraps_witness:
  "intsetAdd (\<lambda>_. 0) \<lparr>is_encoding = 8, is_length = 536870911,
     is_contents = concat (map (enc_le 8) (map int [0..<536870911]))\<rparr> (- 1) = None"
  by (rule intsetAdd_size_wraps [OF intset_rep_big]) auto

end
