(* ===== verification/Dict.thy ===== *)
theory Dict
  imports Prelude
begin

text \<open>
  The hash table of \<^verbatim>\<open>dict.c\<close>: two bucket arrays with chaining, of which the second is used
  while entries move, a bucket at a time, from the first (incremental rehashing).

  A bucket chain (the \<^verbatim>\<open>next\<close> pointers of \<^verbatim>\<open>dictEntry\<close>) is a list, a pointer to an entry is its
  table, bucket and position in the chain. \<open>None\<close> is a failed assertion or an access outside
  a bucket array. \<^verbatim>\<open>dict_can_resize\<close> is an argument of the operations that read it;
  \<^verbatim>\<open>privdata\<close> is only handed to callbacks and is left out, and so are the
  destructors, whose calls release memory and do not touch the table.
\<close>

subsection \<open>Data\<close>

type_synonym ('k, 'v) dictEntry = "'k \<times> 'v"

record ('k, 'v) dictType =
  hashFunction :: "'k \<Rightarrow> u64"
  keyDup :: "('k \<Rightarrow> 'k) option"
  valDup :: "('v \<Rightarrow> 'v) option"
  keyCompare :: "('k \<Rightarrow> 'k \<Rightarrow> bool) option"

record ('k, 'v) dictht =
  ht_table :: "('k, 'v) dictEntry list list"
  ht_size :: nat
  ht_sizemask :: u64
  ht_used :: nat

record ('k, 'v) dict =
  d_type :: "('k, 'v) dictType"
  ht0 :: "('k, 'v) dictht"
  ht1 :: "('k, 'v) dictht"
  rehashidx :: int
  iterators :: nat

type_synonym dictEntryRef = "nat \<times> nat \<times> nat"

abbreviation (input) DICT_HT_INITIAL_SIZE :: nat where "DICT_HT_INITIAL_SIZE \<equiv> 4"
abbreviation (input) dict_force_resize_ratio :: nat where "dict_force_resize_ratio \<equiv> 5"
abbreviation (input) LONG_MAX :: nat where "LONG_MAX \<equiv> 9223372036854775807"

definition dictHashKey :: "('k, 'v) dict \<Rightarrow> 'k \<Rightarrow> u64" where
  "dictHashKey d key = hashFunction (d_type d) key"

definition dictCompareKeys :: "('k, 'v) dict \<Rightarrow> 'k \<Rightarrow> 'k \<Rightarrow> bool" where
  "dictCompareKeys d key1 key2 =
     (case keyCompare (d_type d) of Some f \<Rightarrow> f key1 key2 | None \<Rightarrow> key1 = key2)"

definition dictIsRehashing :: "('k, 'v) dict \<Rightarrow> bool" where
  "dictIsRehashing d \<longleftrightarrow> rehashidx d \<noteq> - 1"

definition dictSize :: "('k, 'v) dict \<Rightarrow> nat" where
  "dictSize d = ht_used (ht0 d) + ht_used (ht1 d)"

definition dupKey :: "('k, 'v) dict \<Rightarrow> 'k \<Rightarrow> 'k" where
  "dupKey d key = (case keyDup (d_type d) of Some f \<Rightarrow> f key | None \<Rightarrow> key)"

definition dupVal :: "('k, 'v) dict \<Rightarrow> 'v \<Rightarrow> 'v" where
  "dupVal d val = (case valDup (d_type d) of Some f \<Rightarrow> f val | None \<Rightarrow> val)"

text \<open>The test \<^verbatim>\<open>key==he->key || dictCompareKeys(d, key, he->key)\<close> of the chain walks.\<close>

definition sameKey :: "('k, 'v) dict \<Rightarrow> 'k \<Rightarrow> 'k \<Rightarrow> bool" where
  "sameKey d key k \<longleftrightarrow> key = k \<or> dictCompareKeys d key k"

definition ht_get :: "('k, 'v) dictht \<Rightarrow> u64 \<Rightarrow> ('k, 'v) dictEntry list option" where
  "ht_get ht idx = (if unat idx < length (ht_table ht) then Some (ht_table ht ! unat idx) else None)"

definition dict_ht :: "('k, 'v) dict \<Rightarrow> nat \<Rightarrow> ('k, 'v) dictht" where
  "dict_ht d t = (if t = 0 then ht0 d else ht1 d)"

definition set_ht :: "('k, 'v) dict \<Rightarrow> nat \<Rightarrow> ('k, 'v) dictht \<Rightarrow> ('k, 'v) dict" where
  "set_ht d t ht = (if t = 0 then d\<lparr>ht0 := ht\<rparr> else d\<lparr>ht1 := ht\<rparr>)"

subsection \<open>Creation and resizing\<close>

definition dictReset :: "('k, 'v) dictht" where
  "dictReset = \<lparr>ht_table = [], ht_size = 0, ht_sizemask = 0, ht_used = 0\<rparr>"

definition dictCreate :: "('k, 'v) dictType \<Rightarrow> ('k, 'v) dict" where
  "dictCreate type =
     \<lparr>d_type = type, ht0 = dictReset, ht1 = dictReset, rehashidx = - 1, iterators = 0\<rparr>"

text \<open>The loop variable after \<open>j\<close> doublings.\<close>

function dictNextPower_loop :: "nat \<Rightarrow> nat \<Rightarrow> nat" where
  "dictNextPower_loop j sz =
     (let i = DICT_HT_INITIAL_SIZE * 2 ^ j in if i \<ge> sz then i else dictNextPower_loop (Suc j) sz)"
  by pat_completeness auto
termination
proof (relation "measure (\<lambda>(j, sz). sz - j)")
  fix j sz :: nat and i
  assume "i = 4 * 2 ^ j" and "\<not> sz \<le> i"
  moreover have "j < 4 * 2 ^ j" by (metis less_exp less_le_trans mult_le_mono1 nat_mult_1 one_le_numeral)
  ultimately show "((Suc j, sz), j, sz) \<in> measure (\<lambda>(j, sz). sz - j)" by simp
qed simp

definition dictNextPower :: "nat \<Rightarrow> nat" where
  "dictNextPower sz = (if sz \<ge> LONG_MAX then LONG_MAX + 1 else dictNextPower_loop 0 sz)"

text \<open>
  The buckets of a new table: the size in bytes is computed with 64 bits and eight bytes hold a bucket, so that
  a request for \<open>2 ^ 61\<close> buckets or more allocates none.
\<close>

definition zcalloc_table :: "nat \<Rightarrow> ('k, 'v) dictEntry list list" where
  "zcalloc_table realsize = replicate (realsize * 8 mod 2 ^ 64 div 8) []"

text \<open>The pointer \<^verbatim>\<open>table\<close> is \<^verbatim>\<open>NULL\<close> in a table that \<^verbatim>\<open>_dictReset\<close> has reset, which is one of size 0; a table of no bytes is not.\<close>

definition dictExpand :: "('k, 'v) dict \<Rightarrow> nat \<Rightarrow> ('k, 'v) dict \<times> bool" where
  "dictExpand d sz =
     (if dictIsRehashing d \<or> ht_used (ht0 d) > sz then (d, False)
      else
        let realsize = dictNextPower sz in
        if realsize = ht_size (ht0 d) then (d, False)
        else
          let n = \<lparr>ht_table = zcalloc_table realsize, ht_size = realsize,
                   ht_sizemask = of_nat realsize - 1, ht_used = 0\<rparr>
          in if ht_size (ht0 d) = 0 then (d\<lparr>ht0 := n\<rparr>, True)
             else (d\<lparr>ht1 := n, rehashidx := 0\<rparr>, True))"

definition dictResize :: "bool \<Rightarrow> ('k, 'v) dict \<Rightarrow> ('k, 'v) dict \<times> bool" where
  "dictResize dict_can_resize d =
     (if \<not> dict_can_resize \<or> dictIsRehashing d then (d, False)
      else
        let minimal = sint (of_nat (ht_used (ht0 d)) :: u32);
            minimal = (if minimal < int DICT_HT_INITIAL_SIZE then int DICT_HT_INITIAL_SIZE else minimal)
        in dictExpand d (nat minimal))"

definition dictExpandIfNeeded :: "bool \<Rightarrow> ('k, 'v) dict \<Rightarrow> ('k, 'v) dict \<times> bool" where
  "dictExpandIfNeeded dict_can_resize d =
     (if dictIsRehashing d then (d, True)
      else if ht_size (ht0 d) = 0 then dictExpand d DICT_HT_INITIAL_SIZE
      else if ht_used (ht0 d) \<ge> ht_size (ht0 d) \<and>
              (dict_can_resize \<or> ht_used (ht0 d) div ht_size (ht0 d) > dict_force_resize_ratio)
      then dictExpand d (ht_used (ht0 d) * 2 mod 2 ^ 64)
      else (d, True))"

subsection \<open>Incremental rehashing\<close>

text \<open>The inner loop over empty buckets; the flag is the early \<^verbatim>\<open>return 1\<close>.\<close>

function skip_empty :: "('k, 'v) dict \<Rightarrow> int \<Rightarrow> (('k, 'v) dict \<times> int \<times> bool) option" where
  "skip_empty d empty_visits =
     (if rehashidx d < 0 \<or> int (length (ht_table (ht0 d))) \<le> rehashidx d then None
      else if ht_table (ht0 d) ! nat (rehashidx d) = [] then
        (let d' = d\<lparr>rehashidx := rehashidx d + 1\<rparr> in
         if empty_visits - 1 = 0 then Some (d', empty_visits - 1, True)
         else skip_empty d' (empty_visits - 1))
      else Some (d, empty_visits, False))"
  by pat_completeness auto
termination
  by (relation "measure (\<lambda>(d, ev). nat (int (length (ht_table (ht0 d))) - rehashidx d))") auto

text \<open>Moving one chain: every entry goes to the head of its bucket in the new table.\<close>

fun rehash_chain :: "('k, 'v) dict \<Rightarrow> ('k, 'v) dictEntry list \<Rightarrow> ('k, 'v) dict option" where
  "rehash_chain d [] = Some d"
| "rehash_chain d (de # nextde) =
     (let h = dictHashKey d (fst de) AND ht_sizemask (ht1 d) in
      do { b \<leftarrow> ht_get (ht1 d) h;
           rehash_chain
             (d\<lparr>ht0 := (ht0 d)\<lparr>ht_used := ht_used (ht0 d) - 1\<rparr>,
                ht1 := (ht1 d)\<lparr>ht_table := (ht_table (ht1 d))[unat h := de # b],
                                ht_used := ht_used (ht1 d) + 1\<rparr>\<rparr>) nextde })"

fun dictRehash_loop :: "('k, 'v) dict \<Rightarrow> nat \<Rightarrow> int \<Rightarrow> (('k, 'v) dict \<times> bool) option" where
  "dictRehash_loop d 0 empty_visits = Some (d, False)"
| "dictRehash_loop d (Suc n) empty_visits =
     (if ht_used (ht0 d) = 0 then Some (d, False)
      else if \<not> int (ht_size (ht0 d)) > rehashidx d then None
      else do {
        (d, empty_visits, ret) \<leftarrow> skip_empty d empty_visits;
        if ret then Some (d, True)
        else do {
          let i = nat (rehashidx d);
          d \<leftarrow> rehash_chain d (ht_table (ht0 d) ! i);
          let d = d\<lparr>ht0 := (ht0 d)\<lparr>ht_table := (ht_table (ht0 d))[i := []]\<rparr>,
                    rehashidx := rehashidx d + 1\<rparr>;
          dictRehash_loop d n empty_visits } })"

text \<open>\<open>None\<close> is also the overflow of the \<^verbatim>\<open>int\<close> product \<^verbatim>\<open>n*10\<close>.\<close>

definition dictRehash :: "('k, 'v) dict \<Rightarrow> nat \<Rightarrow> (('k, 'v) dict \<times> bool) option" where
  "dictRehash d n =
     (if int n * 10 > INT32_MAX then None
      else if \<not> dictIsRehashing d then Some (d, False)
      else do {
        (d, ret) \<leftarrow> dictRehash_loop d n (int n * 10);
        if ret then Some (d, True)
        else if ht_used (ht0 d) = 0
        then Some (d\<lparr>ht0 := ht1 d, ht1 := dictReset, rehashidx := - 1\<rparr>, False)
        else Some (d, True) })"

definition dictRehashStep :: "('k, 'v) dict \<Rightarrow> ('k, 'v) dict option" where
  "dictRehashStep d = (if iterators d = 0 then map_option fst (dictRehash d 1) else Some d)"

subsection \<open>Lookup\<close>

definition chain_find :: "('k, 'v) dict \<Rightarrow> 'k \<Rightarrow> ('k, 'v) dictEntry list \<Rightarrow> ('k, 'v) dictEntry option" where
  "chain_find d key chain = find (\<lambda>he. sameKey d key (fst he)) chain"

definition dictFind :: "('k, 'v) dict \<Rightarrow> 'k \<Rightarrow> (('k, 'v) dict \<times> ('k, 'v) dictEntry option) option" where
  "dictFind d key =
     (if ht_used (ht0 d) + ht_used (ht1 d) = 0 then Some (d, None)
      else do {
        d \<leftarrow> (if dictIsRehashing d then dictRehashStep d else Some d);
        let h = dictHashKey d key;
        b0 \<leftarrow> ht_get (ht0 d) (h AND ht_sizemask (ht0 d));
        case chain_find d key b0 of
          Some he \<Rightarrow> Some (d, Some he)
        | None \<Rightarrow>
            if \<not> dictIsRehashing d then Some (d, None)
            else do {
              b1 \<leftarrow> ht_get (ht1 d) (h AND ht_sizemask (ht1 d));
              Some (d, chain_find d key b1) } })"

definition dictFetchValue :: "('k, 'v) dict \<Rightarrow> 'k \<Rightarrow> (('k, 'v) dict \<times> 'v option) option" where
  "dictFetchValue d key = map_option (\<lambda>(d, he). (d, map_option snd he)) (dictFind d key)"

subsection \<open>Insertion\<close>

text \<open>The position of the first entry of a chain with the key.\<close>

fun chain_index :: "('k, 'v) dict \<Rightarrow> 'k \<Rightarrow> ('k, 'v) dictEntry list \<Rightarrow> nat option" where
  "chain_index d key [] = None"
| "chain_index d key (he # rest) =
     (if sameKey d key (fst he) then Some 0 else map_option Suc (chain_index d key rest))"

text \<open>The index is \<open>- 1\<close> when the key exists; the last component is \<^verbatim>\<open>*existing\<close>.\<close>

definition dictKeyIndex ::
  "bool \<Rightarrow> ('k, 'v) dict \<Rightarrow> 'k \<Rightarrow> u64 \<Rightarrow> (('k, 'v) dict \<times> int \<times> dictEntryRef option) option" where
  "dictKeyIndex dict_can_resize d key hash =
     (case dictExpandIfNeeded dict_can_resize d of
        (d, False) \<Rightarrow> Some (d, - 1, None)
      | (d, True) \<Rightarrow> do {
          let idx0 = hash AND ht_sizemask (ht0 d);
          b0 \<leftarrow> ht_get (ht0 d) idx0;
          case chain_index d key b0 of
            Some p \<Rightarrow> Some (d, - 1, Some (0, unat idx0, p))
          | None \<Rightarrow>
              if \<not> dictIsRehashing d then Some (d, int (unat idx0), None)
              else do {
                let idx1 = hash AND ht_sizemask (ht1 d);
                b1 \<leftarrow> ht_get (ht1 d) idx1;
                case chain_index d key b1 of
                  Some p \<Rightarrow> Some (d, - 1, Some (1, unat idx1, p))
                | None \<Rightarrow> Some (d, int (unat idx1), None) } })"

text \<open>
  \<^verbatim>\<open>dictAddRaw\<close> leaves the value of the new entry indeterminate: the parameter \<open>uninit\<close>.
  \<open>Inl\<close> refers to the new entry, \<open>Inr\<close> is the \<^verbatim>\<open>NULL\<close> result with \<^verbatim>\<open>*existing\<close>.
\<close>

definition dictAddRaw ::
  "bool \<Rightarrow> 'v \<Rightarrow> ('k, 'v) dict \<Rightarrow> 'k \<Rightarrow>
     (('k, 'v) dict \<times> (dictEntryRef + dictEntryRef option)) option" where
  "dictAddRaw dict_can_resize uninit d key =
     do {
       d \<leftarrow> (if dictIsRehashing d then dictRehashStep d else Some d);
       (d, index, existing) \<leftarrow> dictKeyIndex dict_can_resize d key (dictHashKey d key);
       if index = - 1 then Some (d, Inr existing)
       else do {
         let t = (if dictIsRehashing d then 1 else 0);
         let ht = dict_ht d t;
         b \<leftarrow> ht_get ht (word_of_int index);
         let ht = ht\<lparr>ht_table := (ht_table ht)[nat index := (dupKey d key, uninit) # b],
                     ht_used := ht_used ht + 1\<rparr>;
         Some (set_ht d t ht, Inl (t, nat index, 0)) } }"

definition dictSetVal :: "('k, 'v) dict \<Rightarrow> dictEntryRef \<Rightarrow> 'v \<Rightarrow> ('k, 'v) dict option" where
  "dictSetVal d ref val =
     (case ref of (t, i, p) \<Rightarrow>
        let ht = dict_ht d t in
        if i < length (ht_table ht) \<and> p < length (ht_table ht ! i)
        then Some (set_ht d t (ht\<lparr>ht_table := (ht_table ht)
               [i := (ht_table ht ! i)[p := (fst (ht_table ht ! i ! p), dupVal d val)]]\<rparr>))
        else None)"

definition dictAdd :: "bool \<Rightarrow> 'v \<Rightarrow> ('k, 'v) dict \<Rightarrow> 'k \<Rightarrow> 'v \<Rightarrow> (('k, 'v) dict \<times> bool) option" where
  "dictAdd dict_can_resize uninit d key val =
     do {
       (d, r) \<leftarrow> dictAddRaw dict_can_resize uninit d key;
       case r of
         Inr _ \<Rightarrow> Some (d, False)
       | Inl entry \<Rightarrow> do { d \<leftarrow> dictSetVal d entry val; Some (d, True) } }"

definition dictReplace :: "bool \<Rightarrow> 'v \<Rightarrow> ('k, 'v) dict \<Rightarrow> 'k \<Rightarrow> 'v \<Rightarrow> (('k, 'v) dict \<times> bool) option" where
  "dictReplace dict_can_resize uninit d key val =
     do {
       (d, r) \<leftarrow> dictAddRaw dict_can_resize uninit d key;
       case r of
         Inl entry \<Rightarrow> do { d \<leftarrow> dictSetVal d entry val; Some (d, True) }
       | Inr (Some existing) \<Rightarrow> do { d \<leftarrow> dictSetVal d existing val; Some (d, False) }
       | Inr None \<Rightarrow> None }"

definition dictAddOrFind ::
  "bool \<Rightarrow> 'v \<Rightarrow> ('k, 'v) dict \<Rightarrow> 'k \<Rightarrow> (('k, 'v) dict \<times> dictEntryRef option) option" where
  "dictAddOrFind dict_can_resize uninit d key =
     do {
       (d, r) \<leftarrow> dictAddRaw dict_can_resize uninit d key;
       Some (d, case r of Inl entry \<Rightarrow> Some entry | Inr existing \<Rightarrow> existing) }"

subsection \<open>Deletion\<close>

fun chain_unlink ::
  "('k, 'v) dict \<Rightarrow> 'k \<Rightarrow> ('k, 'v) dictEntry list \<Rightarrow>
     (('k, 'v) dictEntry \<times> ('k, 'v) dictEntry list) option" where
  "chain_unlink d key [] = None"
| "chain_unlink d key (he # rest) =
     (if sameKey d key (fst he) then Some (he, rest)
      else map_option (\<lambda>(x, rest'). (x, he # rest')) (chain_unlink d key rest))"

text \<open>The result is the unlinked entry; whether it is also freed does not change the table.\<close>

definition dictGenericDelete ::
  "('k, 'v) dict \<Rightarrow> 'k \<Rightarrow> (('k, 'v) dict \<times> ('k, 'v) dictEntry option) option" where
  "dictGenericDelete d key =
     (if ht_used (ht0 d) = 0 \<and> ht_used (ht1 d) = 0 then Some (d, None)
      else do {
        d \<leftarrow> (if dictIsRehashing d then dictRehashStep d else Some d);
        let h = dictHashKey d key;
        let idx0 = h AND ht_sizemask (ht0 d);
        b0 \<leftarrow> ht_get (ht0 d) idx0;
        case chain_unlink d key b0 of
          Some (he, b0') \<Rightarrow>
            Some (d\<lparr>ht0 := (ht0 d)\<lparr>ht_table := (ht_table (ht0 d))[unat idx0 := b0'],
                                     ht_used := ht_used (ht0 d) - 1\<rparr>\<rparr>, Some he)
        | None \<Rightarrow>
            if \<not> dictIsRehashing d then Some (d, None)
            else do {
              let idx1 = h AND ht_sizemask (ht1 d);
              b1 \<leftarrow> ht_get (ht1 d) idx1;
              case chain_unlink d key b1 of
                Some (he, b1') \<Rightarrow>
                  Some (d\<lparr>ht1 := (ht1 d)\<lparr>ht_table := (ht_table (ht1 d))[unat idx1 := b1'],
                                           ht_used := ht_used (ht1 d) - 1\<rparr>\<rparr>, Some he)
              | None \<Rightarrow> Some (d, None) } })"

definition dictDelete :: "('k, 'v) dict \<Rightarrow> 'k \<Rightarrow> (('k, 'v) dict \<times> bool) option" where
  "dictDelete d key = map_option (\<lambda>(d, he). (d, he \<noteq> None)) (dictGenericDelete d key)"

definition dictUnlink ::
  "('k, 'v) dict \<Rightarrow> 'k \<Rightarrow> (('k, 'v) dict \<times> ('k, 'v) dictEntry option) option" where
  "dictUnlink d key = dictGenericDelete d key"

text \<open>
  \<^verbatim>\<open>_dictClear\<close> walks the buckets while entries remain, frees every entry and resets the table;
  the freed entries are the second component.
\<close>

fun dictClear_loop :: "('k, 'v) dictEntry list list \<Rightarrow> nat \<Rightarrow> ('k, 'v) dictEntry list" where
  "dictClear_loop [] used = []"
| "dictClear_loop (chain # rest) used =
     (if used > 0 then chain @ dictClear_loop rest (used - length chain) else [])"

definition dictClear :: "('k, 'v) dictht \<Rightarrow> ('k, 'v) dictht \<times> ('k, 'v) dictEntry list" where
  "dictClear ht = (dictReset, dictClear_loop (ht_table ht) (ht_used ht))"

definition dictEmpty :: "('k, 'v) dict \<Rightarrow> ('k, 'v) dict \<times> ('k, 'v) dictEntry list" where
  "dictEmpty d =
     (let (h0, freed0) = dictClear (ht0 d); (h1, freed1) = dictClear (ht1 d)
      in (d\<lparr>ht0 := h0, ht1 := h1, rehashidx := - 1, iterators := 0\<rparr>, freed0 @ freed1))"

definition dictRelease :: "('k, 'v) dict \<Rightarrow> ('k, 'v) dictEntry list" where
  "dictRelease d = snd (dictClear (ht0 d)) @ snd (dictClear (ht1 d))"

subsection \<open>Invariant\<close>

definition tsame :: "('k, 'v) dictType \<Rightarrow> 'k \<Rightarrow> 'k \<Rightarrow> bool" where
  "tsame t a b \<longleftrightarrow> a = b \<or> (case keyCompare t of Some f \<Rightarrow> f a b | None \<Rightarrow> a = b)"

text \<open>
  What the table relies on of the callbacks in a \<^verbatim>\<open>dictType\<close>: the comparison is an equivalence, the
  hash respects it, and a duplicated key compares equal to the original.
\<close>

definition type_ok :: "('k, 'v) dictType \<Rightarrow> bool" where
  "type_ok t \<longleftrightarrow>
     (\<forall>a b. tsame t a b \<longrightarrow> tsame t b a) \<and> (\<forall>a b c. tsame t a b \<longrightarrow> tsame t b c \<longrightarrow> tsame t a c) \<and>
     (\<forall>a b. tsame t a b \<longrightarrow> hashFunction t a = hashFunction t b) \<and>
     (\<forall>k. tsame t k (case keyDup t of Some f \<Rightarrow> f k | None \<Rightarrow> k))"

definition ht_entries :: "('k, 'v) dictht \<Rightarrow> ('k, 'v) dictEntry list" where
  "ht_entries ht = concat (ht_table ht)"

definition entries :: "('k, 'v) dict \<Rightarrow> ('k, 'v) dictEntry list" where
  "entries d = ht_entries (ht0 d) @ ht_entries (ht1 d)"

text \<open>A table of \<open>2 ^ m\<close> buckets whose entries are where their hash says.\<close>

definition ht_ok :: "('k, 'v) dictType \<Rightarrow> nat \<Rightarrow> ('k, 'v) dictht \<Rightarrow> bool" where
  "ht_ok t m ht \<longleftrightarrow>
     2 \<le> m \<and> m < 64 \<and> ht_size ht = 2 ^ m \<and> ht_sizemask ht = mask m \<and>
     length (ht_table ht) = 2 ^ m \<and> ht_used ht = length (ht_entries ht) \<and>
     (\<forall>i < 2 ^ m. \<forall>e \<in> set (ht_table ht ! i). unat (hashFunction t (fst e) AND mask m) = i)"

text \<open>At most one entry per key.\<close>

definition unique_keys :: "('k, 'v) dictType \<Rightarrow> ('k, 'v) dictEntry list \<Rightarrow> bool" where
  "unique_keys t es \<longleftrightarrow> (\<forall>k. length (filter (\<lambda>e. tsame t k (fst e)) es) \<le> 1)"

definition rehash_ok :: "('k, 'v) dict \<Rightarrow> bool" where
  "rehash_ok d \<longleftrightarrow>
     (if dictIsRehashing d
      then (\<exists>m0 m1. ht_ok (d_type d) m0 (ht0 d) \<and> ht_ok (d_type d) m1 (ht1 d) \<and>
              0 \<le> rehashidx d \<and> rehashidx d \<le> 2 ^ m0 \<and>
              (\<forall>i < nat (rehashidx d). ht_table (ht0 d) ! i = []))
      else (ht0 d = dictReset \<or> (\<exists>m. ht_ok (d_type d) m (ht0 d))) \<and> ht1 d = dictReset)"

definition dict_ok :: "('k, 'v) dict \<Rightarrow> bool" where
  "dict_ok d \<longleftrightarrow> type_ok (d_type d) \<and> rehash_ok d \<and> unique_keys (d_type d) (entries d)"

text \<open>The finite map that a dictionary stands for.\<close>

definition dict_lookup :: "('k, 'v) dict \<Rightarrow> 'k \<Rightarrow> 'v option" where
  "dict_lookup d k = map_option snd (find (\<lambda>e. sameKey d k (fst e)) (entries d))"

lemma sameKey_tsame: "sameKey d = tsame (d_type d)"
  by (auto simp: sameKey_def tsame_def dictCompareKeys_def fun_eq_iff)

lemma tsame_refl [simp]: "tsame t k k"
  by (simp add: tsame_def)

lemma type_okD:
  assumes "type_ok t"
  shows "tsame t a b \<Longrightarrow> tsame t b a" and "tsame t a b \<Longrightarrow> tsame t b c \<Longrightarrow> tsame t a c"
    and "tsame t a b \<Longrightarrow> hashFunction t a = hashFunction t b"
    and "tsame t k (case keyDup t of Some f \<Rightarrow> f k | None \<Rightarrow> k)"
  using assms unfolding type_ok_def by blast+

lemma ht_okD:
  assumes "ht_ok t m ht"
  shows "2 \<le> m" "m < 64" "ht_size ht = 2 ^ m" "ht_sizemask ht = mask m" "length (ht_table ht) = 2 ^ m"
    "ht_used ht = length (ht_entries ht)"
    "i < 2 ^ m \<Longrightarrow> e \<in> set (ht_table ht ! i) \<Longrightarrow> unat (hashFunction t (fst e) AND mask m) = i"
  using assms by (auto simp: ht_ok_def)

lemma ht_get_ok:
  assumes "ht_ok t m ht"
  shows "ht_get ht (h AND ht_sizemask ht) = Some (ht_table ht ! unat (h AND mask m))"
  using ht_okD [OF assms] by (simp add: ht_get_def unat_and_mask_less)

lemma ht_find:
  assumes "ht_ok t m ht" and "type_ok t"
  shows "find (\<lambda>e. tsame t k (fst e)) (ht_entries ht)
       = find (\<lambda>e. tsame t k (fst e)) (ht_table ht ! unat (hashFunction t k AND mask m))"
  unfolding ht_entries_def
proof (rule find_concat_at)
  show "unat (hashFunction t k AND mask m) < length (ht_table ht)"
    using ht_okD [OF assms(1)] by (simp add: unat_and_mask_less)
  fix j e
  assume j: "j < length (ht_table ht)" "j \<noteq> unat (hashFunction t k AND mask m)" "e \<in> set (ht_table ht ! j)"
  show "\<not> tsame t k (fst e)"
  proof
    assume "tsame t k (fst e)"
    then have "hashFunction t k = hashFunction t (fst e)" by (rule type_okD(3) [OF assms(2)])
    with j ht_okD(5,7) [OF assms(1)] show False by auto
  qed
qed

lemma ht_ok_reset [simp]: "ht_entries dictReset = []" "ht_used dictReset = 0"
  by (simp_all add: ht_entries_def dictReset_def)

lemma ht_ok_not_reset: "ht_ok t m ht \<Longrightarrow> ht_table ht \<noteq> []" "ht_ok t m ht \<Longrightarrow> ht_size ht \<noteq> 0"
  by (auto simp: ht_ok_def)

lemma dict_ok_cases [consumes 1]:
  assumes "dict_ok d"
  obtains
    (empty) "\<not> dictIsRehashing d" "ht0 d = dictReset" "ht1 d = dictReset"
  | (single) m where "\<not> dictIsRehashing d" "ht_ok (d_type d) m (ht0 d)" "ht1 d = dictReset"
  | (rehashing) m0 m1 where "dictIsRehashing d" "ht_ok (d_type d) m0 (ht0 d)" "ht_ok (d_type d) m1 (ht1 d)"
      "0 \<le> rehashidx d" "rehashidx d \<le> 2 ^ m0" "\<forall>i < nat (rehashidx d). ht_table (ht0 d) ! i = []"
proof (cases "dictIsRehashing d")
  case True
  with assms obtain m0 m1 where "ht_ok (d_type d) m0 (ht0 d)" "ht_ok (d_type d) m1 (ht1 d)"
    "0 \<le> rehashidx d" "rehashidx d \<le> 2 ^ m0" "\<forall>i < nat (rehashidx d). ht_table (ht0 d) ! i = []"
    unfolding dict_ok_def rehash_ok_def if_P [OF True] by (elim exE conjE) (rule that)
  with True show thesis by (rule rehashing)
next
  case False
  with assms have "ht0 d = dictReset \<or> (\<exists>m. ht_ok (d_type d) m (ht0 d))" "ht1 d = dictReset"
    by (simp_all add: dict_ok_def rehash_ok_def)
  with False empty single show thesis by metis
qed

lemma dictSize_entries: "dict_ok d \<Longrightarrow> dictSize d = length (entries d)"
  by (erule dict_ok_cases) (auto simp: dictSize_def entries_def ht_okD(6))

lemma unique_keys_mset: "mset es = mset es' \<Longrightarrow> unique_keys t es = unique_keys t es'"
  unfolding unique_keys_def by (metis length_filter_mset)

lemma dict_lookup_iff:
  assumes "dict_ok d"
  shows "dict_lookup d k = Some v \<longleftrightarrow> (\<exists>k'. (k', v) \<in> set (entries d) \<and> tsame (d_type d) k k')"
proof -
  have "find (\<lambda>e. tsame (d_type d) k (fst e)) (entries d) = Some e \<longleftrightarrow>
        e \<in> set (entries d) \<and> tsame (d_type d) k (fst e)" for e
    using assms by (intro find_unique) (simp add: dict_ok_def unique_keys_def)
  then show ?thesis by (auto simp: dict_lookup_def sameKey_tsame)
qed

lemma dict_lookup_mset:
  assumes "dict_ok d" and "dict_ok d'" and "d_type d' = d_type d" and "mset (entries d') = mset (entries d)"
  shows "dict_lookup d' = dict_lookup d"
proof
  fix k
  have "set (entries d') = set (entries d)" using assms(4) by (metis set_mset_mset)
  then have "dict_lookup d' k = Some v \<longleftrightarrow> dict_lookup d k = Some v" for v
    using assms(1-3) by (simp add: dict_lookup_iff)
  then show "dict_lookup d' k = dict_lookup d k" by (metis not_None_eq)
qed

end
