(* ===== verification/Dict_Rehash.thy ===== *)
theory Dict_Rehash
  imports Dict
begin

text \<open>
  Resizing and incremental rehashing keep the dictionary invariant and the multiset of entries, so
  that they are invisible to lookups.
\<close>

subsection \<open>Sizes\<close>

declare dictNextPower_loop.simps [simp del] skip_empty.simps [simp del]

lemma dictNextPower_loop_least:
  "\<exists>j'. j \<le> j' \<and> dictNextPower_loop j n = 4 * 2 ^ j' \<and> n \<le> 4 * 2 ^ j' \<and> (j' = j \<or> 4 * 2 ^ (j' - 1) < n)"
proof (induction j n rule: dictNextPower_loop.induct)
  case (1 j n)
  show ?case
  proof (cases "4 * 2 ^ j \<ge> n")
    case True
    then show ?thesis by (subst dictNextPower_loop.simps) auto
  next
    case False
    with 1 obtain j' where j': "Suc j \<le> j'" "dictNextPower_loop (Suc j) n = 4 * 2 ^ j'" "n \<le> 4 * 2 ^ j'"
      "j' = Suc j \<or> 4 * 2 ^ (j' - 1) < n" by auto
    moreover have "dictNextPower_loop j n = dictNextPower_loop (Suc j) n"
      using False by (subst dictNextPower_loop.simps) simp
    ultimately show ?thesis using False by (intro exI [of _ j']) auto
  qed
qed

lemma dictNextPower_pow2:
  obtains m where "dictNextPower n = 2 ^ m" and "2 \<le> m" and "m < 64" and "n < LONG_MAX \<Longrightarrow> n \<le> 2 ^ m"
proof (cases "n \<ge> LONG_MAX")
  case True
  then show thesis by (intro that [of 63]) (auto simp: dictNextPower_def)
next
  case False
  obtain j where j: "dictNextPower_loop 0 n = 4 * 2 ^ j" "n \<le> 4 * 2 ^ j" "j = 0 \<or> 4 * 2 ^ (j - 1) < n"
    using dictNextPower_loop_least [of 0 n] by auto
  have "j + 2 < 64"
  proof (cases "j = 0")
    case nz: False
    then have "(2 :: nat) ^ (j + 1) < 2 ^ 63"
      using j(3) False by (cases j) (auto simp: power_add)
    then have "j + 1 < 63" by (rule power_less_imp_less_exp [rotated]) simp
    then show ?thesis by simp
  qed simp
  then show thesis using j False
    by (intro that [of "j + 2"]) (auto simp: dictNextPower_def power_add)
qed

lemma dictNextPower_small: "n \<le> 2 ^ 60 \<Longrightarrow> dictNextPower n \<le> 2 ^ 60"
proof -
  assume n: "n \<le> 2 ^ 60"
  obtain j where j: "dictNextPower_loop 0 n = 4 * 2 ^ j" "j = 0 \<or> 4 * 2 ^ (j - 1) < n" using dictNextPower_loop_least [of 0 n] by auto
  have "j + 2 \<le> 60"
  proof (cases j)
    case (Suc i)
    then have "(2 :: nat) ^ (i + 2) < 2 ^ 60" using j(2) n by (simp add: power_add)
    then have "i + 2 < 60" by (rule power_less_imp_less_exp [rotated]) simp
    then show ?thesis using Suc by simp
  qed simp
  then have "(2 :: nat) ^ (j + 2) \<le> 2 ^ 60" by (intro power_increasing) simp_all
  then show ?thesis using j(1) n by (simp add: dictNextPower_def power_add)
qed

lemma dictNextPower_large: "2 ^ 60 < n \<Longrightarrow> \<exists>m. dictNextPower n = 2 ^ m \<and> 61 \<le> m"
proof -
  assume n: "2 ^ 60 < n"
  obtain m where m: "dictNextPower n = 2 ^ m" "n < LONG_MAX \<Longrightarrow> n \<le> 2 ^ m" by (rule dictNextPower_pow2) blast
  show ?thesis
  proof (cases "n < LONG_MAX")
    case True
    then have "(2 :: nat) ^ 60 < 2 ^ m" using n m(2) by simp
    then have "60 < m" by (rule power_less_imp_less_exp [rotated]) simp
    then show ?thesis using m(1) by auto
  next
    case False
    then have "dictNextPower n = 2 ^ 63" by (simp add: dictNextPower_def)
    then show ?thesis by (intro exI [of _ 63]) simp
  qed
qed

lemma zcalloc_table_small: "n \<le> 2 ^ 60 \<Longrightarrow> zcalloc_table n = replicate n []"
  by (simp add: zcalloc_table_def)

lemma of_nat_pow2_mask: "m < 64 \<Longrightarrow> (of_nat (2 ^ m) :: u64) - 1 = mask m"
  by (simp add: mask_eq_exp_minus_1)

lemma new_table_ok:
  assumes "n = 2 ^ m" and "2 \<le> m" and "m < 64"
  shows "ht_ok t m \<lparr>ht_table = replicate n [], ht_size = n, ht_sizemask = of_nat n - 1, ht_used = 0\<rparr>"
  using assms of_nat_pow2_mask [of m] by (auto simp: ht_ok_def ht_entries_def)

lemma ht_entries_new [simp]:
  "ht_entries \<lparr>ht_table = replicate n [], ht_size = n, ht_sizemask = w, ht_used = 0\<rparr> = []"
  by (simp add: ht_entries_def)

subsection \<open>Expansion\<close>

lemma dictExpand_ok:
  assumes ok: "dict_ok d" and "dictExpand d n = (d', b)" and n: "n \<le> 2 ^ 60"
  shows "dict_ok d'" and "d_type d' = d_type d" and "iterators d' = iterators d"
    and "entries d' = entries d"
proof -
  obtain m where m: "dictNextPower n = 2 ^ m" "2 \<le> m" "m < 64" by (rule dictNextPower_pow2)
  let ?n = "\<lparr>ht_table = replicate (2 ^ m) [], ht_size = 2 ^ m, ht_sizemask = of_nat (2 ^ m) - 1, ht_used = 0\<rparr>"
  have new: "ht_ok t m ?n" for t by (rule new_table_ok [OF refl m(2,3)])
  have cases: "d' = d \<or>
    (\<not> dictIsRehashing d \<and> ht_size (ht0 d) = 0 \<and> d' = d\<lparr>ht0 := ?n\<rparr>) \<or>
    (\<not> dictIsRehashing d \<and> ht_size (ht0 d) \<noteq> 0 \<and> d' = d\<lparr>ht1 := ?n, rehashidx := 0\<rparr>)"
    using assms(2) m(1) dictNextPower_small [OF n] by (auto simp: dictExpand_def zcalloc_table_small Let_def split: if_splits)
  then have "dict_ok d' \<and> d_type d' = d_type d \<and> iterators d' = iterators d \<and> entries d' = entries d"
  proof (elim disjE conjE)
    assume d': "\<not> dictIsRehashing d" "ht_size (ht0 d) = 0" "d' = d\<lparr>ht0 := ?n\<rparr>"
    with ok have "ht0 d = dictReset" "ht1 d = dictReset"
      by (auto elim!: dict_ok_cases dest: ht_ok_not_reset)
    with d' ok new show ?thesis
      by (auto simp: dict_ok_def rehash_ok_def dictIsRehashing_def entries_def)
  next
    assume d': "\<not> dictIsRehashing d" "ht_size (ht0 d) \<noteq> 0" "d' = d\<lparr>ht1 := ?n, rehashidx := 0\<rparr>"
    with ok obtain m0 where "ht_ok (d_type d) m0 (ht0 d)" "ht1 d = dictReset"
      by (auto elim!: dict_ok_cases simp: dictReset_def)
    with d' new [of "d_type d"] have "rehash_ok d'" unfolding rehash_ok_def dictIsRehashing_def by auto
    with d' ok \<open>ht1 d = dictReset\<close> show ?thesis by (simp add: dict_ok_def entries_def)
  qed (use ok in simp)
  then show "dict_ok d'" "d_type d' = d_type d" "iterators d' = iterators d" "entries d' = entries d"
    by auto
qed

lemma dictExpandIfNeeded_ok:
  assumes ok: "dict_ok d" and small: "dictSize d < 2 ^ 59"
    and r: "dictExpandIfNeeded can_resize d = (d', b)"
  shows "b" and "dict_ok d'" and "d_type d' = d_type d" and "iterators d' = iterators d"
    and "entries d' = entries d" and "ht_table (ht0 d') \<noteq> []"
proof -
  have two: "ht_used (ht0 d) * 2 mod 2 ^ 64 = ht_used (ht0 d) * 2" "ht_used (ht0 d) * 2 \<le> 2 ^ 60"
    using small by (simp_all add: dictSize_def)
  have "dict_ok d' \<and> d_type d' = d_type d \<and> iterators d' = iterators d \<and> entries d' = entries d"
  proof -
    consider "d' = d" | n where "dictExpand d n = (d', b)" "n \<le> 2 ^ 60"
      using r two(2) that(2) [of 4] unfolding dictExpandIfNeeded_def two(1) by (auto split: if_splits)
    then show ?thesis using ok dictExpand_ok [OF ok] by cases simp_all
  qed
  then show ok': "dict_ok d'" and "d_type d' = d_type d" "iterators d' = iterators d" "entries d' = entries d"
    by auto
  show b
    using ok
  proof (cases rule: dict_ok_cases)
    case empty
    have "dictNextPower 4 = 4" by (simp add: dictNextPower_def dictNextPower_loop.simps)
    with empty r show ?thesis
      by (simp add: dictExpandIfNeeded_def dictExpand_def dictReset_def Let_def split: if_splits)
  next
    case (single m)
    obtain k where k: "dictNextPower (ht_used (ht0 d) * 2) = 2 ^ k"
      "ht_used (ht0 d) * 2 < LONG_MAX \<Longrightarrow> ht_used (ht0 d) * 2 \<le> 2 ^ k"
      by (rule dictNextPower_pow2 [of "ht_used (ht0 d) * 2"]) blast
    have "ht_used (ht0 d) * 2 \<le> 2 ^ k" using small k(2) by (simp add: dictSize_def)
    moreover have "ht_size (ht0 d) > 0" using ht_okD(3) [OF single(2)] by simp
    ultimately show ?thesis using single r [unfolded dictExpandIfNeeded_def two(1)] k(1) ht_ok_not_reset [OF single(2)]
      by (auto simp: dictExpand_def Let_def split: if_splits)
  next
    case rehashing
    with r show ?thesis by (simp add: dictExpandIfNeeded_def)
  qed
  show "ht_table (ht0 d') \<noteq> []"
    using ok'
  proof (cases rule: dict_ok_cases)
    case empty
    show ?thesis
    proof
      assume e: "ht_table (ht0 d') = []"
      show False
        using ok
      proof (cases rule: dict_ok_cases)
        case empty
        have "dictNextPower 4 = 4" by (simp add: dictNextPower_def dictNextPower_loop.simps)
        with empty r e show False
          by (auto simp: dictExpandIfNeeded_def dictExpand_def dictReset_def zcalloc_table_def Let_def split: if_splits)
      next
        case (single m)
        with r e ht_ok_not_reset [OF single(2)] show False
          by (auto simp: dictExpandIfNeeded_def dictExpand_def Let_def split: if_splits)
      next
        case rehashing
        with r e ht_ok_not_reset(1) show False by (fastforce simp: dictExpandIfNeeded_def)
      qed
    qed
  qed (auto dest: ht_ok_not_reset)
qed

subsection \<open>Moving entries\<close>

lemma ht_ok_insert:
  assumes ok: "ht_ok t m ht" and i: "i = unat (hashFunction t (fst e) AND mask m)"
  shows "ht_ok t m (ht\<lparr>ht_table := (ht_table ht)[i := e # ht_table ht ! i], ht_used := ht_used ht + 1\<rparr>)"
    and "mset (ht_entries (ht\<lparr>ht_table := (ht_table ht)[i := e # ht_table ht ! i], ht_used := n\<rparr>))
       = add_mset e (mset (ht_entries ht))"
proof -
  note h = ht_okD [OF ok]
  have il: "i < length (ht_table ht)" using h(2,5) i by (simp add: unat_and_mask_less)
  have "mset (concat ((ht_table ht)[i := e # ht_table ht ! i])) + mset (ht_table ht ! i)
      = mset (concat (ht_table ht)) + mset (e # ht_table ht ! i)"
    using il by (rule mset_concat_update)
  then have ms: "mset (concat ((ht_table ht)[i := e # ht_table ht ! i])) = add_mset e (mset (concat (ht_table ht)))"
    by simp
  then show "mset (ht_entries (ht\<lparr>ht_table := (ht_table ht)[i := e # ht_table ht ! i], ht_used := n\<rparr>))
       = add_mset e (mset (ht_entries ht))"
    by (simp add: ht_entries_def)
  from ms have "length (concat ((ht_table ht)[i := e # ht_table ht ! i])) = Suc (length (concat (ht_table ht)))"
    by (metis size_add_mset size_mset)
  with h il i show "ht_ok t m (ht\<lparr>ht_table := (ht_table ht)[i := e # ht_table ht ! i], ht_used := ht_used ht + 1\<rparr>)"
    by (auto simp: ht_ok_def ht_entries_def nth_list_update)
qed

lemma ht_ok_remove_bucket:
  assumes ok: "ht_ok t m ht" and i: "i < 2 ^ m" and sub: "mset b' + mset r = mset (ht_table ht ! i)"
    and u: "u = ht_used ht - length r"
  shows "ht_ok t m (ht\<lparr>ht_table := (ht_table ht)[i := b'], ht_used := u\<rparr>)"
    and "mset (ht_entries (ht\<lparr>ht_table := (ht_table ht)[i := b'], ht_used := u\<rparr>)) + mset r
       = mset (ht_entries ht)"
proof -
  note h = ht_okD [OF ok]
  have il: "i < length (ht_table ht)" using h(5) i by simp
  have eq: "mset (concat ((ht_table ht)[i := b'])) + mset r = mset (concat (ht_table ht))"
  proof -
    have "mset (concat ((ht_table ht)[i := b'])) + (mset b' + mset r) = mset (concat (ht_table ht)) + mset b'"
      using mset_concat_update [OF il, of b'] sub by simp
    then have "(mset (concat ((ht_table ht)[i := b'])) + mset r) + mset b' = mset (concat (ht_table ht)) + mset b'"
      by (simp only: ac_simps)
    then show ?thesis by (simp only: add_right_cancel)
  qed
  then show "mset (ht_entries (ht\<lparr>ht_table := (ht_table ht)[i := b'], ht_used := u\<rparr>)) + mset r
       = mset (ht_entries ht)"
    by (simp add: ht_entries_def)
  have len: "length (concat ((ht_table ht)[i := b'])) + length r = length (concat (ht_table ht))"
    using arg_cong [OF eq, of size] by simp
  have "set b' \<subseteq> set (ht_table ht ! i)"
    using arg_cong [OF sub, of set_mset] by auto
  with h il len u show "ht_ok t m (ht\<lparr>ht_table := (ht_table ht)[i := b'], ht_used := u\<rparr>)"
    by (auto simp: ht_ok_def ht_entries_def nth_list_update)
qed

lemma rehash_chain_ok:
  "ht_ok (d_type d) m1 (ht1 d) \<Longrightarrow>
    \<exists>h1. rehash_chain d es = Some (d\<lparr>ht0 := (ht0 d)\<lparr>ht_used := ht_used (ht0 d) - length es\<rparr>, ht1 := h1\<rparr>) \<and>
         ht_ok (d_type d) m1 h1 \<and> mset (ht_entries h1) = mset es + mset (ht_entries (ht1 d))"
proof (induction es arbitrary: d)
  case Nil
  then show ?case by (intro exI [of _ "ht1 d"]) simp
next
  case (Cons e es)
  let ?i = "unat (hashFunction (d_type d) (fst e) AND mask m1)"
  let ?h = "(ht1 d)\<lparr>ht_table := (ht_table (ht1 d))[?i := e # ht_table (ht1 d) ! ?i],
                     ht_used := ht_used (ht1 d) + 1\<rparr>"
  let ?d = "d\<lparr>ht0 := (ht0 d)\<lparr>ht_used := ht_used (ht0 d) - 1\<rparr>, ht1 := ?h\<rparr>"
  have h: "ht_ok (d_type d) m1 ?h" "mset (ht_entries ?h) = add_mset e (mset (ht_entries (ht1 d)))"
    by (rule ht_ok_insert [OF Cons.prems refl])+
  obtain h1 where "rehash_chain ?d es = Some (?d\<lparr>ht0 := (ht0 ?d)\<lparr>ht_used := ht_used (ht0 ?d) - length es\<rparr>, ht1 := h1\<rparr>)"
    "ht_ok (d_type d) m1 h1" "mset (ht_entries h1) = mset es + mset (ht_entries ?h)"
    using Cons.IH [of ?d] h(1) by auto
  with h(2) ht_get_ok [OF Cons.prems] ht_okD(4) [OF Cons.prems] show ?case
    by (intro exI [of _ h1]) (simp add: dictHashKey_def Let_def)
qed

lemma skip_empty_ok:
  assumes "ht_ok (d_type d) m (ht0 d)" and "0 \<le> rehashidx d" and "\<forall>i < nat (rehashidx d). ht_table (ht0 d) ! i = []"
    and "\<exists>i < 2 ^ m. ht_table (ht0 d) ! i \<noteq> []" and "ev > 0"
  shows "\<exists>r ev' ret. skip_empty d ev = Some (d\<lparr>rehashidx := r\<rparr>, ev', ret) \<and> 0 \<le> r \<and> r < 2 ^ m \<and>
    (\<forall>i < nat r. ht_table (ht0 d) ! i = []) \<and> (\<not> ret \<longrightarrow> ev' > 0) \<and>
    rehashidx d \<le> r \<and> (ret \<longrightarrow> rehashidx d < r)"
  using assms
proof (induction d ev rule: skip_empty.induct)
  case (1 d ev)
  have len: "length (ht_table (ht0 d)) = 2 ^ m" using ht_okD(5) [OF "1.prems"(1)] .
  obtain i where i: "i < 2 ^ m" "ht_table (ht0 d) ! i \<noteq> []" using "1.prems"(4) by blast
  then have im: "int i < 2 ^ m" by simp
  have "nat (rehashidx d) \<le> i" using "1.prems"(3) i(2) not_less by blast
  then have "rehashidx d < 2 ^ m" using im by linarith
  then have inb: "\<not> (rehashidx d < 0 \<or> int (length (ht_table (ht0 d))) \<le> rehashidx d)"
    using "1.prems"(2) len by simp
  show ?case
  proof (cases "ht_table (ht0 d) ! nat (rehashidx d) = []")
    case False
    have "skip_empty d ev = Some (d\<lparr>rehashidx := rehashidx d\<rparr>, ev, False)"
      using inb False by (subst skip_empty.simps) simp
    then show ?thesis using "1.prems"(2,3,5) \<open>rehashidx d < 2 ^ m\<close> by blast
  next
    case True
    let ?d = "d\<lparr>rehashidx := rehashidx d + 1\<rparr>"
    have below: "\<forall>j < nat (rehashidx d + 1). ht_table (ht0 d) ! j = []"
    proof (intro allI impI)
      fix j assume "j < nat (rehashidx d + 1)"
      then have "j = nat (rehashidx d) \<or> j < nat (rehashidx d)" using "1.prems"(2) by linarith
      with True "1.prems"(3) show "ht_table (ht0 d) ! j = []" by auto
    qed
    then have "nat (rehashidx d + 1) \<le> i" using i(2) not_less by blast
    then have lt: "rehashidx d + 1 < 2 ^ m" using im by linarith
    show ?thesis
    proof (cases "ev - 1 = 0")
      case e: True
      have "skip_empty d ev = Some (?d, ev - 1, True)"
        using inb True e by (subst skip_empty.simps) (simp add: Let_def)
      moreover have "0 \<le> rehashidx d + 1" "rehashidx d < rehashidx d + 1" using "1.prems"(2) by simp_all
      ultimately show ?thesis using lt below by (metis less_imp_le)
    next
      case e: False
      have "skip_empty d ev = skip_empty ?d (ev - 1)"
        using inb True e by (subst skip_empty.simps) (simp add: Let_def)
      moreover have "\<exists>r ev' ret. skip_empty ?d (ev - 1) = Some (?d\<lparr>rehashidx := r\<rparr>, ev', ret) \<and> 0 \<le> r \<and> r < 2 ^ m \<and>
          (\<forall>i < nat r. ht_table (ht0 ?d) ! i = []) \<and> (\<not> ret \<longrightarrow> ev' > 0) \<and>
          rehashidx ?d \<le> r \<and> (ret \<longrightarrow> rehashidx ?d < r)"
        using "1.prems" below e by (intro "1.IH" [OF inb True refl e]) auto
      then obtain r ev' ret where "skip_empty ?d (ev - 1) = Some (?d\<lparr>rehashidx := r\<rparr>, ev', ret)" "0 \<le> r"
        "r < 2 ^ m" "\<forall>i < nat r. ht_table (ht0 ?d) ! i = []" "\<not> ret \<longrightarrow> ev' > 0" "rehashidx ?d \<le> r"
        "ret \<longrightarrow> rehashidx ?d < r"
        by (elim exE conjE) (rule that)
      ultimately show ?thesis by (intro exI [of _ r] exI [of _ ev'] exI [of _ ret]) simp
    qed
  qed
qed

lemma ht_used_nonempty:
  assumes "ht_ok t m ht" and "ht_used ht \<noteq> 0"
  shows "\<exists>i < 2 ^ m. ht_table ht ! i \<noteq> []"
  using assms ht_okD(5,6) [OF assms(1)] by (auto simp: ht_entries_def in_set_conv_nth)

lemma clear_bucket_ok:
  assumes "ht_ok t m ht" and "i < 2 ^ m"
  shows "ht_ok t m (ht\<lparr>ht_table := (ht_table ht)[i := []], ht_used := ht_used ht - length (ht_table ht ! i)\<rparr>)"
    and "mset (ht_entries (ht\<lparr>ht_table := (ht_table ht)[i := []],
            ht_used := ht_used ht - length (ht_table ht ! i)\<rparr>)) + mset (ht_table ht ! i) = mset (ht_entries ht)"
  using ht_ok_remove_bucket [OF assms, of "[]" "ht_table ht ! i"] by simp_all

lemma dict_upd_order:
  "d\<lparr>ht1 := b, ht0 := a\<rparr> = d\<lparr>ht0 := a, ht1 := b\<rparr>"
  "d\<lparr>rehashidx := r, ht0 := a\<rparr> = d\<lparr>ht0 := a, rehashidx := r\<rparr>"
  "d\<lparr>rehashidx := r, ht1 := a\<rparr> = d\<lparr>ht1 := a, rehashidx := r\<rparr>"
  "h\<lparr>ht_used := u, ht_table := x\<rparr> = h\<lparr>ht_table := x, ht_used := u\<rparr>"
  by simp_all

lemma dictRehash_loop_ok:
  assumes "ht_ok (d_type d) m0 (ht0 d)" and "ht_ok (d_type d) m1 (ht1 d)"
    and "0 \<le> rehashidx d" and "rehashidx d \<le> 2 ^ m0" and "\<forall>i < nat (rehashidx d). ht_table (ht0 d) ! i = []"
    and "n > 0 \<longrightarrow> ev > 0"
  shows "\<exists>h0 h1 r ret. dictRehash_loop d n ev = Some (d\<lparr>ht0 := h0, ht1 := h1, rehashidx := r\<rparr>, ret) \<and>
    ht_ok (d_type d) m0 h0 \<and> ht_ok (d_type d) m1 h1 \<and> rehashidx d \<le> r \<and> r \<le> 2 ^ m0 \<and>
    (\<forall>i < nat r. ht_table h0 ! i = []) \<and>
    mset (ht_entries h0) + mset (ht_entries h1) = mset (ht_entries (ht0 d)) + mset (ht_entries (ht1 d)) \<and>
    (n > 0 \<and> ht_used (ht0 d) \<noteq> 0 \<longrightarrow> rehashidx d < r)"
  using assms
proof (induction n arbitrary: d ev)
  case 0
  then show ?case by (intro exI [of _ "ht0 d"] exI [of _ "ht1 d"] exI [of _ "rehashidx d"] exI [of _ False]) simp
next
  case (Suc n)
  show ?case
  proof (cases "ht_used (ht0 d) = 0")
    case True
    with Suc.prems show ?thesis
      by (intro exI [of _ "ht0 d"] exI [of _ "ht1 d"] exI [of _ "rehashidx d"] exI [of _ False]) simp
  next
    case False
    note ne = ht_used_nonempty [OF Suc.prems(1) False]
    have ev: "ev > 0" using Suc.prems(6) by simp
    obtain r ev' ret where sk: "skip_empty d ev = Some (d\<lparr>rehashidx := r\<rparr>, ev', ret)" "0 \<le> r" "r < 2 ^ m0"
      "\<forall>i < nat r. ht_table (ht0 d) ! i = []" "\<not> ret \<longrightarrow> ev' > 0" "rehashidx d \<le> r" "ret \<longrightarrow> rehashidx d < r"
      using skip_empty_ok [OF Suc.prems(1,3,5) ne ev] by (elim exE conjE) (rule that)
    have sz: "int (ht_size (ht0 d)) > rehashidx d" using sk(3,6) ht_okD(3) [OF Suc.prems(1)] by simp
    show ?thesis
    proof (cases ret)
      case True
      with sk sz False Suc.prems show ?thesis
        by (intro exI [of _ "ht0 d"] exI [of _ "ht1 d"] exI [of _ r] exI [of _ True]) simp
    next
      case nret: False
      let ?i = "nat r" and ?d1 = "d\<lparr>rehashidx := r\<rparr>"
      let ?c = "ht_table (ht0 d) ! ?i"
      have ri: "?i < 2 ^ m0" using sk(2,3) by (simp add: nat_less_iff)
      obtain h1 where h1: "rehash_chain ?d1 ?c =
          Some (?d1\<lparr>ht0 := (ht0 d)\<lparr>ht_used := ht_used (ht0 d) - length ?c\<rparr>, ht1 := h1\<rparr>)"
        "ht_ok (d_type d) m1 h1" "mset (ht_entries h1) = mset ?c + mset (ht_entries (ht1 d))"
        using rehash_chain_ok [of ?d1 m1 ?c] Suc.prems(2) by auto
      let ?h0 = "(ht0 d)\<lparr>ht_table := (ht_table (ht0 d))[?i := []], ht_used := ht_used (ht0 d) - length ?c\<rparr>"
      note h0 = clear_bucket_ok [OF Suc.prems(1) ri]
      let ?d2 = "d\<lparr>ht0 := ?h0, ht1 := h1, rehashidx := r + 1\<rparr>"
      have unf: "dictRehash_loop d (Suc n) ev = dictRehash_loop ?d2 n ev'"
        using False sz sk(1) nret h1(1) by (simp add: Let_def dict_upd_order)
      have below: "\<forall>i < nat (r + 1). ht_table ?h0 ! i = []"
        using sk(2,4) ri ht_okD(5) [OF Suc.prems(1)] by (auto simp: nth_list_update)
      have "\<exists>g0 g1 r' ret'. dictRehash_loop ?d2 n ev' = Some (?d2\<lparr>ht0 := g0, ht1 := g1, rehashidx := r'\<rparr>, ret') \<and>
        ht_ok (d_type ?d2) m0 g0 \<and> ht_ok (d_type ?d2) m1 g1 \<and> rehashidx ?d2 \<le> r' \<and> r' \<le> 2 ^ m0 \<and>
        (\<forall>i < nat r'. ht_table g0 ! i = []) \<and>
        mset (ht_entries g0) + mset (ht_entries g1) = mset (ht_entries (ht0 ?d2)) + mset (ht_entries (ht1 ?d2)) \<and>
        (n > 0 \<and> ht_used (ht0 ?d2) \<noteq> 0 \<longrightarrow> rehashidx ?d2 < r')"
        using h0(1) h1(2) sk(2,3,5) below nret by (intro Suc.IH) auto
      then obtain g0 g1 r' ret' where g:
        "dictRehash_loop ?d2 n ev' = Some (?d2\<lparr>ht0 := g0, ht1 := g1, rehashidx := r'\<rparr>, ret')"
        "ht_ok (d_type d) m0 g0" "ht_ok (d_type d) m1 g1" "r + 1 \<le> r'" "r' \<le> 2 ^ m0"
        "\<forall>i < nat r'. ht_table g0 ! i = []"
        "mset (ht_entries g0) + mset (ht_entries g1) = mset (ht_entries ?h0) + mset (ht_entries h1)"
        by auto
      have "mset (ht_entries g0) + mset (ht_entries g1) = mset (ht_entries (ht0 d)) + mset (ht_entries (ht1 d))"
        using g(7) h0(2) h1(3) by (simp add: add.assoc [symmetric])
      with g unf sk(6) show ?thesis
        by (intro exI [of _ g0] exI [of _ g1] exI [of _ r'] exI [of _ ret']) simp
    qed
  qed
qed

text \<open>Two dictionaries with the same entries, in whatever table and order.\<close>

definition same_contents :: "('k, 'v) dict \<Rightarrow> ('k, 'v) dict \<Rightarrow> bool" where
  "same_contents d d' \<longleftrightarrow>
     d_type d' = d_type d \<and> iterators d' = iterators d \<and> mset (entries d') = mset (entries d)"

lemma same_contentsD:
  assumes "same_contents d d'"
  shows "d_type d' = d_type d" "iterators d' = iterators d" "mset (entries d') = mset (entries d)"
  using assms by (simp_all add: same_contents_def)

lemma same_contents_refl [simp]: "same_contents d d"
  by (simp add: same_contents_def)

lemma same_contents_lookup:
  "dict_ok d \<Longrightarrow> dict_ok d' \<Longrightarrow> same_contents d d' \<Longrightarrow> dict_lookup d' = dict_lookup d"
  using dict_lookup_mset same_contentsD by blast

lemma same_contents_size:
  "dict_ok d \<Longrightarrow> dict_ok d' \<Longrightarrow> same_contents d d' \<Longrightarrow> dictSize d' = dictSize d"
  by (simp add: dictSize_entries) (metis same_contentsD(3) size_mset)

lemma dict_ok_same_contents:
  assumes "dict_ok d" and "same_contents d d'" and "rehash_ok d'"
  shows "dict_ok d'"
  using assms unique_keys_mset [of "entries d'" "entries d" "d_type d"]
  by (simp add: dict_ok_def same_contents_def)

text \<open>How many buckets are left to move, plus one; zero when no rehashing is going on.\<close>

definition rehash_left :: "('k, 'v) dict \<Rightarrow> nat" where
  "rehash_left d = (if dictIsRehashing d then nat (int (ht_size (ht0 d)) - rehashidx d) + 1 else 0)"

lemma dictRehash_ok:
  assumes ok: "dict_ok d" and n: "int n * 10 \<le> INT32_MAX"
  shows "\<exists>d' more. dictRehash d n = Some (d', more) \<and> dict_ok d' \<and> same_contents d d' \<and>
    (more = dictIsRehashing d') \<and> (dictIsRehashing d \<and> n > 0 \<longrightarrow> rehash_left d' < rehash_left d)"
  using ok
proof (cases rule: dict_ok_cases)
  case (rehashing m0 m1)
  have ev: "n > 0 \<longrightarrow> int n * 10 > 0" by simp
  obtain h0 h1 r ret where l: "dictRehash_loop d n (int n * 10) = Some (d\<lparr>ht0 := h0, ht1 := h1, rehashidx := r\<rparr>, ret)"
    "ht_ok (d_type d) m0 h0" "ht_ok (d_type d) m1 h1" "rehashidx d \<le> r" "r \<le> 2 ^ m0"
    "\<forall>i < nat r. ht_table h0 ! i = []"
    "mset (ht_entries h0) + mset (ht_entries h1) = mset (ht_entries (ht0 d)) + mset (ht_entries (ht1 d))"
    "n > 0 \<and> ht_used (ht0 d) \<noteq> 0 \<longrightarrow> rehashidx d < r"
    using dictRehash_loop_ok [OF rehashing(2-6) ev] by (elim exE conjE) (rule that)
  let ?d1 = "d\<lparr>ht0 := h0, ht1 := h1, rehashidx := r\<rparr>"
    and ?d2 = "d\<lparr>ht0 := h1, ht1 := dictReset, rehashidx := - 1\<rparr>"
  have s1: "same_contents d ?d1" using l(7) by (simp add: same_contents_def entries_def)
  have ok1: "dict_ok ?d1"
    using l(2-6) rehashing(4) by (intro dict_ok_same_contents [OF ok s1]) (auto simp: rehash_ok_def dictIsRehashing_def)
  have idx: "r \<noteq> - 1" using l(4) rehashing(4) by linarith
  have unf: "dictRehash d n =
      (if ret then Some (?d1, True) else if ht_used h0 = 0 then Some (?d2, False) else Some (?d1, True))"
    using rehashing(1) l(1) n by (simp add: dictRehash_def dict_upd_order)
  show ?thesis
  proof (cases "\<not> ret \<and> ht_used h0 = 0")
    case True
    then have "ht_entries h0 = []" using ht_okD(6) [OF l(2)] by simp
    then have s2: "same_contents d ?d2" using l(7) by (simp add: same_contents_def entries_def)
    have "dict_ok ?d2"
      using l(3) by (intro dict_ok_same_contents [OF ok s2]) (auto simp: rehash_ok_def dictIsRehashing_def)
    then show ?thesis using unf True s2 rehashing(1) by (simp add: dictIsRehashing_def rehash_left_def)
  next
    case False
    have prog: "n > 0 \<Longrightarrow> rehashidx d < r"
    proof -
      assume n: "n > 0"
      show "rehashidx d < r"
      proof (cases "ht_used (ht0 d) = 0")
        case True
        then have "dictRehash_loop d n (int n * 10) = Some (d, False)" using n by (cases n) simp_all
        with l(1) True False show ?thesis by (metis dict.ext_inject dict.surjective dict.update_convs(2-4) option.inject prod.inject)
      qed (use l(8) n in simp)
    qed
    have "ht_size h0 = 2 ^ m0" "ht_size (ht0 d) = 2 ^ m0" using ht_okD(3) l(2) rehashing(2) by blast+
    then have "n > 0 \<longrightarrow> rehash_left ?d1 < rehash_left d"
      using prog l(5) rehashing(1,5) by (auto simp: rehash_left_def)
    then show ?thesis using unf False s1 ok1 idx by (auto simp: dictIsRehashing_def)
  qed
qed (use ok n in \<open>auto simp: dictRehash_def dictIsRehashing_def\<close>)

lemma dictRehashStep_ok:
  assumes "dict_ok d"
  shows "\<exists>d'. dictRehashStep d = Some d' \<and> dict_ok d' \<and> same_contents d d'"
  using dictRehash_ok [OF assms, of 1] assms unfolding dictRehashStep_def by (cases "iterators d = 0") auto

end
