(* ===== verification/Dict_Ops.thy ===== *)
theory Dict_Ops
  imports Dict_Rehash
begin

text \<open>
  The operations of \<^verbatim>\<open>dict.c\<close> on the finite map that a dictionary stands for: lookup,
  insertion, replacement, deletion and clearing, at every stage of an incremental rehash.
\<close>

subsection \<open>How the map changes with the entries\<close>

text \<open>A map updated at every key that compares equal to \<open>k\<close>.\<close>

definition map_upd :: "('k, 'v) dictType \<Rightarrow> 'k \<Rightarrow> 'v option \<Rightarrow> ('k \<Rightarrow> 'v option) \<Rightarrow> 'k \<Rightarrow> 'v option" where
  "map_upd t k v f = (\<lambda>k'. if tsame t k k' then v else f k')"

lemma map_upd_same:
  assumes "type_ok t" and "tsame t k k0"
  shows "map_upd t k v f = map_upd t k0 v f"
  using type_okD(1,2) [OF assms(1)] assms(2) unfolding map_upd_def fun_eq_iff by metis

lemma map_upd_twice [simp]: "map_upd t k v (map_upd t k w f) = map_upd t k v f"
  by (auto simp: map_upd_def)

lemma map_upd_at [simp]: "map_upd t k v f k = v"
  by (simp add: map_upd_def)

lemma unique_keys_size:
  "unique_keys t es \<longleftrightarrow> (\<forall>k. size (filter_mset (\<lambda>e. tsame t k (fst e)) (mset es)) \<le> 1)"
  unfolding unique_keys_def by (metis mset_filter size_mset)

lemma lookup_None_iff:
  assumes "dict_ok d"
  shows "dict_lookup d k = None \<longleftrightarrow> (\<forall>e \<in> set (entries d). \<not> tsame (d_type d) k (fst e))"
  by (auto simp: dict_lookup_def find_None_iff sameKey_tsame)

lemma lookup_cong:
  assumes ok: "dict_ok d" and same: "tsame (d_type d) k k'"
  shows "dict_lookup d k = dict_lookup d k'"
proof -
  have t: "type_ok (d_type d)" using ok by (simp add: dict_ok_def)
  have "tsame (d_type d) k x \<longleftrightarrow> tsame (d_type d) k' x" for x
    using same type_okD(1,2) [OF t] by blast
  then show ?thesis by (simp add: dict_lookup_def sameKey_tsame)
qed

lemma unique_keys_add:
  assumes t: "type_ok t" and u: "unique_keys t es" and no: "\<forall>e \<in> set es. \<not> tsame t k (fst e)" and k0: "tsame t k k0"
    and m: "mset es' = add_mset (k0, v) (mset es)"
  shows "unique_keys t es'"
  unfolding unique_keys_size
proof
  fix a
  show "size (filter_mset (\<lambda>e. tsame t a (fst e)) (mset es')) \<le> 1"
  proof (cases "tsame t a k0")
    case True
    have ka: "tsame t k a" using True k0 type_okD(1,2) [OF t] by blast
    have "\<not> tsame t a (fst e)" if "e \<in> set es" for e
      using no that type_okD(2) [OF t ka] by blast
    then have "filter_mset (\<lambda>e. tsame t a (fst e)) (mset es) = {#}" by (auto)
    then show ?thesis using m True by (auto simp del: filter_mset_eq_mempty_iff)
  next
    case False
    then show ?thesis using m u by (simp add: unique_keys_size)
  qed
qed

lemma lookup_add:
  assumes ok: "dict_ok d" "dict_ok d'" and t: "d_type d' = d_type d" and no: "dict_lookup d k = None"
    and k0: "tsame (d_type d) k k0" and m: "mset (entries d') = add_mset (k0, v) (mset (entries d))"
  shows "dict_lookup d' = map_upd (d_type d) k (Some v) (dict_lookup d)"
  unfolding map_upd_def
proof
  fix k'
  have tk: "type_ok (d_type d)" using ok by (simp add: dict_ok_def)
  have s: "set (entries d') = insert (k0, v) (set (entries d))" using arg_cong [OF m, of set_mset] by simp
  show "dict_lookup d' k' = (if tsame (d_type d) k k' then Some v else dict_lookup d k')"
  proof (cases "tsame (d_type d) k k'")
    case True
    then have "tsame (d_type d) k' k0" using k0 type_okD(1,2) [OF tk] by blast
    then have "dict_lookup d' k' = Some v" using s t by (auto simp: dict_lookup_iff [OF ok(2)])
    then show ?thesis using True by simp
  next
    case False
    then have "\<not> tsame (d_type d) k' k0" using k0 type_okD(1,2) [OF tk] by blast
    then have "dict_lookup d' k' = Some x \<longleftrightarrow> dict_lookup d k' = Some x" for x
      using s t by (auto simp: dict_lookup_iff [OF ok(1)] dict_lookup_iff [OF ok(2)])
    then show ?thesis using False by (metis not_None_eq)
  qed
qed

lemma unique_keys_remove: "unique_keys t es \<Longrightarrow> mset es' + r = mset es \<Longrightarrow> unique_keys t es'"
  unfolding unique_keys_size by (metis add_leD1 filter_union_mset size_union)

lemma lookup_remove:
  assumes ok: "dict_ok d" "dict_ok d'" and t: "d_type d' = d_type d" and k0: "tsame (d_type d) k k0"
    and m: "add_mset (k0, v) (mset (entries d')) = mset (entries d)"
  shows "dict_lookup d' = map_upd (d_type d) k None (dict_lookup d)"
  unfolding map_upd_def
proof
  fix k'
  have tk: "type_ok (d_type d)" using ok by (simp add: dict_ok_def)
  have s: "set (entries d) = insert (k0, v) (set (entries d'))" using arg_cong [OF m, of set_mset] by simp
  show "dict_lookup d' k' = (if tsame (d_type d) k k' then None else dict_lookup d k')"
  proof (cases "tsame (d_type d) k k'")
    case True
    have k0': "tsame (d_type d) k' k0" using True k0 type_okD(1,2) [OF tk] by blast
    have "size (filter_mset (\<lambda>e. tsame (d_type d) k' (fst e)) (mset (entries d))) \<le> 1"
      using ok(1) by (simp add: dict_ok_def unique_keys_size)
    then have "filter_mset (\<lambda>e. tsame (d_type d) k' (fst e)) (mset (entries d')) = {#}"
      using k0' by (simp add: m [symmetric])
    then show ?thesis using True by (auto simp: lookup_None_iff [OF ok(2)] t)
  next
    case False
    then have "\<not> tsame (d_type d) k' k0" using k0 type_okD(1,2) [OF tk] by blast
    then have "dict_lookup d' k' = Some x \<longleftrightarrow> dict_lookup d k' = Some x" for x
      using s t by (auto simp: dict_lookup_iff [OF ok(1)] dict_lookup_iff [OF ok(2)])
    then show ?thesis using False by (metis not_None_eq)
  qed
qed

subsection \<open>The bucket of a key\<close>

lemma maybe_step_ok:
  assumes "dict_ok d"
  shows "\<exists>d'. (if dictIsRehashing d then dictRehashStep d else Some d) = Some d' \<and> dict_ok d' \<and> same_contents d d'"
  using dictRehashStep_ok [OF assms] assms by simp

lemma find_entries:
  assumes ok: "dict_ok d" and ne: "ht_table (ht0 d) \<noteq> []"
  shows "\<exists>b0. ht_get (ht0 d) (dictHashKey d k AND ht_sizemask (ht0 d)) = Some b0 \<and>
    (if dictIsRehashing d
     then \<exists>b1. ht_get (ht1 d) (dictHashKey d k AND ht_sizemask (ht1 d)) = Some b1 \<and>
            find (\<lambda>e. tsame (d_type d) k (fst e)) (entries d) =
            (case chain_find d k b0 of Some e \<Rightarrow> Some e | None \<Rightarrow> chain_find d k b1)
     else find (\<lambda>e. tsame (d_type d) k (fst e)) (entries d) = chain_find d k b0)"
proof -
  have t: "type_ok (d_type d)" using ok by (simp add: dict_ok_def)
  show ?thesis
    using ok
  proof (cases rule: dict_ok_cases)
    case empty
    with ne show ?thesis by (simp add: dictReset_def)
  next
    case (single m)
    then show ?thesis
      by (simp add: ht_get_ok [OF single(2)] ht_find [OF single(2) t] entries_def chain_find_def sameKey_tsame dictHashKey_def)
  next
    case (rehashing m0 m1)
    then show ?thesis
      by (simp add: ht_get_ok [OF rehashing(2)] ht_find [OF rehashing(2) t] ht_get_ok [OF rehashing(3)]
        ht_find [OF rehashing(3) t] entries_def chain_find_def sameKey_tsame dictHashKey_def find_append split: option.split)
  qed
qed

lemma nonempty_table:
  assumes "dict_ok d" and "entries d \<noteq> []"
  shows "ht_table (ht0 d) \<noteq> []"
  using assms by (cases rule: dict_ok_cases) (auto simp: entries_def ht_ok_not_reset)

lemma dictFind_ok:
  assumes ok: "dict_ok d"
  shows "\<exists>d' he. dictFind d k = Some (d', he) \<and> dict_ok d' \<and> same_contents d d' \<and>
    he = find (\<lambda>e. tsame (d_type d) k (fst e)) (entries d') \<and> map_option snd he = dict_lookup d k"
proof (cases "entries d = []")
  case True
  then have "ht_used (ht0 d) + ht_used (ht1 d) = 0" using dictSize_entries [OF ok] by (simp add: dictSize_def)
  then show ?thesis using ok True by (simp add: dictFind_def dict_lookup_def)
next
  case False
  then have u: "ht_used (ht0 d) + ht_used (ht1 d) \<noteq> 0" using dictSize_entries [OF ok] by (simp add: dictSize_def)
  obtain d1 where d1: "(if dictIsRehashing d then dictRehashStep d else Some d) = Some d1" "dict_ok d1" "same_contents d d1"
    using maybe_step_ok [OF ok] by blast
  have "entries d1 \<noteq> []" using False same_contentsD(3) [OF d1(3)] by auto
  note ne = nonempty_table [OF d1(2) this]
  let ?f = "find (\<lambda>e. tsame (d_type d) k (fst e)) (entries d1)"
  have "dictFind d k = Some (d1, ?f)"
    using find_entries [OF d1(2) ne, of k] d1(1) u same_contentsD(1) [OF d1(3)]
    by (auto simp: dictFind_def Let_def split: option.splits if_splits)
  moreover have "map_option snd ?f = dict_lookup d k"
    using same_contents_lookup [OF ok d1(2,3)] same_contentsD(1) [OF d1(3)]
    by (simp add: dict_lookup_def sameKey_tsame fun_eq_iff)
  ultimately show ?thesis using d1(2,3) by simp
qed

subsection \<open>Insertion\<close>

definition valid_ref :: "('k, 'v) dict \<Rightarrow> dictEntryRef \<Rightarrow> bool" where
  "valid_ref d ref = (case ref of (t, i, p) \<Rightarrow>
     i < length (ht_table (dict_ht d t)) \<and> p < length (ht_table (dict_ht d t) ! i))"

definition entry_at :: "('k, 'v) dict \<Rightarrow> dictEntryRef \<Rightarrow> ('k, 'v) dictEntry" where
  "entry_at d ref = (case ref of (t, i, p) \<Rightarrow> ht_table (dict_ht d t) ! i ! p)"

lemma chain_index_find:
  "(case chain_index d k b of
      None \<Rightarrow> chain_find d k b = None
    | Some p \<Rightarrow> p < length b \<and> chain_find d k b = Some (b ! p) \<and> tsame (d_type d) k (fst (b ! p)))"
  by (induction b) (auto simp: chain_find_def sameKey_tsame split: option.splits)

lemma ht_get_SomeD: "ht_get ht w = Some b \<Longrightarrow> unat w < length (ht_table ht) \<and> b = ht_table ht ! unat w"
  by (simp add: ht_get_def split: if_splits)

lemma dict_lookup_find: "dict_lookup d k = map_option snd (find (\<lambda>e. tsame (d_type d) k (fst e)) (entries d))"
  by (simp add: dict_lookup_def sameKey_tsame)

text \<open>The table that receives new entries.\<close>

definition target_ht :: "('k, 'v) dict \<Rightarrow> ('k, 'v) dictht" where
  "target_ht d = (if dictIsRehashing d then ht1 d else ht0 d)"

lemma dictKeyIndex_ok:
  assumes ok: "dict_ok d" and small: "dictSize d < 2 ^ 59" and h: "h = dictHashKey d k"
  shows "\<exists>d' idx ex. dictKeyIndex cr d k h = Some (d', idx, ex) \<and> dict_ok d' \<and> same_contents d d' \<and>
    ht_table (ht0 d') \<noteq> [] \<and>
    (if dict_lookup d k = None then idx = int (unat (h AND ht_sizemask (target_ht d'))) \<and> ex = None
     else idx = - 1 \<and> (\<exists>ref. ex = Some ref \<and> valid_ref d' ref \<and> tsame (d_type d) k (fst (entry_at d' ref))))"
proof -
  obtain d1 b where e: "dictExpandIfNeeded cr d = (d1, b)" by fastforce
  note x = dictExpandIfNeeded_ok [OF ok small e]
  have s: "same_contents d d1" using x by (simp add: same_contents_def)
  have h1: "h = dictHashKey d1 k" using h x(3) by (simp add: dictHashKey_def)
  have lk: "dict_lookup d1 k = dict_lookup d k" using same_contents_lookup [OF ok x(2) s] by simp
  obtain b0 where b0: "ht_get (ht0 d1) (h AND ht_sizemask (ht0 d1)) = Some b0"
    and f: "if dictIsRehashing d1
     then \<exists>b1. ht_get (ht1 d1) (h AND ht_sizemask (ht1 d1)) = Some b1 \<and>
            find (\<lambda>e. tsame (d_type d1) k (fst e)) (entries d1) =
            (case chain_find d1 k b0 of Some e \<Rightarrow> Some e | None \<Rightarrow> chain_find d1 k b1)
     else find (\<lambda>e. tsame (d_type d1) k (fst e)) (entries d1) = chain_find d1 k b0"
    using find_entries [OF x(2,6), of k] h1 by auto
  note g0 = ht_get_SomeD [OF b0]
  show ?thesis
  proof (cases "chain_index d1 k b0")
    case (Some p)
    then have c: "p < length b0" "chain_find d1 k b0 = Some (b0 ! p)" "tsame (d_type d1) k (fst (b0 ! p))"
      using chain_index_find [of d1 k b0] by simp_all
    then have "dict_lookup d1 k \<noteq> None" using f by (auto simp: dict_lookup_find split: if_splits)
    then show ?thesis using Some c b0 g0 e x s lk
      by (simp add: dictKeyIndex_def valid_ref_def entry_at_def dict_ht_def)
  next
    case None
    then have c0: "chain_find d1 k b0 = None" using chain_index_find [of d1 k b0] by simp
    show ?thesis
    proof (cases "dictIsRehashing d1")
      case False
      then have "dict_lookup d1 k = None" using f c0 by (simp add: dict_lookup_find)
      then show ?thesis using None False b0 e x s lk by (simp add: dictKeyIndex_def target_ht_def)
    next
      case True
      then obtain b1 where b1: "ht_get (ht1 d1) (h AND ht_sizemask (ht1 d1)) = Some b1"
        and f1: "dict_lookup d1 k = map_option snd (chain_find d1 k b1)"
        using f c0 by (auto simp: dict_lookup_find)
      show ?thesis
        using None True b0 b1 ht_get_SomeD [OF b1] e x s lk f1 chain_index_find [of d1 k b1]
        by (cases "chain_index d1 k b1")
          (auto simp: dictKeyIndex_def target_ht_def valid_ref_def entry_at_def dict_ht_def simp flip: lk)
    qed
  qed
qed

lemma target_ok:
  assumes "dict_ok d" and "ht_table (ht0 d) \<noteq> []"
  obtains m where "ht_ok (d_type d) m (target_ht d)"
  using assms by (cases rule: dict_ok_cases) (auto simp: target_ht_def dictReset_def)

text \<open>Linking a new entry at the head of its bucket in the target table.\<close>

lemma insert_target_ok:
  assumes ok: "dict_ok d" and ne: "ht_table (ht0 d) \<noteq> []" and no: "dict_lookup d k = None"
    and k0: "tsame (d_type d) k k0" and i: "i = unat (dictHashKey d k AND ht_sizemask (target_ht d))"
    and t: "t = (if dictIsRehashing d then 1 else 0)"
    and d': "d' = set_ht d t ((target_ht d)\<lparr>ht_table := (ht_table (target_ht d))[i := (k0, v) # ht_table (target_ht d) ! i],
                     ht_used := ht_used (target_ht d) + 1\<rparr>)"
  shows "dict_ok d'" and "d_type d' = d_type d" and "iterators d' = iterators d"
    and "mset (entries d') = add_mset (k0, v) (mset (entries d))"
    and "valid_ref d' (t, i, 0)" and "entry_at d' (t, i, 0) = (k0, v)"
proof -
  have tk: "type_ok (d_type d)" using ok by (simp add: dict_ok_def)
  obtain m where m: "ht_ok (d_type d) m (target_ht d)" using target_ok [OF ok ne] .
  have h: "hashFunction (d_type d) k0 = hashFunction (d_type d) k" using type_okD(3) [OF tk k0] by simp
  have i': "i = unat (hashFunction (d_type d) (fst (k0, v)) AND mask m)"
    using i h ht_okD(4) [OF m] by (simp add: dictHashKey_def)
  note ins = ht_ok_insert [OF m i']
  have il: "i < length (ht_table (target_ht d))" using i' ht_okD(2,5) [OF m] by (simp add: unat_and_mask_less)
  show ty: "d_type d' = d_type d" "iterators d' = iterators d" using d' by (simp_all add: set_ht_def)
  show ms: "mset (entries d') = add_mset (k0, v) (mset (entries d))"
    using ins(2) t d' by (simp add: entries_def set_ht_def target_ht_def split: if_splits)
  have ro: "rehash_ok d'"
    using ok
  proof (cases rule: dict_ok_cases)
    case empty
    with ne show ?thesis by (simp add: dictReset_def)
  next
    case (single m)
    then show ?thesis using ins(1) t d' by (auto simp: rehash_ok_def set_ht_def target_ht_def dictIsRehashing_def)
  next
    case (rehashing m0 m1)
    then show ?thesis using ins(1) t d' by (auto simp: rehash_ok_def set_ht_def target_ht_def dictIsRehashing_def)
  qed
  have "unique_keys (d_type d) (entries d')"
    using ok no by (intro unique_keys_add [OF tk _ _ k0 ms]) (simp_all add: dict_ok_def lookup_None_iff [OF ok])
  with ro tk ty show "dict_ok d'" by (simp add: dict_ok_def)
  show "valid_ref d' (t, i, 0)" "entry_at d' (t, i, 0) = (k0, v)"
    using il t d' by (simp_all add: valid_ref_def entry_at_def dict_ht_def set_ht_def target_ht_def split: if_splits)
qed

lemma same_contents_trans: "same_contents d d1 \<Longrightarrow> same_contents d1 d2 \<Longrightarrow> same_contents d d2"
  by (simp add: same_contents_def)

lemma dupKey_same: "dict_ok d \<Longrightarrow> tsame (d_type d) k (dupKey d k)"
  unfolding dupKey_def by (rule type_okD(4)) (simp add: dict_ok_def)

lemma dictAddRaw_ok:
  assumes ok: "dict_ok d" and small: "dictSize d < 2 ^ 59"
  shows "\<exists>d' r. dictAddRaw cr uninit d k = Some (d', r) \<and> dict_ok d' \<and> d_type d' = d_type d \<and> iterators d' = iterators d \<and>
    (if dict_lookup d k = None
     then \<exists>ref. r = Inl ref \<and> valid_ref d' ref \<and> entry_at d' ref = (dupKey d k, uninit) \<and>
                mset (entries d') = add_mset (dupKey d k, uninit) (mset (entries d))
     else same_contents d d' \<and> (\<exists>ref. r = Inr (Some ref) \<and> valid_ref d' ref \<and> tsame (d_type d) k (fst (entry_at d' ref))))"
proof -
  obtain d1 where d1: "(if dictIsRehashing d then dictRehashStep d else Some d) = Some d1" "dict_ok d1" "same_contents d d1"
    using maybe_step_ok [OF ok] by blast
  have small1: "dictSize d1 < 2 ^ 59" using small same_contents_size [OF ok d1(2,3)] by simp
  obtain d2 idx ex where d2: "dictKeyIndex cr d1 k (dictHashKey d1 k) = Some (d2, idx, ex)" "dict_ok d2" "same_contents d1 d2"
    "ht_table (ht0 d2) \<noteq> []" and r:
    "if dict_lookup d1 k = None then idx = int (unat (dictHashKey d1 k AND ht_sizemask (target_ht d2))) \<and> ex = None
     else idx = - 1 \<and> (\<exists>ref. ex = Some ref \<and> valid_ref d2 ref \<and> tsame (d_type d1) k (fst (entry_at d2 ref)))"
    using dictKeyIndex_ok [OF d1(2) small1 refl, of cr k] by (elim exE conjE) (rule that)
  have s: "same_contents d d2" using same_contents_trans [OF d1(3) d2(3)] .
  note c = same_contentsD [OF s]
  have lk: "dict_lookup d1 k = dict_lookup d k" "dict_lookup d2 k = dict_lookup d k"
    using same_contents_lookup [OF ok d1(2,3)] same_contents_lookup [OF ok d2(2) s] by simp_all
  show ?thesis
  proof (cases "dict_lookup d k = None")
    case False
    then show ?thesis using r d1(1) d2(1,2) c s lk(1) same_contentsD(1) [OF d1(3)]
      by (auto simp: dictAddRaw_def)
  next
    case True
    let ?w = "dictHashKey d2 k AND ht_sizemask (target_ht d2)" and ?t = "if dictIsRehashing d2 then 1 else 0 :: nat"
    have hk: "dictHashKey d1 k = dictHashKey d2 k" using same_contentsD(1) [OF d2(3)] by (simp add: dictHashKey_def)
    have idx: "idx = int (unat ?w)" using r True lk(1) hk by simp
    then have ix: "idx \<noteq> - 1" "word_of_int idx = ?w" "nat idx = unat ?w"
      using uint_ge_0 [of ?w] by (simp_all, linarith)
    have no: "dict_lookup d2 k = None" using True lk(2) by simp
    obtain m where m: "ht_ok (d_type d2) m (target_ht d2)" using target_ok [OF d2(2,4)] .
    have dk: "dupKey d2 k = dupKey d k" using c(1) by (simp add: dupKey_def)
    note ins = insert_target_ok [OF d2(2,4) no dupKey_same [OF d2(2)] refl refl refl, of uninit, unfolded dk]
    have th: "dict_ht d2 ?t = target_ht d2" by (simp add: dict_ht_def target_ht_def)
    let ?d' = "set_ht d2 ?t ((target_ht d2)\<lparr>ht_table := (ht_table (target_ht d2))
        [unat ?w := (dupKey d k, uninit) # ht_table (target_ht d2) ! unat ?w], ht_used := ht_used (target_ht d2) + 1\<rparr>)"
    have "dictAddRaw cr uninit d k = Some (?d', Inl (?t, unat ?w, 0))"
      using d1(1) d2(1) ix ht_get_ok [OF m, of "dictHashKey d2 k"] ht_okD(4) [OF m]
      by (simp add: dictAddRaw_def th dk Let_def del: One_nat_def)
    then show ?thesis using ins c True by (intro exI [of _ ?d'] exI [of _ "Inl (?t, unat ?w, 0)"]) simp
  qed
qed

subsection \<open>Values\<close>

lemma ht_ok_setval:
  assumes ok: "ht_ok t m ht" and i: "i < length (ht_table ht)" and p: "p < length (ht_table ht ! i)"
    and e: "e = ht_table ht ! i ! p"
  shows "ht_ok t m (ht\<lparr>ht_table := (ht_table ht)[i := (ht_table ht ! i)[p := (fst e, v)]]\<rparr>)"
    and "add_mset e (mset (ht_entries (ht\<lparr>ht_table := (ht_table ht)[i := (ht_table ht ! i)[p := (fst e, v)]]\<rparr>)))
       = add_mset (fst e, v) (mset (ht_entries ht))"
proof -
  let ?b = "ht_table ht ! i" and ?b' = "(ht_table ht ! i)[p := (fst e, v)]"
  have mb: "add_mset e (mset ?b') = add_mset (fst e, v) (mset ?b)"
    using p e nth_mem_mset [OF p] by (simp add: mset_update)
  have mc: "mset (concat ((ht_table ht)[i := ?b'])) + mset ?b = mset (concat (ht_table ht)) + mset ?b'"
    by (rule mset_concat_update [OF i])
  show ms: "add_mset e (mset (ht_entries (ht\<lparr>ht_table := (ht_table ht)[i := ?b']\<rparr>))) = add_mset (fst e, v) (mset (ht_entries ht))"
  proof -
    have "add_mset e (mset (concat ((ht_table ht)[i := ?b']))) + mset ?b
        = mset (concat (ht_table ht)) + add_mset e (mset ?b')" using mc by simp
    also have "\<dots> = add_mset (fst e, v) (mset (concat (ht_table ht))) + mset ?b" by (simp add: mb)
    finally show ?thesis by (simp add: ht_entries_def)
  qed
  have "length (ht_entries (ht\<lparr>ht_table := (ht_table ht)[i := ?b']\<rparr>)) = length (ht_entries ht)"
    using arg_cong [OF ms, of size] by simp
  moreover have "unat (hashFunction t (fst x) AND mask m) = j"
    if "j < 2 ^ m" "x \<in> set ((ht_table ht)[i := ?b'] ! j)" for j x
  proof -
    have "\<exists>y \<in> set (ht_table ht ! j). fst y = fst x"
      using that(2) i p e by (auto simp: nth_list_update in_set_conv_nth split: if_splits) (metis nth_list_update fst_conv nth_mem)+
    then show ?thesis using ht_okD(7) [OF ok that(1)] by metis
  qed
  ultimately show "ht_ok t m (ht\<lparr>ht_table := (ht_table ht)[i := ?b']\<rparr>)"
    using ok by (simp add: ht_ok_def)
qed

lemma entry_at_mem: "valid_ref d ref \<Longrightarrow> entry_at d ref \<in> set (entries d)"
  by (cases ref) (simp add: valid_ref_def entry_at_def entries_def ht_entries_def dict_ht_def split: if_splits,
    (metis nth_mem)+)

lemma unique_keys_setval:
  assumes m: "add_mset e (mset es') = add_mset (fst e, v) (mset es)" and u: "unique_keys t es"
  shows "unique_keys t es'"
  unfolding unique_keys_size
proof
  fix k
  have "size (filter_mset (\<lambda>x. tsame t k (fst x)) (mset es')) = size (filter_mset (\<lambda>x. tsame t k (fst x)) (mset es))"
    using arg_cong [OF m, of "\<lambda>M. size (filter_mset (\<lambda>x. tsame t k (fst x)) M)"] by (simp split: if_splits)
  then show "size (filter_mset (\<lambda>x. tsame t k (fst x)) (mset es')) \<le> 1" using u by (simp add: unique_keys_size)
qed

lemma lookup_setval:
  assumes ok: "dict_ok d" "dict_ok d'" and t: "d_type d' = d_type d" and e: "e \<in> set (entries d)"
    and m: "add_mset e (mset (entries d')) = add_mset (fst e, v) (mset (entries d))"
  shows "dict_lookup d' = map_upd (d_type d) (fst e) (Some v) (dict_lookup d)"
  unfolding map_upd_def
proof
  fix k
  have tk: "type_ok (d_type d)" using ok by (simp add: dict_ok_def)
  have mem: "insert e (set (entries d')) = insert (fst e, v) (set (entries d))"
    using arg_cong [OF m, of set_mset] by simp
  show "dict_lookup d' k = (if tsame (d_type d) (fst e) k then Some v else dict_lookup d k)"
  proof (cases "tsame (d_type d) (fst e) k")
    case True
    have "(fst e, v) \<in> set (entries d')"
    proof (cases "v = snd e")
      case True
      then have "set (entries d') = set (entries d)" using m by (simp add: set_mset_mset [symmetric] del: set_mset_mset)
      with e True show ?thesis by simp
    next
      case False
      then have "(fst e, v) \<noteq> e" by (cases e) simp
      then show ?thesis using mem by blast
    qed
    with True type_okD(1) [OF tk] have "dict_lookup d' k = Some v" using t by (auto simp: dict_lookup_iff [OF ok(2)])
    then show ?thesis using True by simp
  next
    case False
    then have nk: "\<not> tsame (d_type d) k (fst e)" using type_okD(1) [OF tk] by blast
    then have "dict_lookup d' k = Some x \<longleftrightarrow> dict_lookup d k = Some x" for x
      unfolding dict_lookup_iff [OF ok(1)] dict_lookup_iff [OF ok(2)] t using mem by (metis fst_conv insert_iff)
    then show ?thesis using False by (metis not_None_eq)
  qed
qed

lemma dictSetVal_ok:
  assumes ok: "dict_ok d" and v: "valid_ref d ref"
  shows "\<exists>d'. dictSetVal d ref val = Some d' \<and> dict_ok d' \<and> d_type d' = d_type d \<and> iterators d' = iterators d \<and>
    add_mset (entry_at d ref) (mset (entries d')) = add_mset (fst (entry_at d ref), dupVal d val) (mset (entries d))"
proof -
  obtain t i p where ref: "ref = (t, i, p)" by (cases ref)
  let ?ht = "dict_ht d t" and ?e = "entry_at d ref"
  let ?ht' = "?ht\<lparr>ht_table := (ht_table ?ht)[i := (ht_table ?ht ! i)[p := (fst ?e, dupVal d val)]]\<rparr>"
  have ip: "i < length (ht_table ?ht)" "p < length (ht_table ?ht ! i)" "?e = ht_table ?ht ! i ! p"
    using v ref by (simp_all add: valid_ref_def entry_at_def)
  let ?d = "set_ht d t ?ht'"
  have ds: "dictSetVal d ref val = Some ?d" using ip ref by (simp add: dictSetVal_def Let_def)
  obtain m where m: "ht_ok (d_type d) m ?ht"
    using ok ip(1) by (cases rule: dict_ok_cases; cases "t = 0") (auto simp: dict_ht_def dictReset_def)
  note sv = ht_ok_setval [OF m ip, of "dupVal d val"]
  have ms: "add_mset ?e (mset (entries ?d)) = add_mset (fst ?e, dupVal d val) (mset (entries d))"
    using add_mset_union_cong(1) [OF sv(2), of "mset (ht_entries (ht1 d))"]
      add_mset_union_cong(2) [OF sv(2), of "mset (ht_entries (ht0 d))"]
    by (cases "t = 0") (simp_all add: entries_def set_ht_def dict_ht_def)
  have "rehash_ok ?d"
    using ok
  proof (cases rule: dict_ok_cases)
    case empty
    with ip(1) show ?thesis by (simp add: dict_ht_def dictReset_def split: if_splits)
  next
    case (single m')
    then have "t = 0" using ip(1) by (simp add: dict_ht_def dictReset_def split: if_splits)
    then show ?thesis using single sv(1) by (auto simp: rehash_ok_def set_ht_def dict_ht_def dictIsRehashing_def)
  next
    case (rehashing m0 m1)
    have m0: "m = m0" if "t = 0" using that ht_okD(3) [OF m] ht_okD(3) [OF rehashing(2)] by (simp add: dict_ht_def)
    have "ht_table ?ht' ! j = []" if "t = 0" "j < nat (rehashidx d)" for j
      using that rehashing(6) ip by (auto simp: dict_ht_def nth_list_update)
    then show ?thesis using rehashing sv(1) m0
      by (cases "t = 0") (auto simp: rehash_ok_def set_ht_def dict_ht_def dictIsRehashing_def)
  qed
  then have "dict_ok ?d" using ok unique_keys_setval [OF ms] by (auto simp: dict_ok_def set_ht_def)
  with ds ms show ?thesis by (auto simp: set_ht_def)
qed

subsection \<open>Add and replace\<close>

text \<open>\<^verbatim>\<open>dictSetVal\<close> through a reference to the entry of a key.\<close>

lemma dictSetVal_key:
  assumes ok: "dict_ok d" and v: "valid_ref d ref" and k: "tsame (d_type d) k (fst (entry_at d ref))"
  shows "\<exists>d'. dictSetVal d ref val = Some d' \<and> dict_ok d' \<and> d_type d' = d_type d \<and> iterators d' = iterators d \<and>
    dictSize d' = dictSize d \<and> dict_lookup d' = map_upd (d_type d) k (Some (dupVal d val)) (dict_lookup d)"
proof -
  have tk: "type_ok (d_type d)" using ok by (simp add: dict_ok_def)
  obtain d' where d': "dictSetVal d ref val = Some d'" "dict_ok d'" "d_type d' = d_type d" "iterators d' = iterators d"
    and m: "add_mset (entry_at d ref) (mset (entries d')) = add_mset (fst (entry_at d ref), dupVal d val) (mset (entries d))"
    using dictSetVal_ok [OF ok v] by blast
  have "dictSize d' = dictSize d"
    using arg_cong [OF m, of size] by (simp add: dictSize_entries [OF ok] dictSize_entries [OF d'(2)])
  moreover have "dict_lookup d' = map_upd (d_type d) k (Some (dupVal d val)) (dict_lookup d)"
    using lookup_setval [OF ok d'(2,3) entry_at_mem [OF v] m] map_upd_same [OF tk k] by simp
  ultimately show ?thesis using d' by blast
qed

lemma dictAddRaw_new:
  assumes ok: "dict_ok d" and small: "dictSize d < 2 ^ 59" and no: "dict_lookup d k = None"
  shows "\<exists>d' ref. dictAddRaw cr uninit d k = Some (d', Inl ref) \<and> dict_ok d' \<and> d_type d' = d_type d \<and>
    iterators d' = iterators d \<and> valid_ref d' ref \<and> tsame (d_type d) k (fst (entry_at d' ref)) \<and>
    dictSize d' = dictSize d + 1 \<and> dict_lookup d' = map_upd (d_type d) k (Some uninit) (dict_lookup d)"
proof -
  obtain d' ref where d': "dictAddRaw cr uninit d k = Some (d', Inl ref)" "dict_ok d'" "d_type d' = d_type d"
    "iterators d' = iterators d" "valid_ref d' ref" "entry_at d' ref = (dupKey d k, uninit)"
    and m: "mset (entries d') = add_mset (dupKey d k, uninit) (mset (entries d))"
    using dictAddRaw_ok [OF ok small, of cr uninit k] no by auto
  have "dictSize d' = dictSize d + 1"
    using arg_cong [OF m, of size] by (simp add: dictSize_entries [OF ok] dictSize_entries [OF d'(2)])
  then show ?thesis using d' lookup_add [OF ok d'(2,3) no dupKey_same [OF ok] m] dupKey_same [OF ok] by simp
qed

lemma dictAddRaw_existing:
  assumes ok: "dict_ok d" and small: "dictSize d < 2 ^ 59" and yes: "dict_lookup d k \<noteq> None"
  shows "\<exists>d' ref. dictAddRaw cr uninit d k = Some (d', Inr (Some ref)) \<and> dict_ok d' \<and> d_type d' = d_type d \<and>
    iterators d' = iterators d \<and> valid_ref d' ref \<and> tsame (d_type d) k (fst (entry_at d' ref)) \<and>
    dictSize d' = dictSize d \<and> dict_lookup d' = dict_lookup d"
proof -
  obtain d' ref where d': "dictAddRaw cr uninit d k = Some (d', Inr (Some ref))" "dict_ok d'" "d_type d' = d_type d"
    "iterators d' = iterators d" "same_contents d d'" "valid_ref d' ref" "tsame (d_type d) k (fst (entry_at d' ref))"
    using dictAddRaw_ok [OF ok small, of cr uninit k] yes by auto
  then show ?thesis using same_contents_lookup [OF ok d'(2,5)] same_contents_size [OF ok d'(2,5)] by simp
qed

lemma dupVal_type: "d_type d' = d_type d \<Longrightarrow> dupVal d' = dupVal d"
  by (simp add: dupVal_def fun_eq_iff)

lemma dictAdd_ok:
  assumes ok: "dict_ok d" and small: "dictSize d < 2 ^ 59"
  shows "\<exists>d'. dictAdd cr uninit d k val = Some (d', dict_lookup d k = None) \<and> dict_ok d' \<and> d_type d' = d_type d \<and>
    iterators d' = iterators d \<and> dictSize d' = dictSize d + (if dict_lookup d k = None then 1 else 0) \<and>
    dict_lookup d' = (if dict_lookup d k = None then map_upd (d_type d) k (Some (dupVal d val)) (dict_lookup d) else dict_lookup d)"
proof (cases "dict_lookup d k = None")
  case True
  obtain d1 ref where d1: "dictAddRaw cr uninit d k = Some (d1, Inl ref)" "dict_ok d1" "d_type d1 = d_type d"
    "iterators d1 = iterators d" "valid_ref d1 ref" "tsame (d_type d) k (fst (entry_at d1 ref))"
    "dictSize d1 = dictSize d + 1" "dict_lookup d1 = map_upd (d_type d) k (Some uninit) (dict_lookup d)"
    using dictAddRaw_new [OF ok small True, of cr uninit] by blast
  have "tsame (d_type d1) k (fst (entry_at d1 ref))" using d1 by simp
  from dictSetVal_key [OF d1(2,5) this, of val] show ?thesis
    using d1 True dupVal_type [OF d1(3)] by (auto simp: dictAdd_def)
next
  case False
  then show ?thesis using dictAddRaw_existing [OF ok small False, of cr uninit] by (auto simp: dictAdd_def)
qed

lemma dictReplace_ok:
  assumes ok: "dict_ok d" and small: "dictSize d < 2 ^ 59"
  shows "\<exists>d'. dictReplace cr uninit d k val = Some (d', dict_lookup d k = None) \<and> dict_ok d' \<and> d_type d' = d_type d \<and>
    iterators d' = iterators d \<and> dictSize d' = dictSize d + (if dict_lookup d k = None then 1 else 0) \<and>
    dict_lookup d' = map_upd (d_type d) k (Some (dupVal d val)) (dict_lookup d)"
proof (cases "dict_lookup d k = None")
  case True
  obtain d1 ref where d1: "dictAddRaw cr uninit d k = Some (d1, Inl ref)" "dict_ok d1" "d_type d1 = d_type d"
    "iterators d1 = iterators d" "valid_ref d1 ref" "tsame (d_type d) k (fst (entry_at d1 ref))"
    "dictSize d1 = dictSize d + 1" "dict_lookup d1 = map_upd (d_type d) k (Some uninit) (dict_lookup d)"
    using dictAddRaw_new [OF ok small True, of cr uninit] by blast
  have "tsame (d_type d1) k (fst (entry_at d1 ref))" using d1 by simp
  from dictSetVal_key [OF d1(2,5) this, of val] show ?thesis
    using d1 True dupVal_type [OF d1(3)] by (auto simp: dictReplace_def)
next
  case False
  obtain d1 ref where d1: "dictAddRaw cr uninit d k = Some (d1, Inr (Some ref))" "dict_ok d1" "d_type d1 = d_type d"
    "iterators d1 = iterators d" "valid_ref d1 ref" "tsame (d_type d) k (fst (entry_at d1 ref))"
    "dictSize d1 = dictSize d" "dict_lookup d1 = dict_lookup d"
    using dictAddRaw_existing [OF ok small False, of cr uninit] by blast
  have "tsame (d_type d1) k (fst (entry_at d1 ref))" using d1 by simp
  from dictSetVal_key [OF d1(2,5) this, of val] show ?thesis
    using d1 False dupVal_type [OF d1(3)] by (auto simp: dictReplace_def)
qed

subsection \<open>Deletion\<close>

lemma chain_unlink_find:
  "(case chain_unlink d k b of
      None \<Rightarrow> chain_find d k b = None
    | Some (he, b') \<Rightarrow> chain_find d k b = Some he \<and> mset b' + mset [he] = mset b \<and> tsame (d_type d) k (fst he))"
  by (induction b) (auto simp: chain_find_def sameKey_tsame split: option.splits)

lemma unlink_ok:
  assumes ok: "dict_ok d" and i: "i < length (ht_table (dict_ht d t))"
    and b: "mset b' + mset [he] = mset (ht_table (dict_ht d t) ! i)" and t: "t = 0 \<or> t = Suc 0"
    and d': "d' = set_ht d t ((dict_ht d t)\<lparr>ht_table := (ht_table (dict_ht d t))[i := b'], ht_used := ht_used (dict_ht d t) - 1\<rparr>)"
  shows "dict_ok d'" and "d_type d' = d_type d" and "iterators d' = iterators d"
    and "add_mset he (mset (entries d')) = mset (entries d)"
proof -
  obtain m where m: "ht_ok (d_type d) m (dict_ht d t)"
    using ok i by (cases rule: dict_ok_cases; cases "t = 0") (auto simp: dict_ht_def dictReset_def)
  have im: "i < 2 ^ m" using i ht_okD(5) [OF m] by simp
  have u: "ht_used (dict_ht d t) - 1 = ht_used (dict_ht d t) - length [he]" by simp
  note rm = ht_ok_remove_bucket [OF m im b u]
  show ty: "d_type d' = d_type d" "iterators d' = iterators d" using d' by (simp_all add: set_ht_def)
  show ms: "add_mset he (mset (entries d')) = mset (entries d)"
    unfolding d' using rm(2) [symmetric] t by (elim disjE) (simp_all add: entries_def set_ht_def dict_ht_def)
  have "rehash_ok d'"
    using ok
  proof (cases rule: dict_ok_cases)
    case empty
    with i show ?thesis by (simp add: dict_ht_def dictReset_def split: if_splits)
  next
    case (single m')
    then have "t = 0" using i by (simp add: dict_ht_def dictReset_def split: if_splits)
    then show ?thesis using single rm(1) d' by (auto simp: rehash_ok_def set_ht_def dict_ht_def dictIsRehashing_def)
  next
    case (rehashing m0 m1)
    have m0: "m = m0" if "t = 0" using that ht_okD(3) [OF m] ht_okD(3) [OF rehashing(2)] by (simp add: dict_ht_def)
    have "(ht_table (dict_ht d t))[i := b'] ! j = []" if "t = 0" "j < nat (rehashidx d)" for j
      using that rehashing(6) i b by (cases "j = i") (auto simp: dict_ht_def)
    then show ?thesis using rehashing rm(1) m0 d'
      by (cases "t = 0") (auto simp: rehash_ok_def set_ht_def dict_ht_def dictIsRehashing_def)
  qed
  moreover have "unique_keys (d_type d) (entries d')"
    by (rule unique_keys_remove [of _ "entries d" _ "{#he#}"]) (use ok ms in \<open>simp_all add: dict_ok_def\<close>)
  ultimately show "dict_ok d'" using ok ty by (simp add: dict_ok_def)
qed

text \<open>What unlinking the entry of a key does to the map and the count.\<close>

lemma unlink_lookup:
  assumes "dict_ok d" and "dict_ok d'" and "d_type d' = d_type d" and m: "add_mset he (mset (entries d')) = mset (entries d)"
    and "tsame (d_type d) k (fst he)"
  shows "dict_lookup d' = map_upd (d_type d) k None (dict_lookup d)" and "dictSize d' = dictSize d - 1"
    and "dict_lookup d k = Some (snd he)"
proof -
  have "add_mset (fst he, snd he) (mset (entries d')) = mset (entries d)" using m by simp
  from lookup_remove [OF assms(1-3,5) this]
  show "dict_lookup d' = map_upd (d_type d) k None (dict_lookup d)" .
  show "dictSize d' = dictSize d - 1"
    using arg_cong [OF m, of size] by (simp add: dictSize_entries [OF assms(1)] dictSize_entries [OF assms(2)])
  have "he \<in> set (entries d)" using arg_cong [OF m, of set_mset] by auto
  then show "dict_lookup d k = Some (snd he)"
    using assms(5) by (auto simp: dict_lookup_iff [OF assms(1)]) (metis prod.collapse)
qed

text \<open>Both together, for the bucket of a key in either table.\<close>

lemma unlink_bucket:
  assumes ok: "dict_ok d" and b: "ht_get (dict_ht d t) w = Some b" and u: "chain_unlink d k b = Some (he, b')"
    and t: "t = 0 \<or> t = Suc 0"
    and d': "d' = set_ht d t ((dict_ht d t)\<lparr>ht_table := (ht_table (dict_ht d t))[unat w := b'], ht_used := ht_used (dict_ht d t) - 1\<rparr>)"
  shows "dict_ok d' \<and> d_type d' = d_type d \<and> iterators d' = iterators d \<and> dict_lookup d k = Some (snd he) \<and>
    dict_lookup d' = map_upd (d_type d) k None (dict_lookup d) \<and> dictSize d' = dictSize d - 1"
proof -
  have cu: "mset b' + mset [he] = mset b" "tsame (d_type d) k (fst he)"
    using chain_unlink_find [of d k b] u by simp_all
  have i: "unat w < length (ht_table (dict_ht d t))" "mset b' + mset [he] = mset (ht_table (dict_ht d t) ! unat w)"
    using ht_get_SomeD [OF b] cu by simp_all
  note ul = unlink_ok [OF ok i t d']
  show ?thesis using ul unlink_lookup [OF ok ul(1,2,4) cu(2)] by blast
qed

lemma map_upd_None: "dict_ok d \<Longrightarrow> dict_lookup d k = None \<Longrightarrow> map_upd (d_type d) k None (dict_lookup d) = dict_lookup d"
  unfolding map_upd_def fun_eq_iff using lookup_cong by metis

lemma dictGenericDelete_ok:
  assumes ok: "dict_ok d"
  shows "\<exists>d' he. dictGenericDelete d k = Some (d', he) \<and> dict_ok d' \<and> d_type d' = d_type d \<and> iterators d' = iterators d \<and>
    map_option snd he = dict_lookup d k \<and> dict_lookup d' = map_upd (d_type d) k None (dict_lookup d) \<and>
    dictSize d' = dictSize d - (if dict_lookup d k = None then 0 else 1)"
proof (cases "entries d = []")
  case True
  then have "ht_used (ht0 d) = 0 \<and> ht_used (ht1 d) = 0" using dictSize_entries [OF ok] by (simp add: dictSize_def)
  moreover have no: "dict_lookup d k = None" using True by (simp add: dict_lookup_def)
  ultimately show ?thesis using ok map_upd_None [OF ok no] by (simp add: dictGenericDelete_def)
next
  case False
  then have u: "\<not> (ht_used (ht0 d) = 0 \<and> ht_used (ht1 d) = 0)"
    using dictSize_entries [OF ok] by (auto simp: dictSize_def)
  obtain d1 where d1: "(if dictIsRehashing d then dictRehashStep d else Some d) = Some d1" "dict_ok d1" "same_contents d d1"
    using maybe_step_ok [OF ok] by blast
  note c = same_contentsD [OF d1(3)] and lk = same_contents_lookup [OF ok d1(2,3)] and sz = same_contents_size [OF ok d1(2,3)]
  have "entries d1 \<noteq> []" using False c(3) by auto
  note ne = nonempty_table [OF d1(2) this]
  let ?i0 = "dictHashKey d1 k AND ht_sizemask (ht0 d1)" and ?i1 = "dictHashKey d1 k AND ht_sizemask (ht1 d1)"
  obtain b0 where b0: "ht_get (ht0 d1) ?i0 = Some b0"
    and f: "if dictIsRehashing d1
     then \<exists>b1. ht_get (ht1 d1) ?i1 = Some b1 \<and>
            find (\<lambda>e. tsame (d_type d1) k (fst e)) (entries d1) =
            (case chain_find d1 k b0 of Some e \<Rightarrow> Some e | None \<Rightarrow> chain_find d1 k b1)
     else find (\<lambda>e. tsame (d_type d1) k (fst e)) (entries d1) = chain_find d1 k b0"
    using find_entries [OF d1(2) ne, of k] by auto
  show ?thesis
  proof (cases "chain_unlink d1 k b0")
    case (Some p)
    obtain he b' where p: "p = (he, b')" by (cases p)
    have "ht_get (dict_ht d1 0) ?i0 = Some b0" using b0 by (simp add: dict_ht_def)
    note ul = unlink_bucket [OF d1(2) this Some [unfolded p] disjI1 [OF refl] refl]
    then show ?thesis using u d1(1) b0 Some p c lk sz
      by (simp add: dictGenericDelete_def Let_def dict_ht_def set_ht_def) (metis prod.collapse)
  next
    case None
    then have c0: "chain_find d1 k b0 = None" using chain_unlink_find [of d1 k b0] by simp
    show ?thesis
    proof (cases "dictIsRehashing d1")
      case False
      then have no: "dict_lookup d1 k = None" using f c0 by (simp add: dict_lookup_find)
      then show ?thesis using ok u d1(1,2) b0 None False c lk sz map_upd_None [OF d1(2) no]
        by (simp add: dictGenericDelete_def Let_def)
    next
      case True
      then obtain b1 where b1: "ht_get (ht1 d1) ?i1 = Some b1"
        and f1: "dict_lookup d1 k = map_option snd (chain_find d1 k b1)"
        using f c0 by (auto simp: dict_lookup_find)
      show ?thesis
      proof (cases "chain_unlink d1 k b1")
        case n1: None
        then have no: "dict_lookup d1 k = None" using chain_unlink_find [of d1 k b1] f1 by simp
        then show ?thesis using ok u d1(1,2) b0 None True b1 n1 c lk sz map_upd_None [OF d1(2) no]
          by (simp add: dictGenericDelete_def Let_def)
      next
        case (Some p)
        obtain he b' where p: "p = (he, b')" by (cases p)
        have "ht_get (dict_ht d1 (Suc 0)) ?i1 = Some b1" using b1 by (simp add: dict_ht_def)
        note ul = unlink_bucket [OF d1(2) this Some [unfolded p] disjI2 [OF refl] refl]
        then show ?thesis using u d1(1) b0 None True b1 Some p c lk sz
          by (simp add: dictGenericDelete_def Let_def dict_ht_def set_ht_def) (metis prod.collapse)
      qed
    qed
  qed
qed

subsection \<open>Clearing\<close>

lemma dictClear_loop_all: "length (concat bs) \<le> n \<Longrightarrow> dictClear_loop bs n = concat bs"
  by (induction bs arbitrary: n) auto

lemma dictClear_freed:
  "snd (dictClear dictReset) = []" "ht_ok t m ht \<Longrightarrow> snd (dictClear ht) = ht_entries ht"
  by (simp_all add: dictClear_def dictReset_def ht_entries_def dictClear_loop_all ht_okD(6))

lemma dictClear_reset [simp]: "fst (dictClear ht) = dictReset"
  by (simp add: dictClear_def)

text \<open>\<^verbatim>\<open>dictEmpty\<close> frees every entry once, although its loops stop when the count reaches zero.\<close>

lemma dictEmpty_ok:
  assumes "dict_ok d"
  shows "\<exists>d'. dictEmpty d = (d', entries d) \<and> dict_ok d' \<and> dictSize d' = 0 \<and> dict_lookup d' = (\<lambda>_. None)"
proof -
  have "dictEmpty d = (d\<lparr>ht0 := dictReset, ht1 := dictReset, rehashidx := - 1, iterators := 0\<rparr>, entries d)"
    using assms by (cases rule: dict_ok_cases) (auto simp: dictEmpty_def entries_def split_def dictClear_freed)
  then show ?thesis using assms
    by (auto simp: dict_ok_def rehash_ok_def dictIsRehashing_def unique_keys_def entries_def dictSize_def
      dict_lookup_def fun_eq_iff)
qed

lemma dictCreate_ok: "type_ok t \<Longrightarrow> dict_ok (dictCreate t) \<and> dict_lookup (dictCreate t) = (\<lambda>_. None)"
  by (auto simp: dictCreate_def dict_ok_def rehash_ok_def dictIsRehashing_def unique_keys_def entries_def
      dict_lookup_def fun_eq_iff)

end
