(* ===== verification/Dict_Map.thy ===== *)
theory Dict_Map
  imports Dict_Ops
begin

text \<open>
  The dictionary as a key-value map: the contract its clients rely on (locale \<open>kv_map\<close>), what any
  sequence of calls does under that contract, and the contract proved for \<^verbatim>\<open>dict.c\<close>.
  Rehashing work and resizing may happen between any two calls.
\<close>

subsection \<open>The contract\<close>

locale kv_map =
  fixes inv :: "'d \<Rightarrow> bool" and lookup :: "'d \<Rightarrow> 'k \<Rightarrow> 'v option" and count :: "'d \<Rightarrow> nat" and cap :: nat
    and upd :: "'k \<Rightarrow> 'v option \<Rightarrow> ('k \<Rightarrow> 'v option) \<Rightarrow> 'k \<Rightarrow> 'v option" and copy :: "'v \<Rightarrow> 'v"
    and get :: "'d \<Rightarrow> 'k \<Rightarrow> ('d \<times> 'v option) option"
    and add :: "'d \<Rightarrow> 'k \<Rightarrow> 'v \<Rightarrow> ('d \<times> bool) option" and put :: "'d \<Rightarrow> 'k \<Rightarrow> 'v \<Rightarrow> ('d \<times> bool) option"
    and del :: "'d \<Rightarrow> 'k \<Rightarrow> ('d \<times> bool) option" and tick :: "'d \<Rightarrow> 'm \<Rightarrow> 'd option" and tick_ok :: "'m \<Rightarrow> bool"
  assumes get_law: "inv d \<Longrightarrow> \<exists>d'. get d k = Some (d', lookup d k) \<and> inv d' \<and> lookup d' = lookup d \<and> count d' = count d"
    and add_law: "inv d \<Longrightarrow> count d < cap \<Longrightarrow> \<exists>d'. add d k v = Some (d', lookup d k = None) \<and> inv d' \<and>
      lookup d' = (if lookup d k = None then upd k (Some (copy v)) (lookup d) else lookup d) \<and> count d' \<le> count d + 1"
    and put_law: "inv d \<Longrightarrow> count d < cap \<Longrightarrow> \<exists>d'. put d k v = Some (d', lookup d k = None) \<and> inv d' \<and>
      lookup d' = upd k (Some (copy v)) (lookup d) \<and> count d' \<le> count d + 1"
    and del_law: "inv d \<Longrightarrow> \<exists>d'. del d k = Some (d', lookup d k \<noteq> None) \<and> inv d' \<and>
      lookup d' = upd k None (lookup d) \<and> count d' \<le> count d"
    and tick_law: "inv d \<Longrightarrow> tick_ok m \<Longrightarrow> \<exists>d'. tick d m = Some d' \<and> inv d' \<and> lookup d' = lookup d \<and> count d' = count d"

datatype ('k, 'v, 'm) kv_op = KvGet 'k | KvAdd 'k 'v | KvPut 'k 'v | KvDel 'k | KvTick 'm

datatype 'v kv_res = KvVal "'v option" | KvFlag bool | KvDone

text \<open>A sequence of calls with their results, on an implementation and on functions.\<close>

definition kv_step ::
  "('d \<Rightarrow> 'k \<Rightarrow> ('d \<times> 'v option) option) \<Rightarrow> ('d \<Rightarrow> 'k \<Rightarrow> 'v \<Rightarrow> ('d \<times> bool) option) \<Rightarrow>
   ('d \<Rightarrow> 'k \<Rightarrow> 'v \<Rightarrow> ('d \<times> bool) option) \<Rightarrow> ('d \<Rightarrow> 'k \<Rightarrow> ('d \<times> bool) option) \<Rightarrow> ('d \<Rightarrow> 'm \<Rightarrow> 'd option) \<Rightarrow>
   'd \<Rightarrow> ('k, 'v, 'm) kv_op \<Rightarrow> ('d \<times> 'v kv_res) option" where
  "kv_step get add put del tick d x =
     (case x of
        KvGet k \<Rightarrow> map_option (apsnd KvVal) (get d k)
      | KvAdd k v \<Rightarrow> map_option (apsnd KvFlag) (add d k v)
      | KvPut k v \<Rightarrow> map_option (apsnd KvFlag) (put d k v)
      | KvDel k \<Rightarrow> map_option (apsnd KvFlag) (del d k)
      | KvTick m \<Rightarrow> map_option (\<lambda>d. (d, KvDone)) (tick d m))"

fun run_ops :: "('d \<Rightarrow> 'x \<Rightarrow> ('d \<times> 'r) option) \<Rightarrow> 'd \<Rightarrow> 'x list \<Rightarrow> ('d \<times> 'r list) option" where
  "run_ops step d [] = Some (d, [])"
| "run_ops step d (x # xs) =
     do { (d', r) \<leftarrow> step d x; (d'', rs) \<leftarrow> run_ops step d' xs; Some (d'', r # rs) }"

definition kv_spec_step ::
  "('k \<Rightarrow> 'v option \<Rightarrow> ('k \<Rightarrow> 'v option) \<Rightarrow> 'k \<Rightarrow> 'v option) \<Rightarrow> ('v \<Rightarrow> 'v) \<Rightarrow>
   ('k \<Rightarrow> 'v option) \<Rightarrow> ('k, 'v, 'm) kv_op \<Rightarrow> ('k \<Rightarrow> 'v option) \<times> 'v kv_res" where
  "kv_spec_step upd copy f x =
     (case x of
        KvGet k \<Rightarrow> (f, KvVal (f k))
      | KvAdd k v \<Rightarrow> (if f k = None then upd k (Some (copy v)) f else f, KvFlag (f k = None))
      | KvPut k v \<Rightarrow> (upd k (Some (copy v)) f, KvFlag (f k = None))
      | KvDel k \<Rightarrow> (upd k None f, KvFlag (f k \<noteq> None))
      | KvTick m \<Rightarrow> (f, KvDone))"

fun run_spec :: "('f \<Rightarrow> 'x \<Rightarrow> 'f \<times> 'r) \<Rightarrow> 'f \<Rightarrow> 'x list \<Rightarrow> 'f \<times> 'r list" where
  "run_spec step f [] = (f, [])"
| "run_spec step f (x # xs) = (case step f x of (f', r) \<Rightarrow> case run_spec step f' xs of (f'', rs) \<Rightarrow> (f'', r # rs))"

context kv_map
begin

lemma step_refines:
  assumes "inv d" and "count d < cap" and "\<forall>m. x = KvTick m \<longrightarrow> tick_ok m"
  shows "\<exists>d' r. kv_step get add put del tick d x = Some (d', r) \<and> inv d' \<and> count d' \<le> count d + 1 \<and>
    kv_spec_step upd copy (lookup d) x = (lookup d', r)"
proof (cases x)
  case (KvGet k)
  then show ?thesis using get_law [OF assms(1), of k] by (auto simp: kv_step_def kv_spec_step_def)
next
  case (KvAdd k v)
  then show ?thesis using add_law [OF assms(1,2), of k v] by (auto simp: kv_step_def kv_spec_step_def)
next
  case (KvPut k v)
  then show ?thesis using put_law [OF assms(1,2), of k v] by (auto simp: kv_step_def kv_spec_step_def)
next
  case (KvDel k)
  then show ?thesis using del_law [OF assms(1), of k] by (auto simp: kv_step_def kv_spec_step_def intro: le_SucI)
next
  case (KvTick m)
  then show ?thesis using tick_law [OF assms(1), of m] assms(3) by (auto simp: kv_step_def kv_spec_step_def)
qed

lemma run_refines:
  assumes "inv d" and "count d + length ops \<le> cap" and "\<forall>m. KvTick m \<in> set ops \<longrightarrow> tick_ok m"
  shows "\<exists>d' rs. run_ops (kv_step get add put del tick) d ops = Some (d', rs) \<and> inv d' \<and>
    run_spec (kv_spec_step upd copy) (lookup d) ops = (lookup d', rs)"
  using assms
proof (induction ops arbitrary: d)
  case (Cons x ops)
  obtain d1 r where s: "kv_step get add put del tick d x = Some (d1, r)" "inv d1" "count d1 \<le> count d + 1"
    "kv_spec_step upd copy (lookup d) x = (lookup d1, r)"
    using step_refines [OF Cons.prems(1), of x] Cons.prems(2,3) by auto
  moreover obtain d' rs where "run_ops (kv_step get add put del tick) d1 ops = Some (d', rs)" "inv d'"
    "run_spec (kv_spec_step upd copy) (lookup d1) ops = (lookup d', rs)"
    using Cons.IH [OF s(2)] s(3) Cons.prems(2,3) by auto
  ultimately show ?case by simp
qed simp

end

subsection \<open>The dictionary implements it\<close>

text \<open>Work that changes the tables and not the map.\<close>

datatype dict_work = Rehash nat | Expand nat | Resize bool

definition dict_tick :: "('k, 'v) dict \<Rightarrow> dict_work \<Rightarrow> ('k, 'v) dict option" where
  "dict_tick d w =
     (case w of
        Rehash n \<Rightarrow> map_option fst (dictRehash d n)
      | Expand n \<Rightarrow> Some (fst (dictExpand d n))
      | Resize can_resize \<Rightarrow> Some (fst (dictResize can_resize d)))"

text \<open>
  The requests that do not overflow: the \<^verbatim>\<open>int\<close> number of empty buckets to visit of \<^verbatim>\<open>dictRehash\<close>, and the size in bytes of the table
  that \<^verbatim>\<open>dictExpand\<close> allocates. \<^verbatim>\<open>dictResize\<close> asks for less than \<open>2 ^ 31\<close> buckets.
\<close>

definition work_ok :: "dict_work \<Rightarrow> bool" where
  "work_ok w = (case w of Rehash n \<Rightarrow> int n * 10 \<le> INT32_MAX | Expand n \<Rightarrow> n \<le> 2 ^ 60 | Resize _ \<Rightarrow> True)"

definition type_copy :: "('k, 'v) dictType \<Rightarrow> 'v \<Rightarrow> 'v" where
  "type_copy t v = (case valDup t of Some f \<Rightarrow> f v | None \<Rightarrow> v)"

definition typed :: "('k, 'v) dictType \<Rightarrow> ('k, 'v) dict \<Rightarrow> bool" where
  "typed t d \<longleftrightarrow> dict_ok d \<and> d_type d = t"

lemma type_copy_dupVal: "d_type d = t \<Longrightarrow> type_copy t = dupVal d"
  by (auto simp: type_copy_def dupVal_def fun_eq_iff)

lemma dictExpand_same:
  assumes "dict_ok d" and "n \<le> 2 ^ 60"
  shows "dict_ok (fst (dictExpand d n))" and "same_contents d (fst (dictExpand d n))"
  using dictExpand_ok [OF assms(1) _ assms(2), of "fst (dictExpand d n)" "snd (dictExpand d n)"]
  by (simp_all add: same_contents_def)

lemma dictResize_expand: "dictResize b d = (d, False) \<or> (\<exists>n \<le> 2 ^ 60. dictResize b d = dictExpand d n)"
proof -
  let ?m = "sint (of_nat (ht_used (ht0 d)) :: u32)"
  have "?m < 2 ^ 31" using sint_lt [of "of_nat (ht_used (ht0 d)) :: u32"] by simp
  then have "nat (if ?m < 4 then 4 else ?m) \<le> 2 ^ 60" by (simp add: nat_le_iff)
  then show ?thesis unfolding dictResize_def Let_def by auto
qed

lemma dict_tick_ok:
  assumes "dict_ok d" and "work_ok w"
  shows "\<exists>d'. dict_tick d w = Some d' \<and> dict_ok d' \<and> same_contents d d'"
proof (cases w)
  case (Rehash n)
  then show ?thesis using dictRehash_ok [OF assms(1), of n] assms(2) by (auto simp: dict_tick_def work_ok_def)
next
  case (Expand n)
  then show ?thesis using dictExpand_same [OF assms(1), of n] assms(2) by (simp add: dict_tick_def work_ok_def)
next
  case (Resize b)
  then show ?thesis using dictResize_expand [of b d] dictExpand_same [OF assms(1)] assms(1)
    by (auto simp: dict_tick_def)
qed

interpretation dictMap: kv_map "typed t" dict_lookup dictSize "2 ^ 59" "map_upd t" "type_copy t" dictFetchValue
    "dictAdd can_resize uninit" "dictReplace can_resize uninit" dictDelete dict_tick work_ok
  for t can_resize uninit
proof unfold_locales
  fix d :: "('a, 'b) dict" and k v w
  assume t: "typed t d"
  then have ok: "dict_ok d" and ty: "d_type d = t" by (simp_all add: typed_def)
  show "\<exists>d'. dictFetchValue d k = Some (d', dict_lookup d k) \<and> typed t d' \<and> dict_lookup d' = dict_lookup d \<and> dictSize d' = dictSize d"
  proof -
    obtain d' he where f: "dictFind d k = Some (d', he)" "dict_ok d'" "same_contents d d'" "map_option snd he = dict_lookup d k"
      using dictFind_ok [OF ok, of k] by blast
    then show ?thesis
      using same_contents_lookup [OF ok f(2,3)] same_contents_size [OF ok f(2,3)] same_contentsD(1) [OF f(3)] ty
      by (simp add: dictFetchValue_def typed_def)
  qed
  show "\<exists>d'. dictDelete d k = Some (d', dict_lookup d k \<noteq> None) \<and> typed t d' \<and>
      dict_lookup d' = map_upd t k None (dict_lookup d) \<and> dictSize d' \<le> dictSize d"
  proof -
    obtain d' he where f: "dictGenericDelete d k = Some (d', he)" "dict_ok d'" "d_type d' = d_type d"
      "map_option snd he = dict_lookup d k" "dict_lookup d' = map_upd (d_type d) k None (dict_lookup d)"
      "dictSize d' = dictSize d - (if dict_lookup d k = None then 0 else 1)"
      using dictGenericDelete_ok [OF ok, of k] by blast
    have "(he \<noteq> None) = (dict_lookup d k \<noteq> None)" using f(4) by (metis option.map_disc_iff)
    with f ty show ?thesis by (simp add: dictDelete_def typed_def)
  qed
  show "\<exists>d'. dict_tick d w = Some d' \<and> typed t d' \<and> dict_lookup d' = dict_lookup d \<and> dictSize d' = dictSize d" if "work_ok w"
    using that dict_tick_ok [OF ok, of w] same_contents_lookup [OF ok] same_contents_size [OF ok] same_contentsD(1) ty
    by (auto simp: typed_def)
  assume small: "dictSize d < 2 ^ 59"
  show "\<exists>d'. dictAdd can_resize uninit d k v = Some (d', dict_lookup d k = None) \<and> typed t d' \<and>
      dict_lookup d' = (if dict_lookup d k = None then map_upd t k (Some (type_copy t v)) (dict_lookup d) else dict_lookup d) \<and>
      dictSize d' \<le> dictSize d + 1"
    using dictAdd_ok [OF ok small, of can_resize uninit k v] ty type_copy_dupVal [OF ty] by (auto simp: typed_def)
  show "\<exists>d'. dictReplace can_resize uninit d k v = Some (d', dict_lookup d k = None) \<and> typed t d' \<and>
      dict_lookup d' = map_upd t k (Some (type_copy t v)) (dict_lookup d) \<and> dictSize d' \<le> dictSize d + 1"
    using dictReplace_ok [OF ok small, of can_resize uninit k v] ty type_copy_dupVal [OF ty] by (auto simp: typed_def)
qed

subsection \<open>Rehashing in a time slice\<close>

text \<open>
  \<^verbatim>\<open>dictRehashMilliseconds\<close>: the clock is a parameter, \<open>expired i\<close> the test
  \<^verbatim>\<open>timeInMilliseconds()-start > ms\<close> after \<open>i\<close> rounds; the count of rehashes is a natural number
  (an \<^verbatim>\<open>int\<close> in the code).
\<close>

partial_function (option) rehash_rounds ::
  "(nat \<Rightarrow> bool) \<Rightarrow> nat \<Rightarrow> ('k, 'v) dict \<Rightarrow> (('k, 'v) dict \<times> nat) option" where
  "rehash_rounds expired i d =
     do { (d, more) \<leftarrow> dictRehash d 100;
          if more then (if expired (Suc i) then Some (d, Suc i * 100) else rehash_rounds expired (Suc i) d)
          else Some (d, i * 100) }"

declare rehash_rounds.simps [code]

definition dictRehashMilliseconds :: "(nat \<Rightarrow> bool) \<Rightarrow> ('k, 'v) dict \<Rightarrow> (('k, 'v) dict \<times> nat) option" where
  "dictRehashMilliseconds expired d = rehash_rounds expired 0 d"

lemma dictRehash_idle: "dictRehash d n = Some (d', True) \<Longrightarrow> dictIsRehashing d"
  by (rule ccontr) (simp add: dictRehash_def split: if_splits)

lemma rehash_rounds_ok:
  assumes "dict_ok d"
  shows "\<exists>d' n. rehash_rounds expired i d = Some (d', n) \<and> dict_ok d' \<and> same_contents d d' \<and> i * 100 \<le> n \<and>
    n \<le> (i + rehash_left d) * 100 \<and> ((\<forall>j. \<not> expired j) \<longrightarrow> \<not> dictIsRehashing d')"
  using assms
proof (induction "rehash_left d" arbitrary: d i rule: less_induct)
  case less
  obtain d1 more where r: "dictRehash d 100 = Some (d1, more)" "dict_ok d1" "same_contents d d1" "more = dictIsRehashing d1"
    "dictIsRehashing d \<and> 100 > (0 :: nat) \<longrightarrow> rehash_left d1 < rehash_left d"
    using dictRehash_ok [OF less.prems, of 100, simplified] by auto
  show ?case
  proof (cases "more \<and> \<not> expired (Suc i)")
    case False
    have "more \<Longrightarrow> dictIsRehashing d" using r(1) dictRehash_idle by simp
    then have "more \<Longrightarrow> 0 < rehash_left d" by (simp add: rehash_left_def)
    then show ?thesis using False r by (subst rehash_rounds.simps) auto
  next
    case True
    then have "dictIsRehashing d" using r(1) dictRehash_idle by simp
    then have lt: "rehash_left d1 < rehash_left d" using r(5) by simp
    have "rehash_rounds expired i d = rehash_rounds expired (Suc i) d1"
      using True r(1) by (subst rehash_rounds.simps) simp
    moreover obtain d' n where "rehash_rounds expired (Suc i) d1 = Some (d', n)" "dict_ok d'" "same_contents d1 d'"
      "Suc i * 100 \<le> n" "n \<le> (Suc i + rehash_left d1) * 100" "(\<forall>j. \<not> expired j) \<longrightarrow> \<not> dictIsRehashing d'"
      using less.hyps [OF lt r(2), of "Suc i"] by (elim exE conjE) (rule that)
    ultimately show ?thesis using lt same_contents_trans [OF r(3)] by auto
  qed
qed

subsection \<open>Properties\<close>

text \<open>
  C4. Any sequence of lookups, insertions, replacements and deletions on a new dictionary, with
  rehashing and resizing work anywhere in between, runs without touching memory outside the
  bucket arrays and gives the answers of a finite map. The requests are bounded by \<open>2 ^ 60\<close> buckets and \<open>2 ^ 59\<close> calls: beyond
  that the size of a table in bytes overflows, see the property after this one.
\<close>

theorem dict_run_refines:
  assumes "type_ok t" and "length ops \<le> 2 ^ 59" and "\<forall>w. KvTick w \<in> set ops \<longrightarrow> work_ok w"
  shows "\<exists>d rs. run_ops (kv_step dictFetchValue (dictAdd can_resize uninit) (dictReplace can_resize uninit) dictDelete dict_tick)
      (dictCreate t) ops = Some (d, rs) \<and> dict_ok d \<and>
    run_spec (kv_spec_step (map_upd t) (type_copy t)) (\<lambda>_. None) ops = (dict_lookup d, rs)"
proof -
  have "typed t (dictCreate t)" "dict_lookup (dictCreate t) = (\<lambda>_. None)"
    using dictCreate_ok [OF assms(1)] by (simp_all add: typed_def dictCreate_def)
  moreover have "dictSize (dictCreate t) + length ops \<le> 2 ^ 59"
    using assms(2) by (simp add: dictSize_def dictCreate_def)
  ultimately show ?thesis using dictMap.run_refines [of t "dictCreate t" ops can_resize uninit] assms(3) by (auto simp: typed_def)
qed

definition word_type :: "(u64, int) dictType" where
  "word_type = \<lparr>hashFunction = (\<lambda>k. k), keyDup = None, valDup = None, keyCompare = None\<rparr>"

lemma word_type_ok: "type_ok word_type"
  by (simp add: type_ok_def tsame_def word_type_def)

theorem dict_run_refines_witness:
  "\<exists>d. run_ops (kv_step dictFetchValue (dictAdd True 0) (dictReplace True 0) dictDelete dict_tick) (dictCreate word_type)
      [KvAdd 1 10, KvAdd 5 50, KvAdd 9 90, KvPut 5 51, KvAdd 2 20, KvAdd 3 30, KvTick (Rehash 1),
       KvAdd 1 11, KvDel 9, KvTick (Expand 64), KvGet 9, KvGet 5, KvGet 1] =
     Some (d, [KvFlag True, KvFlag True, KvFlag True, KvFlag False, KvFlag True, KvFlag True, KvDone,
       KvFlag False, KvFlag True, KvDone, KvVal None, KvVal (Some 51), KvVal (Some 10)])"
  using dict_run_refines [OF word_type_ok, of "[KvAdd 1 10, KvAdd 5 50, KvAdd 9 90, KvPut 5 51, KvAdd 2 20, KvAdd 3 30,
    KvTick (Rehash 1), KvAdd 1 11, KvDel 9, KvTick (Expand 64), KvGet 9, KvGet 5, KvGet 1]" True 0]
  by (auto simp: kv_spec_step_def map_upd_def type_copy_def tsame_def word_type_def work_ok_def)

text \<open>
  C12. \<^verbatim>\<open>dictExpand\<close> does not check that the size of the new table fits: for every request above \<open>2 ^ 60\<close> buckets on a new dictionary it reports
  success, but the number of bytes wraps around to zero, and the first insertion, of any key, accesses a bucket outside of the allocation.
\<close>

theorem dictExpand_size_wraps:
  assumes "2 ^ 60 < n" and "n < 2 ^ 64"
  shows "\<exists>d. dictExpand (dictCreate t) n = (d, True) \<and> ht_size (ht0 d) \<ge> 2 ^ 61 \<and> dictAdd can_resize uninit d k v = None"
proof -
  let ?s = "dictNextPower n"
  have s: "\<exists>m. ?s = 2 ^ m \<and> 61 \<le> m" by (rule dictNextPower_large [OF assms(1)])
  then have "?s * 8 mod 2 ^ 64 = 0" by (auto simp: le_iff_add power_add)
  then have tab: "zcalloc_table ?s = []" by (simp add: zcalloc_table_def)
  have "2 ^ 61 \<le> (2 :: nat) ^ m" if "61 \<le> m" for m using that by (intro power_increasing) simp_all
  then have pos: "?s \<noteq> 0" "2 ^ 61 \<le> ?s" using s by auto
  define d where "d = (dictCreate t)\<lparr>ht0 := \<lparr>ht_table = [], ht_size = ?s, ht_sizemask = of_nat ?s - 1, ht_used = 0\<rparr>\<rparr>"
  have e: "dictExpand (dictCreate t) n = (d, True)"
    using pos(1) tab by (simp add: dictExpand_def dictCreate_def dictReset_def dictIsRehashing_def d_def Let_def)
  have "dictExpandIfNeeded can_resize d = (d, True)"
    using pos(1) by (simp add: dictExpandIfNeeded_def d_def dictCreate_def dictReset_def dictIsRehashing_def)
  then have "dictKeyIndex can_resize d k h = None" for h by (simp add: dictKeyIndex_def d_def ht_get_def)
  moreover have "\<not> dictIsRehashing d" by (simp add: d_def dictCreate_def dictIsRehashing_def)
  ultimately have "dictAdd can_resize uninit d k v = None" by (simp add: dictAdd_def dictAddRaw_def)
  then show ?thesis using e pos(2) by (auto simp: d_def)
qed

theorem dictExpand_size_wraps_witness:
  "\<exists>d. dictExpand (dictCreate word_type) 1152921504606846977 = (d, True) \<and> dictAdd True 0 d 7 70 = None"
  using dictExpand_size_wraps [of 1152921504606846977 word_type True 0 7 70] by auto

text \<open>
  C5. \<^verbatim>\<open>dictRehashMilliseconds\<close> always returns. It keeps every entry, and if the time slice is long
  enough the incremental rehash is complete, after at most one round of 100 buckets per remaining bucket.
\<close>

theorem dictRehashMilliseconds_returns:
  assumes "dict_ok d"
  shows "\<exists>d' n. dictRehashMilliseconds expired d = Some (d', n) \<and> dict_ok d' \<and> mset (entries d') = mset (entries d) \<and>
    dict_lookup d' = dict_lookup d \<and> n \<le> rehash_left d * 100 \<and> ((\<forall>i. \<not> expired i) \<longrightarrow> \<not> dictIsRehashing d')"
proof -
  obtain d' n where r: "rehash_rounds expired 0 d = Some (d', n)" "dict_ok d'" "same_contents d d'"
    "n \<le> (0 + rehash_left d) * 100" "(\<forall>j. \<not> expired j) \<longrightarrow> \<not> dictIsRehashing d'"
    using rehash_rounds_ok [OF assms, of expired 0] by blast
  then show ?thesis using same_contents_lookup [OF assms r(2,3)] same_contentsD(3) [OF r(3)]
    by (simp add: dictRehashMilliseconds_def)
qed

definition rehashing_dict :: "(u64, int) dict" where
  "rehashing_dict =
     \<lparr>d_type = word_type,
      ht0 = \<lparr>ht_table = [[], [(5, 50), (1, 10)], [], [(7, 70)]], ht_size = 4, ht_sizemask = 3, ht_used = 3\<rparr>,
      ht1 = \<lparr>ht_table = [[(8, 80)], [], [], [], [], [], [], []], ht_size = 8, ht_sizemask = 7, ht_used = 1\<rparr>,
      rehashidx = 1, iterators = 0\<rparr>"

lemma distinct_unique_keys: "distinct (map fst es) \<Longrightarrow> unique_keys word_type es"
proof -
  have "distinct (map fst es) \<Longrightarrow> length (filter (\<lambda>e. k = fst e) es) \<le> 1" for k :: u64
    by (induction es) (auto simp: filter_empty_conv)
  then show "distinct (map fst es) \<Longrightarrow> unique_keys word_type es"
    by (simp add: unique_keys_def tsame_def word_type_def)
qed

lemma all_less_4_8:
  "(\<forall>i < 4 :: nat. P i) \<longleftrightarrow> P 0 \<and> P 1 \<and> P 2 \<and> P 3"
  "(\<forall>i < 8 :: nat. P i) \<longleftrightarrow> P 0 \<and> P 1 \<and> P 2 \<and> P 3 \<and> P 4 \<and> P 5 \<and> P 6 \<and> P 7"
  by (simp_all add: All_less_Suc eval_nat_numeral conj_ac)

lemma rehashing_dict_ok: "dict_ok rehashing_dict"
proof -
  have "ht_ok word_type 2 (ht0 rehashing_dict)" "ht_ok word_type 3 (ht1 rehashing_dict)"
    by (simp_all add: ht_ok_def word_type_def rehashing_dict_def ht_entries_def all_less_4_8 mask_numeral)
  moreover have "rehashidx rehashing_dict = 1" "d_type rehashing_dict = word_type" "ht_table (ht0 rehashing_dict) ! 0 = []"
    by (simp_all add: rehashing_dict_def)
  ultimately have "rehash_ok rehashing_dict" unfolding rehash_ok_def dictIsRehashing_def
    by auto
  then show ?thesis using word_type_ok
    by (auto simp: dict_ok_def rehashing_dict_def entries_def ht_entries_def intro!: distinct_unique_keys)
qed

theorem dictRehashMilliseconds_returns_witness:
  "\<exists>d' n. dictRehashMilliseconds (\<lambda>_. False) rehashing_dict = Some (d', n) \<and> n \<le> 400 \<and> \<not> dictIsRehashing d' \<and>
    dict_lookup d' 5 = Some 50"
proof -
  have "rehash_left rehashing_dict * 100 = 400" "dict_lookup rehashing_dict 5 = Some 50"
    by (simp_all add: rehashing_dict_def rehash_left_def dictIsRehashing_def dict_lookup_def entries_def ht_entries_def
      sameKey_tsame tsame_def word_type_def)
  then show ?thesis using dictRehashMilliseconds_returns [OF rehashing_dict_ok, of "\<lambda>_. False"] by auto
qed

text \<open>
  C6. \<^verbatim>\<open>dictEmpty\<close> frees every entry exactly once, in both tables, although its loops stop as soon
  as the entry count reaches zero, and leaves a usable empty dictionary.
\<close>

theorem dictEmpty_frees_all:
  assumes "dict_ok d"
  shows "\<exists>d'. dictEmpty d = (d', entries d) \<and> dict_ok d' \<and> dictSize d' = 0 \<and> dict_lookup d' = (\<lambda>_. None)"
  by (rule dictEmpty_ok [OF assms])

theorem dictEmpty_frees_all_witness:
  "\<exists>d'. dictEmpty rehashing_dict = (d', [(5, 50), (1, 10), (7, 70), (8, 80)]) \<and> dictSize d' = 0"
  using dictEmpty_frees_all [OF rehashing_dict_ok] by (auto simp: rehashing_dict_def entries_def ht_entries_def)

end
