(* ===== verification/Dict_Cursor.thy ===== *)
theory Dict_Cursor
  imports Prelude
begin

text \<open>
  The cursor of \<^verbatim>\<open>dictScan\<close>: it is incremented on its reversed bits, so that it stays meaningful
  when the table grows or shrinks between two calls. This theory has the function \<^verbatim>\<open>rev\<close>
  of \<^verbatim>\<open>dict.c\<close> and the arithmetic of the reversed cursor.
\<close>

unbundle bit_operations_syntax

text \<open>The exchange of adjacent groups of \<open>s\<close> bits in the body of the loop.\<close>

definition rev_round :: "nat \<Rightarrow> u64 \<Rightarrow> u64 \<Rightarrow> u64" where
  "rev_round s msk v = (drop_bit s v AND msk) OR (push_bit s v AND NOT msk)"

text \<open>The loop of \<^verbatim>\<open>rev\<close>, with its variables \<^verbatim>\<open>s\<close> and \<^verbatim>\<open>mask\<close>.\<close>

function rev_loop :: "nat \<Rightarrow> u64 \<Rightarrow> u64 \<Rightarrow> u64" where
  "rev_loop s msk v =
     (let s = s div 2 in
      if s > 0 then
        let msk = msk XOR push_bit s msk
        in rev_loop s msk (rev_round s msk v)
      else v)"
  by pat_completeness auto
termination by (relation "measure fst") auto

declare rev_loop.simps [simp del]

definition rev_bits :: "u64 \<Rightarrow> u64" where
  "rev_bits v = rev_loop 64 (NOT 0) v"

subsection \<open>Reversing the bits\<close>

text \<open>One round exchanges each bit with the one at distance \<open>s\<close> in the adjacent group of \<open>s\<close> bits.\<close>

definition swap_index :: "nat \<Rightarrow> nat \<Rightarrow> nat" where
  "swap_index s i = (if even (i div s) then i + s else i - s)"

primrec flip_index :: "nat \<Rightarrow> nat \<Rightarrow> nat" where
  "flip_index 0 i = i"
| "flip_index (Suc j) i = swap_index (2 ^ j) (flip_index j i)"

text \<open>The masks of the loop: alternating groups of \<open>s\<close> ones and zeros.\<close>

definition group_mask :: "nat \<Rightarrow> u64 \<Rightarrow> bool" where
  "group_mask s msk \<longleftrightarrow> (\<forall>i < 64. bit msk i = even (i div s))"

lemma parity_halves: "(even (n div 2) \<noteq> (1 \<le> n \<and> even ((n - 1) div 2))) = even (n :: nat)"
  by presburger

lemma group_mask_halve:
  assumes m: "group_mask (2 * s) msk" and s: "s > 0"
  shows "group_mask s (msk XOR push_bit s msk)"
  unfolding group_mask_def
proof (intro allI impI)
  fix i :: nat assume i: "i < 64"
  have d: "i div (2 * s) = i div s div 2" by (simp add: div_mult2_eq mult.commute)
  have d': "(i - s) div (2 * s) = (i div s - 1) div 2" if "s \<le> i"
    using that s le_div_geq [of s i] by (simp add: div_mult2_eq mult.commute [of 2])
  have "s \<le> i \<longleftrightarrow> 1 \<le> i div s" using s by (simp add: Suc_le_eq div_greater_zero_iff)
  then have "bit (msk XOR push_bit s msk) i = (even (i div s div 2) \<noteq> (1 \<le> i div s \<and> even ((i div s - 1) div 2)))"
    using m i d d' by (auto simp: bit_simps group_mask_def)
  also have "\<dots> = even (i div s)"
    by (rule parity_halves)
  finally show "bit (msk XOR push_bit s msk) i = even (i div s)" .
qed

lemma round_bit:
  assumes m: "group_mask s msk" and s: "s > 0" and i: "i < 64"
  shows "bit (rev_round s msk v) i = bit v (swap_index s i)"
proof -
  have b: "bit msk i = even (i div s)" using m i by (simp add: group_mask_def)
  have "odd (i div s) \<Longrightarrow> s \<le> i" by (metis div_less even_zero not_less)
  then show ?thesis using i b
    by (auto simp: rev_round_def bit_simps swap_index_def add.commute)
qed

lemma swap_index_flip: "swap_index (2 ^ j) i = flip_bit j i"
proof (cases "bit i j")
  case True
  have "i = set_bit j (unset_bit j i)" using True by (intro bit_eqI) (auto simp: bit_simps)
  also have "\<dots> = unset_bit j i + 2 ^ j" by (simp add: set_bit_eq bit_simps)
  finally have "i - 2 ^ j = unset_bit j i" by simp
  then show ?thesis using True by (simp add: swap_index_def flip_bit_eq_if bit_iff_odd)
next
  case False
  then show ?thesis by (simp add: swap_index_def flip_bit_eq_if set_bit_eq bit_iff_odd)
qed

lemma bit_flip_index: "bit (flip_index j i) n = (bit i n \<noteq> (n < j))"
  by (induction j) (auto simp: swap_index_flip bit_flip_bit_iff less_Suc_eq)

lemma bit_less_64: "i < 64 \<Longrightarrow> bit (i :: nat) n \<Longrightarrow> n < 6"
proof -
  assume "i < 64" and b: "bit i n"
  then have "take_bit 6 i = i" by (simp add: take_bit_nat_eq_self_iff)
  with b show "n < 6" using bit_take_bit_iff [of 6 i n] by simp
qed

lemma flip_index_64:
  assumes "j \<le> 6" and "i < 64"
  shows "flip_index j i < 64"
proof -
  have "bit i n \<Longrightarrow> n < 6" for n by (rule bit_less_64 [OF assms(2)])
  then have "take_bit 6 (flip_index j i) = flip_index j i"
    using assms(1) by (intro bit_eqI) (auto simp: bit_take_bit_iff bit_flip_index)
  then show ?thesis using take_bit_nat_eq_self_iff [of 6 "flip_index j i"] by simp
qed

lemma flip_index_6:
  assumes "i < 64"
  shows "flip_index 6 i = 63 - i"
proof -
  have b: "bit i n \<Longrightarrow> n < 6" for n by (rule bit_less_64 [OF assms])
  then have "flip_index 6 i + i = flip_index 6 i OR i"
    by (intro disjunctive_add_eq_or bit_eqI) (auto simp: bit_flip_index bit_simps)
  also have "\<dots> = mask 6"
    using b by (intro bit_eqI) (auto simp: bit_simps bit_flip_index)
  finally show ?thesis by (simp add: mask_eq_exp_minus_1)
qed
lemma rev_loop_bit:
  assumes "group_mask (2 ^ j) msk" and "j \<le> 6" and "i < 64"
  shows "bit (rev_loop (2 ^ j) msk v) i = bit v (flip_index j i)"
  using assms
proof (induction j arbitrary: msk v)
  case 0
  then show ?case by (simp add: rev_loop.simps [of "Suc 0"])
next
  case (Suc j)
  let ?m = "msk XOR push_bit (2 ^ j) msk"
  have m: "group_mask (2 ^ j) ?m" using group_mask_halve [of "2 ^ j" msk] Suc.prems by simp
  have "rev_loop (2 ^ Suc j) msk v = rev_loop (2 ^ j) ?m (rev_round (2 ^ j) ?m v)"
    by (subst rev_loop.simps) (simp add: Let_def)
  then have "bit (rev_loop (2 ^ Suc j) msk v) i = bit (rev_round (2 ^ j) ?m v) (flip_index j i)"
    using Suc.IH [OF m] Suc.prems by simp
  also have "\<dots> = bit v (swap_index (2 ^ j) (flip_index j i))"
    using m Suc.prems by (intro round_bit) (simp_all add: flip_index_64)
  finally show ?case by simp
qed

lemma bit_rev_bits: "bit (rev_bits v) i \<longleftrightarrow> i < 64 \<and> bit v (63 - i)"
proof (cases "i < 64")
  case True
  have "group_mask (2 ^ 6) (NOT 0)" by (simp add: group_mask_def bit_simps)
  from rev_loop_bit [OF this _ True, of v] True show ?thesis by (simp add: rev_bits_def flip_index_6)
qed (simp add: bit_word.rep_eq)

lemma rev_bits_rev_bits [simp]: "rev_bits (rev_bits v) = v"
  by (rule bit_word_eqI) (auto simp: bit_rev_bits)

subsection \<open>Positions\<close>

text \<open>
  The position of a cursor, or of a hash, is the number its reversed bits spell. A table of
  \<open>2 ^ m\<close> buckets divides the positions into intervals of length \<open>2 ^ (64 - m)\<close>, one per bucket.
\<close>

definition rcur :: "u64 \<Rightarrow> nat" where
  "rcur v = unat (rev_bits v)"

definition nxt :: "nat \<Rightarrow> nat \<Rightarrow> nat" where
  "nxt k r = (r div 2 ^ k + 1) * 2 ^ k"

lemma rcur_less: "rcur v < 2 ^ 64"
  using unsigned_less [of "rev_bits v", where ?'a = nat] by (simp add: rcur_def)

lemma rev_or_not_mask: "m \<le> 64 \<Longrightarrow> rev_bits (v OR NOT (mask m)) = rev_bits v OR mask (64 - m)"
  by (rule bit_word_eqI) (auto simp: bit_rev_bits bit_simps)

lemma or_mask_nat: "(n :: nat) OR mask k = n div 2 ^ k * 2 ^ k + (2 ^ k - 1)"
proof -
  have "n OR mask k = push_bit k (drop_bit k n) OR mask k"
    by (rule bit_eqI) (auto simp: bit_simps)
  also have "\<dots> = push_bit k (drop_bit k n) + mask k"
    by (intro disjunctive_add_eq_or [symmetric] bit_eqI) (auto simp: bit_simps)
  finally show ?thesis by (simp add: push_bit_eq_mult drop_bit_eq_div mask_eq_exp_minus_1)
qed

lemma unat_add_u64: "unat (a + b :: u64) = (unat a + unat b) mod 2 ^ 64"
  by (simp add: unsigned_word_eqI unat_word_ariths)

lemma unat_mask_u64: "k \<le> 64 \<Longrightarrow> unat (mask k :: u64) = mask k"
  by (rule bit_eqI) (auto simp: bit_simps)

lemma next_cursor:
  assumes "m \<le> 64" and "0 < m"
  shows "rcur (rev_bits (rev_bits (v OR NOT (mask m)) + 1)) = nxt (64 - m) (rcur v) mod 2 ^ 64"
proof -
  have "unat (rev_bits v OR mask (64 - m)) = unat (rev_bits v) OR mask (64 - m)"
    using assms by (simp add: unsigned_or_eq unat_mask_u64)
  then have "unat (rev_bits (v OR NOT (mask m)) + 1) = (rcur v div 2 ^ (64 - m) * 2 ^ (64 - m) + (2 ^ (64 - m) - 1) + 1) mod 2 ^ 64"
    using assms by (simp add: rev_or_not_mask or_mask_nat rcur_def unat_add_u64)
  then show ?thesis by (simp add: rcur_def nxt_def add.commute)
qed

lemma unat_drop_bit_u64: "unat (drop_bit k (w :: u64)) = unat w div 2 ^ k"
proof -
  have "unat w < 2 ^ 64" using unsigned_less [of w, where ?'a = nat] by simp
  then have "take_bit 64 (unat w) = unat w" by (simp add: take_bit_nat_eq_self_iff)
  then have "unat (drop_bit k w) = drop_bit k (unat w)" by (simp add: unsigned_drop_bit_eq)
  then show ?thesis by (simp only: drop_bit_eq_div)
qed

lemma bucket_position:
  assumes "m \<le> 64"
  shows "h AND mask m = v AND mask m \<longleftrightarrow> rcur h div 2 ^ (64 - m) = rcur v div 2 ^ (64 - m)"
proof -
  have "h AND mask m = v AND mask m \<longleftrightarrow> drop_bit (64 - m) (rev_bits h) = drop_bit (64 - m) (rev_bits v)"
  proof
    assume a: "h AND mask m = v AND mask m"
    have "n < m \<Longrightarrow> bit h n = bit v n" for n
      using arg_cong [OF a, of "\<lambda>w. bit w n"] assms by (simp add: bit_simps)
    then show "drop_bit (64 - m) (rev_bits h) = drop_bit (64 - m) (rev_bits v)"
      using assms by (intro bit_word_eqI) (auto simp: bit_simps bit_rev_bits)
  next
    assume a: "drop_bit (64 - m) (rev_bits h) = drop_bit (64 - m) (rev_bits v)"
    have "bit h n = bit v n" if "n < m" for n
      using arg_cong [OF a, of "\<lambda>w. bit w (m - 1 - n)"] that assms by (auto simp: bit_simps bit_rev_bits)
    then show "h AND mask m = v AND mask m" by (intro bit_word_eqI) (auto simp: bit_simps)
  qed
  also have "\<dots> \<longleftrightarrow> unat (drop_bit (64 - m) (rev_bits h)) = unat (drop_bit (64 - m) (rev_bits v))"
    by (simp add: unsigned_word_eqI word_eq_iff_unsigned)
  finally show ?thesis unfolding rcur_def unat_drop_bit_u64 .
qed

lemma aligned_position:
  assumes "k \<le> 64"
  shows "2 ^ k dvd rcur v \<longleftrightarrow> (\<forall>n < k. \<not> bit v (63 - n))"
proof -
  have "2 ^ k dvd rcur v \<longleftrightarrow> take_bit k (rcur v) = 0" by (simp add: take_bit_eq_mod dvd_eq_mod_eq_0)
  also have "\<dots> \<longleftrightarrow> (\<forall>n < k. \<not> bit (rcur v) n)" by (auto simp: bit_eq_iff bit_simps)
  finally show ?thesis using assms by (auto simp: rcur_def bit_unsigned_iff bit_rev_bits)
qed

lemma mask_difference:
  assumes "m0 \<le> m1" and "m1 \<le> 64" and "2 ^ (64 - m1) dvd rcur v"
  shows "v AND (mask m0 XOR mask m1) = 0 \<longleftrightarrow> 2 ^ (64 - m0) dvd rcur v"
proof -
  have low: "\<forall>n < 64 - m1. \<not> bit v (63 - n)" using assms aligned_position [of "64 - m1"] by simp
  have "v AND (mask m0 XOR mask m1) = 0 \<longleftrightarrow> (\<forall>n. m0 \<le> n \<and> n < m1 \<longrightarrow> \<not> bit v n)"
  proof
    assume a: "v AND (mask m0 XOR mask m1) = 0"
    show "\<forall>n. m0 \<le> n \<and> n < m1 \<longrightarrow> \<not> bit v n"
    proof (intro allI impI)
      fix n assume "m0 \<le> n \<and> n < m1"
      then show "\<not> bit v n" using arg_cong [OF a, of "\<lambda>w. bit w n"] assms(2) by (simp add: bit_simps)
    qed
  next
    assume a: "\<forall>n. m0 \<le> n \<and> n < m1 \<longrightarrow> \<not> bit v n"
    then show "v AND (mask m0 XOR mask m1) = 0" using assms(1)
      by (intro bit_word_eqI) (auto simp: bit_simps dest: le_less_trans)
  qed
  also have "\<dots> \<longleftrightarrow> (\<forall>n < 64 - m0. \<not> bit v (63 - n))"
  proof
    assume a: "\<forall>n. m0 \<le> n \<and> n < m1 \<longrightarrow> \<not> bit v n"
    show "\<forall>n < 64 - m0. \<not> bit v (63 - n)"
    proof (intro allI impI)
      fix n assume "n < 64 - m0"
      then have "n < 64 - m1 \<or> m0 \<le> 63 - n \<and> 63 - n < m1" using assms(2) by linarith
      then show "\<not> bit v (63 - n)" using low a by blast
    qed
  next
    assume a: "\<forall>n < 64 - m0. \<not> bit v (63 - n)"
    show "\<forall>n. m0 \<le> n \<and> n < m1 \<longrightarrow> \<not> bit v n"
    proof (intro allI impI)
      fix n assume "m0 \<le> n \<and> n < m1"
      then have "63 - n < 64 - m0" "63 - (63 - n) = n" using assms(2) by linarith+
      then show "\<not> bit v n" using a by metis
    qed
  qed
  finally show ?thesis using aligned_position [of "64 - m0" v] by simp
qed

subsection \<open>Intervals\<close>

lemma nxt_gt: "r < nxt k r"
proof -
  have "r mod 2 ^ k < 2 ^ k" by simp
  then show ?thesis unfolding nxt_def distrib_right mult_1 using div_mult_mod_eq [of r "2 ^ k"] by linarith
qed

lemma nxt_dvd [simp]: "2 ^ k dvd nxt k r"
  by (simp add: nxt_def)

lemma nxt_least: "2 ^ k dvd x \<Longrightarrow> r < x \<Longrightarrow> nxt k r \<le> x"
proof (elim dvdE)
  fix q assume "r < x" and x: "x = 2 ^ k * q"
  then have "r div 2 ^ k < q" by (simp add: less_mult_imp_div_less mult.commute)
  then have "(r div 2 ^ k + 1) * 2 ^ k \<le> q * 2 ^ k" by (intro mult_le_mono1) simp
  then show ?thesis using x by (simp add: nxt_def mult.commute)
qed

lemma nxt_le: "k \<le> 64 \<Longrightarrow> nxt k (rcur v) \<le> 2 ^ 64"
  by (intro nxt_least le_imp_power_dvd rcur_less)

lemma nxt_block: "r \<le> x \<Longrightarrow> x < nxt k r \<Longrightarrow> x div 2 ^ k = r div 2 ^ k"
proof -
  assume "r \<le> x" and "x < nxt k r"
  then have "r div 2 ^ k \<le> x div 2 ^ k" "x div 2 ^ k < r div 2 ^ k + 1"
    by (simp_all add: div_le_mono nxt_def less_mult_imp_div_less)
  then show ?thesis by simp
qed

lemma nxt_nested: "k1 \<le> k0 \<Longrightarrow> nxt k1 r \<le> nxt k0 r"
  by (rule nxt_least) (auto intro: nxt_gt dvd_trans [OF le_imp_power_dvd])

lemma nxt_inside: "r \<le> x \<Longrightarrow> x < nxt k r \<Longrightarrow> nxt k x = nxt k r"
  by (simp add: nxt_def nxt_block)

lemma nxt_not_dvd: "r < x \<Longrightarrow> x < nxt k r \<Longrightarrow> \<not> 2 ^ k dvd x"
  using nxt_least by (meson not_le)

end
