(* ===== verification/Dict_Scan.thy ===== *)
theory Dict_Scan
  imports Dict_Map Dict_Cursor
begin

text \<open>
  \<^verbatim>\<open>dictScan\<close>: a full scan, whatever happens to the table between the calls, reports every
  element that is present all the time, and comes to an end.
\<close>

unbundle bit_operations_syntax

subsection \<open>Definitions\<close>

text \<open>
  \<^verbatim>\<open>dictScan\<close> with \<^verbatim>\<open>bucketfn\<close> null: the entries handed to \<^verbatim>\<open>fn\<close>, in order, and the next cursor.
  The do-while loop over the expansions of a bucket in the larger table is \<open>scan_loop\<close>.
\<close>

partial_function (option) scan_loop ::
  "('k, 'v) dictht \<Rightarrow> u64 \<Rightarrow> u64 \<Rightarrow> u64 \<Rightarrow> (('k, 'v) dictEntry list \<times> u64) option" where
  "scan_loop t1 m0 m1 v =
     do { b \<leftarrow> ht_get t1 (v AND m1);
          let v = rev_bits (rev_bits (v OR NOT m1) + 1);
          if v AND (m0 XOR m1) \<noteq> 0
          then do { (es, v) \<leftarrow> scan_loop t1 m0 m1 v; Some (b @ es, v) }
          else Some (b, v) }"

declare scan_loop.simps [code]

definition dictScan :: "('k, 'v) dict \<Rightarrow> u64 \<Rightarrow> (('k, 'v) dictEntry list \<times> u64) option" where
  "dictScan d v =
     (if dictSize d = 0 then Some ([], 0)
      else if \<not> dictIsRehashing d then
        do { let m0 = ht_sizemask (ht0 d);
             b \<leftarrow> ht_get (ht0 d) (v AND m0);
             let v = v OR NOT m0;
             let v = rev_bits v;
             let v = v + 1;
             let v = rev_bits v;
             Some (b, v) }
      else
        do { let (t0, t1) = (if ht_size (ht0 d) > ht_size (ht1 d) then (ht1 d, ht0 d) else (ht0 d, ht1 d));
             let m0 = ht_sizemask t0;
             let m1 = ht_sizemask t1;
             b \<leftarrow> ht_get t0 (v AND m0);
             (es, v) \<leftarrow> scan_loop t1 m0 m1 v;
             Some (b @ es, v) })"

subsection \<open>One call\<close>

text \<open>The position of an entry is that of its hash.\<close>

definition epos :: "('k, 'v) dictType \<Rightarrow> ('k, 'v) dictEntry \<Rightarrow> nat" where
  "epos t e = rcur (hashFunction t (fst e))"

lemma bucket_covers:
  assumes ok: "ht_ok t m ht"
  shows "\<exists>b. ht_get ht (v AND ht_sizemask ht) = Some b \<and> set b \<subseteq> set (ht_entries ht) \<and>
    (\<forall>e \<in> set (ht_entries ht). rcur v \<le> epos t e \<and> epos t e < nxt (64 - m) (rcur v) \<longrightarrow> e \<in> set b)"
proof -
  let ?i = "unat (v AND mask m)"
  have il: "?i < length (ht_table ht)" using ht_okD(2,5) [OF ok] by (simp add: unat_and_mask_less)
  have "e \<in> set (ht_table ht ! ?i)"
    if e: "e \<in> set (ht_entries ht)" and p: "rcur v \<le> epos t e" "epos t e < nxt (64 - m) (rcur v)" for e
  proof -
    obtain j where j: "j < 2 ^ m" "e \<in> set (ht_table ht ! j)"
      using e ht_okD(5) [OF ok] unfolding ht_entries_def set_concat by (metis UN_E in_set_conv_nth)
    have "hashFunction t (fst e) AND mask m = v AND mask m"
      using nxt_block [OF p] bucket_position [of m] ht_okD(2) [OF ok] by (simp add: epos_def)
    with ht_okD(7) [OF ok j] j(2) show ?thesis by simp
  qed
  then show ?thesis using ht_get_ok [OF ok, of v] nth_mem [OF il] by (auto simp: ht_entries_def)
qed

lemma scan_loop_covers:
  assumes ok: "ht_ok t m1 t1" and m: "0 < m0" "m0 \<le> m1"
  shows "\<exists>es v'. scan_loop t1 (mask m0) (mask m1) v = Some (es, v') \<and> set es \<subseteq> set (ht_entries t1) \<and>
    rcur v' = nxt (64 - m0) (rcur v) mod 2 ^ 64 \<and>
    (\<forall>e \<in> set (ht_entries t1). rcur v \<le> epos t e \<and> epos t e < nxt (64 - m0) (rcur v) \<longrightarrow> e \<in> set es)"
proof (induction "nxt (64 - m0) (rcur v) - rcur v" arbitrary: v rule: less_induct)
  case less
  let ?k0 = "64 - m0" and ?k1 = "64 - m1" and ?r = "rcur v"
  have m1: "m1 < 64" using ht_okD(2) [OF ok] .
  obtain b where b: "ht_get t1 (v AND mask m1) = Some b" "set b \<subseteq> set (ht_entries t1)"
    "\<And>e. e \<in> set (ht_entries t1) \<Longrightarrow> ?r \<le> epos t e \<Longrightarrow> epos t e < nxt ?k1 ?r \<Longrightarrow> e \<in> set b"
    using bucket_covers [OF ok, of v] ht_okD(4) [OF ok] by auto
  define v1 where "v1 = rev_bits (rev_bits (v OR NOT (mask m1)) + 1)"
  have r1: "rcur v1 = nxt ?k1 ?r mod 2 ^ 64" unfolding v1_def using m m1 by (intro next_cursor) auto
  have unf: "scan_loop t1 (mask m0) (mask m1) v =
      (if v1 AND (mask m0 XOR mask m1) \<noteq> 0
       then do { (es, v) \<leftarrow> scan_loop t1 (mask m0) (mask m1) v1; Some (b @ es, v) } else Some (b, v1))"
    using b(1) by (subst scan_loop.simps) (simp add: v1_def Let_def)
  have nest: "nxt ?k1 ?r \<le> nxt ?k0 ?r" using m by (intro nxt_nested) simp
  have le: "nxt ?k0 ?r \<le> 2 ^ 64" by (rule nxt_le) simp
  have "2 ^ ?k1 dvd nxt ?k1 ?r mod 2 ^ 64" by (intro dvd_mod nxt_dvd le_imp_power_dvd) simp
  then have stop: "v1 AND (mask m0 XOR mask m1) = 0 \<longleftrightarrow> 2 ^ ?k0 dvd rcur v1"
    using m m1 r1 by (intro mask_difference) auto
  show ?case
  proof (cases "nxt ?k1 ?r = nxt ?k0 ?r")
    case True
    have "2 ^ ?k0 dvd nxt ?k0 ?r mod 2 ^ 64" by (intro dvd_mod nxt_dvd le_imp_power_dvd) simp
    then have "v1 AND (mask m0 XOR mask m1) = 0" using stop r1 True by simp
    then show ?thesis using unf b True r1 by auto
  next
    case False
    then have lt: "nxt ?k1 ?r < nxt ?k0 ?r" using nest by simp
    then have r1': "rcur v1 = nxt ?k1 ?r" using r1 le by simp
    have "v1 AND (mask m0 XOR mask m1) \<noteq> 0" using stop r1' nxt_not_dvd [OF nxt_gt lt] by simp
    then have unf': "scan_loop t1 (mask m0) (mask m1) v =
        do { (es, v) \<leftarrow> scan_loop t1 (mask m0) (mask m1) v1; Some (b @ es, v) }" using unf by simp
    have in0: "nxt ?k0 (rcur v1) = nxt ?k0 ?r"
      unfolding r1' using lt nxt_gt [of ?r ?k1] by (intro nxt_inside) auto
    then have "nxt ?k0 (rcur v1) - rcur v1 < nxt ?k0 ?r - ?r"
      using r1' nxt_gt [of ?r ?k1] lt by (simp add: diff_less_mono2)
    from less.hyps [OF this] obtain es v' where l: "scan_loop t1 (mask m0) (mask m1) v1 = Some (es, v')" "set es \<subseteq> set (ht_entries t1)"
      "rcur v' = nxt ?k0 ?r mod 2 ^ 64"
      "\<forall>e \<in> set (ht_entries t1). nxt ?k1 ?r \<le> epos t e \<and> epos t e < nxt ?k0 ?r \<longrightarrow> e \<in> set es"
      unfolding r1' in0 [unfolded r1'] by (elim exE conjE) (rule that)
    have "e \<in> set (b @ es)" if "e \<in> set (ht_entries t1)" "?r \<le> epos t e" "epos t e < nxt ?k0 ?r" for e
      using that b(3) [OF that(1,2)] l(4) by (cases "epos t e < nxt ?k1 ?r") auto
    then show ?thesis using unf' b(2) l(1-3) by (intro exI [of _ "b @ es"] exI [of _ v']) auto
  qed
qed


lemma dictScan_covers:
  assumes ok: "dict_ok d" and ne: "entries d \<noteq> []" and t: "d_type d = t"
    and M: "ht_size (ht0 d) \<le> 2 ^ M" "ht_size (ht1 d) \<le> 2 ^ M"
  shows "\<exists>es v' k. dictScan d v = Some (es, v') \<and> set es \<subseteq> set (entries d) \<and> 64 - M \<le> k \<and> k < 64 \<and>
    rcur v' = nxt k (rcur v) mod 2 ^ 64 \<and>
    (\<forall>e \<in> set (entries d). rcur v \<le> epos t e \<and> epos t e < nxt k (rcur v) \<longrightarrow> e \<in> set es)"
proof -
  have sz: "dictSize d \<noteq> 0" using ne dictSize_entries [OF ok] by simp
  have pow: "m \<le> M" if "2 ^ m \<le> (2 :: nat) ^ M" for m using that by (rule power_le_imp_le_exp [rotated]) simp
  show ?thesis
    using ok
  proof (cases rule: dict_ok_cases)
    case empty
    with ne show ?thesis by (simp add: entries_def)
  next
    case (single m)
    note h = ht_okD [OF single(2)]
    obtain b where b: "ht_get (ht0 d) (v AND mask m) = Some b" "set b \<subseteq> set (ht_entries (ht0 d))"
      "\<forall>e \<in> set (ht_entries (ht0 d)). rcur v \<le> epos t e \<and> epos t e < nxt (64 - m) (rcur v) \<longrightarrow> e \<in> set b"
      using bucket_covers [OF single(2), of v] h(4) t by auto
    have "64 - M \<le> 64 - m" using pow [of m] M(1) h(3) by simp
    moreover have "rcur (rev_bits (rev_bits (v OR NOT (mask m)) + 1)) = nxt (64 - m) (rcur v) mod 2 ^ 64"
      using h(1,2) by (intro next_cursor) auto
    moreover have "64 - m < 64" using h(1) by simp
    ultimately show ?thesis
      using b single(1,3) sz h(4)
      by (intro exI [of _ b] exI [of _ "rev_bits (rev_bits (v OR NOT (mask m)) + 1)"] exI [of _ "64 - m"])
        (simp add: dictScan_def Let_def entries_def)
  next
    case (rehashing m0 m1)
    define a where "a = (if ht_size (ht0 d) > ht_size (ht1 d) then (ht1 d, ht0 d) else (ht0 d, ht1 d))"
    obtain t0 t1 where a: "a = (t0, t1)" by (cases a)
    obtain n0 n1 where n: "ht_ok t n0 t0" "ht_ok t n1 t1" "n0 \<le> n1" "n0 \<le> M"
      and es: "set (entries d) = set (ht_entries t0) \<union> set (ht_entries t1)"
    proof (cases "ht_size (ht0 d) > ht_size (ht1 d)")
      case True
      then have "t0 = ht1 d" "t1 = ht0 d" using a a_def by simp_all
      moreover have "m1 \<le> m0" "m1 \<le> M"
        using True M(2) pow ht_okD(3) [OF rehashing(2)] ht_okD(3) [OF rehashing(3)] by simp_all
      ultimately show thesis using that [of m1 m0] rehashing(2,3) t by (auto simp: entries_def)
    next
      case False
      then have "t0 = ht0 d" "t1 = ht1 d" using a a_def by simp_all
      moreover have "m0 \<le> m1" "m0 \<le> M"
        using False M(1) pow ht_okD(3) [OF rehashing(2)] ht_okD(3) [OF rehashing(3)] by simp_all
      ultimately show thesis using that [of m0 m1] rehashing(2,3) t by (auto simp: entries_def)
    qed
    have n0: "0 < n0" using ht_okD(1) [OF n(1)] by simp
    obtain b where b: "ht_get t0 (v AND mask n0) = Some b" "set b \<subseteq> set (ht_entries t0)"
      "\<forall>e \<in> set (ht_entries t0). rcur v \<le> epos t e \<and> epos t e < nxt (64 - n0) (rcur v) \<longrightarrow> e \<in> set b"
      using bucket_covers [OF n(1), of v] ht_okD(4) [OF n(1)] by auto
    obtain es v' where l: "scan_loop t1 (mask n0) (mask n1) v = Some (es, v')" "set es \<subseteq> set (ht_entries t1)"
      "rcur v' = nxt (64 - n0) (rcur v) mod 2 ^ 64"
      "\<forall>e \<in> set (ht_entries t1). rcur v \<le> epos t e \<and> epos t e < nxt (64 - n0) (rcur v) \<longrightarrow> e \<in> set es"
      using scan_loop_covers [OF n(2) n0 n(3), of v] by (elim exE conjE) (rule that)
    have "dictScan d v = Some (b @ es, v')"
      using sz rehashing(1) b(1) l(1) ht_okD(4) [OF n(1)] ht_okD(4) [OF n(2)] a
      by (simp add: dictScan_def a_def [symmetric])
    moreover have "64 - M \<le> 64 - n0" "64 - n0 < 64" using n(4) n0 by simp_all
    ultimately show ?thesis using b(2,3) l(2-4) es
      by (intro exI [of _ "b @ es"] exI [of _ v'] exI [of _ "64 - n0"]) auto
  qed
qed

subsection \<open>A full scan\<close>

text \<open>
  The calls of a full scan: \<open>ds\<close> are the states the dictionary is in at the successive calls (other
  commands run in between), and the scan ends when the cursor is zero again.
\<close>

fun scan_calls :: "('k, 'v) dict list \<Rightarrow> u64 \<Rightarrow> (('k, 'v) dictEntry list \<times> u64) option" where
  "scan_calls [] v = Some ([], v)"
| "scan_calls (d # ds) v =
     do { (es, v) \<leftarrow> dictScan d v;
          if v = 0 then Some (es, 0)
          else do { (es', v') \<leftarrow> scan_calls ds v; Some (es @ es', v') } }"

lemma rcur_zero [simp]: "rcur v = 0 \<longleftrightarrow> v = 0"
proof -
  have "rev_bits 0 = 0" by (rule bit_word_eqI) (simp add: bit_rev_bits)
  then show ?thesis by (metis rcur_def rev_bits_rev_bits unsigned_0 unsigned_word_eqI)
qed

lemma rcur_0 [simp]: "rcur 0 = 0"
  by (simp only: rcur_zero)

lemma ht_size_exp: "dict_ok d \<Longrightarrow> \<exists>M. ht_size (ht0 d) \<le> 2 ^ M \<and> ht_size (ht1 d) \<le> 2 ^ M"
  by (rule exI [of _ "max (ht_size (ht0 d)) (ht_size (ht1 d))"])
    (meson less_exp less_imp_le max.bounded_iff max.cobounded1 max.cobounded2 order_trans)

lemma scan_calls_complete:
  assumes "\<forall>d \<in> set ds. dict_ok d \<and> d_type d = t \<and> dict_lookup d k \<noteq> None" and "type_ok t"
    and "scan_calls ds v = Some (es, 0)" and "ds \<noteq> [] \<or> v \<noteq> 0" and "rcur v \<le> rcur (hashFunction t k)"
  shows "\<exists>e \<in> set es. tsame t k (fst e)"
  using assms
proof (induction ds arbitrary: v es)
  case (Cons d ds)
  let ?h = "rcur (hashFunction t k)"
  have d: "dict_ok d" "d_type d = t" "dict_lookup d k \<noteq> None" using Cons.prems(1) by auto
  obtain e where e: "e \<in> set (entries d)" "tsame t k (fst e)" using d(2,3) lookup_None_iff [OF d(1), of k] by auto
  have pe: "epos t e = ?h" using type_okD(3) [OF assms(2) e(2)] by (simp add: epos_def)
  obtain M where M: "ht_size (ht0 d) \<le> 2 ^ M" "ht_size (ht1 d) \<le> 2 ^ M" using ht_size_exp [OF d(1)] by blast
  have "entries d \<noteq> []" using e by auto
  from dictScan_covers [OF d(1) this d(2) M, of v] obtain es1 v1 i where s: "dictScan d v = Some (es1, v1)" "i < 64"
    "rcur v1 = nxt i (rcur v) mod 2 ^ 64"
    "\<forall>e \<in> set (entries d). rcur v \<le> epos t e \<and> epos t e < nxt i (rcur v) \<longrightarrow> e \<in> set es1"
    by (elim exE conjE) (rule that)
  show ?case
  proof (cases "?h < nxt i (rcur v)")
    case True
    then have "e \<in> set es1" using s(4) e(1) pe Cons.prems(5) by simp
    moreover have "set es1 \<subseteq> set es" using s(1) Cons.prems(3) by (auto split: if_splits)
    ultimately show ?thesis using e(2) by auto
  next
    case False
    have "?h < 2 ^ 64" by (rule rcur_less)
    then have lt: "nxt i (rcur v) < 2 ^ 64" using False by simp
    then have r1: "rcur v1 = nxt i (rcur v)" using s(3) by simp
    then have "v1 \<noteq> 0" using nxt_gt [of "rcur v" i] rcur_zero [of v1] by simp
    then obtain es2 where es2: "scan_calls ds v1 = Some (es2, 0)" "es = es1 @ es2"
      using s(1) Cons.prems(3) by auto
    have "\<exists>e \<in> set es2. tsame t k (fst e)"
      using Cons.prems(1,2) es2(1) \<open>v1 \<noteq> 0\<close> r1 False by (intro Cons.IH) auto
    then show ?thesis using es2(2) by auto
  qed
qed simp

lemma scan_calls_end:
  assumes "\<forall>d \<in> set ds. dict_ok d \<and> ht_size (ht0 d) \<le> 2 ^ M \<and> ht_size (ht1 d) \<le> 2 ^ M" and "M \<le> 64"
    and "2 ^ (64 - M) dvd rcur v" and "2 ^ 64 \<le> rcur v + length ds * 2 ^ (64 - M)"
  shows "\<exists>es. scan_calls ds v = Some (es, 0)"
  using assms
proof (induction ds arbitrary: v)
  case Nil
  then show ?case using rcur_less [of v] by simp
next
  case (Cons d ds)
  have d: "dict_ok d" "ht_size (ht0 d) \<le> 2 ^ M" "ht_size (ht1 d) \<le> 2 ^ M" using Cons.prems(1) by auto
  show ?case
  proof (cases "entries d = []")
    case True
    then show ?thesis using dictSize_entries [OF d(1)] by (simp add: dictScan_def)
  next
    case False
    from dictScan_covers [OF d(1) this refl d(2,3), of v] obtain es1 v1 i where
      s: "dictScan d v = Some (es1, v1)" "64 - M \<le> i" "i < 64" "rcur v1 = nxt i (rcur v) mod 2 ^ 64"
      by (elim exE conjE) (rule that)
    show ?thesis
    proof (cases "v1 = 0")
      case True
      then show ?thesis using s(1) by simp
    next
      case v1: False
      have "nxt i (rcur v) \<noteq> 2 ^ 64" using v1 s(4) rcur_zero [of v1] by auto
      then have r1: "rcur v1 = nxt i (rcur v)" using s(4) nxt_le [of i v] s(3) by simp
      have dv: "2 ^ (64 - M) dvd rcur v1" unfolding r1 using s(2) by (intro dvd_trans [OF le_imp_power_dvd nxt_dvd])
      have "rcur v < rcur v1" unfolding r1 by (rule nxt_gt)
      then have "nxt (64 - M) (rcur v) \<le> rcur v1" using dv by (rule nxt_least [rotated])
      moreover have "nxt (64 - M) (rcur v) = rcur v + 2 ^ (64 - M)" using Cons.prems(3) by (auto simp: nxt_def elim!: dvdE)
      ultimately have "2 ^ 64 \<le> rcur v1 + length ds * 2 ^ (64 - M)" using Cons.prems(4) by simp
      then show ?thesis using Cons.IH [OF _ Cons.prems(2) dv] Cons.prems(1) s(1) v1 by auto
    qed
  qed
qed

subsection \<open>Properties\<close>

text \<open>
  C7. A scan from cursor 0 until the cursor is 0 again reports every key that is in the dictionary
  at each of its calls, whatever is added, removed, resized or rehashed between the calls.
\<close>

theorem dictScan_complete:
  assumes "\<forall>d \<in> set ds. dict_ok d \<and> d_type d = t \<and> dict_lookup d k \<noteq> None" and "type_ok t" and "ds \<noteq> []"
    and "scan_calls ds 0 = Some (es, 0)"
  shows "\<exists>e \<in> set es. tsame t k (fst e)"
proof (rule scan_calls_complete [OF assms(1,2,4)])
  show "ds \<noteq> [] \<or> (0 :: u64) \<noteq> 0" using assms(3) by simp
  show "rcur 0 \<le> rcur (hashFunction t k)" by simp
qed

definition grown_dict :: "(u64, int) dict" where
  "grown_dict = \<lparr>d_type = word_type,
     ht0 = \<lparr>ht_table = [[(8, 80)], [(1, 10)], [], [], [], [(5, 50)], [], [(7, 70)]], ht_size = 8, ht_sizemask = 7, ht_used = 4\<rparr>,
     ht1 = dictReset, rehashidx = - 1, iterators = 0\<rparr>"

lemma grown_dict_ok: "dict_ok grown_dict"
proof -
  have "ht_ok word_type 3 (ht0 grown_dict)"
    by (simp add: ht_ok_def word_type_def grown_dict_def ht_entries_def all_less_4_8 mask_numeral)
  moreover have "rehashidx grown_dict = - 1" "d_type grown_dict = word_type" "ht1 grown_dict = dictReset"
    by (simp_all add: grown_dict_def)
  ultimately have "rehash_ok grown_dict" unfolding rehash_ok_def dictIsRehashing_def by auto
  moreover have "unique_keys word_type (entries grown_dict)"
    by (rule distinct_unique_keys) (simp add: grown_dict_def entries_def ht_entries_def dictReset_def)
  ultimately show ?thesis using word_type_ok by (simp add: dict_ok_def grown_dict_def)
qed

text \<open>Two states of one dictionary: in the middle of a rehash from 4 to 8 buckets, and after it.\<close>

definition two_states :: "(u64, int) dict list" where
  "two_states = [rehashing_dict, grown_dict, rehashing_dict, grown_dict, grown_dict, grown_dict, grown_dict, grown_dict]"

lemma two_states_ok:
  "\<forall>d \<in> set two_states. dict_ok d \<and> ht_size (ht0 d) \<le> 2 ^ 3 \<and> ht_size (ht1 d) \<le> 2 ^ 3"
  using rehashing_dict_ok grown_dict_ok
  by (simp add: two_states_def) (simp add: rehashing_dict_def grown_dict_def dictReset_def)

lemma two_states_lookup: "\<forall>d \<in> set two_states. dict_ok d \<and> d_type d = word_type \<and> dict_lookup d 5 \<noteq> None"
  using rehashing_dict_ok grown_dict_ok
  by (simp add: two_states_def)
    (simp add: rehashing_dict_def grown_dict_def dict_lookup_def entries_def ht_entries_def sameKey_def)

theorem dictScan_complete_witness:
  "\<exists>es. scan_calls two_states 0 = Some (es, 0) \<and> (\<exists>v. (5, v) \<in> set es)"
proof -
  obtain es where es: "scan_calls two_states 0 = Some (es, 0)"
    using scan_calls_end [OF two_states_ok, of 0] by (auto simp: two_states_def)
  have "\<exists>e \<in> set es. tsame word_type 5 (fst e)"
    by (rule dictScan_complete [OF two_states_lookup word_type_ok _ es]) (simp add: two_states_def)
  then have "\<exists>v. (5, v) \<in> set es" by (auto simp: tsame_def word_type_def)
  with es show ?thesis by blast
qed

text \<open>
  C8. A scan ends: if no table has more than \<open>2 ^ M\<close> buckets during the scan, the cursor is back at 0 after
  at most \<open>2 ^ M\<close> calls, even when the tables change size between the calls.
\<close>

theorem dictScan_terminates:
  assumes "\<forall>d \<in> set ds. dict_ok d \<and> ht_size (ht0 d) \<le> 2 ^ M \<and> ht_size (ht1 d) \<le> 2 ^ M" and "M \<le> 64"
    and "2 ^ M \<le> length ds"
  shows "\<exists>es. scan_calls ds 0 = Some (es, 0)"
proof (rule scan_calls_end [OF assms(1,2)])
  have "(2 :: nat) ^ 64 = 2 ^ M * 2 ^ (64 - M)" using assms(2) by (simp flip: power_add)
  also have "\<dots> \<le> length ds * 2 ^ (64 - M)" using assms(3) by (rule mult_le_mono1)
  finally show "2 ^ 64 \<le> rcur 0 + length ds * 2 ^ (64 - M)" by simp
qed simp

theorem dictScan_terminates_witness: "\<exists>es. scan_calls two_states 0 = Some (es, 0)"
  by (rule dictScan_terminates [OF two_states_ok]) (simp_all add: two_states_def)

end
