(* ===== verification/Dict_Iter.thy ===== *)
theory Dict_Iter
  imports Dict_Map "HOL-Library.Countable"
begin

text \<open>
  The iterators and the sampling functions of \<^verbatim>\<open>dict.c\<close>.

  An iterator holds the rest of the chain it is in: \<open>it_entry\<close> is the chain from \<^verbatim>\<open>entry\<close> and \<open>it_next\<close>
  the chain from \<^verbatim>\<open>nextEntry\<close>, the empty list being the null pointer. The addresses of the bucket arrays,
  which only the fingerprint reads, and the results of \<^verbatim>\<open>random()\<close> are parameters.
\<close>

unbundle bit_operations_syntax

subsection \<open>Fingerprint\<close>

text \<open>One round of the mixing loop; \<^verbatim>\<open>>>\<close> on a \<^verbatim>\<open>long long\<close> is the arithmetic shift.\<close>

definition fingerprint_round :: "u64 \<Rightarrow> u64 \<Rightarrow> u64" where
  "fingerprint_round hash n =
     (let hash = hash + n;
          hash = NOT hash + push_bit 21 hash;
          hash = hash XOR signed_drop_bit 24 hash;
          hash = (hash + push_bit 3 hash) + push_bit 8 hash;
          hash = hash XOR signed_drop_bit 14 hash;
          hash = (hash + push_bit 2 hash) + push_bit 4 hash;
          hash = hash XOR signed_drop_bit 28 hash
      in hash + push_bit 31 hash)"

definition dictFingerprint :: "u64 \<Rightarrow> u64 \<Rightarrow> ('k, 'v) dict \<Rightarrow> u64" where
  "dictFingerprint addr0 addr1 d =
     foldl fingerprint_round 0
       [addr0, of_nat (ht_size (ht0 d)), of_nat (ht_used (ht0 d)),
        addr1, of_nat (ht_size (ht1 d)), of_nat (ht_used (ht1 d))]"

subsection \<open>Iterators\<close>

record ('k, 'v) dictIterator =
  it_index :: int
  it_table :: nat
  it_safe :: bool
  it_entry :: "('k, 'v) dictEntry list"
  it_next :: "('k, 'v) dictEntry list"
  it_fingerprint :: u64

text \<open>The fingerprint of a new iterator is not initialised: the parameter \<open>junk\<close>.\<close>

definition dictGetIterator :: "u64 \<Rightarrow> ('k, 'v) dictIterator" where
  "dictGetIterator junk =
     \<lparr>it_index = - 1, it_table = 0, it_safe = False, it_entry = [], it_next = [], it_fingerprint = junk\<rparr>"

definition dictGetSafeIterator :: "u64 \<Rightarrow> ('k, 'v) dictIterator" where
  "dictGetSafeIterator junk = (dictGetIterator junk)\<lparr>it_safe := True\<rparr>"

text \<open>The first half of the loop of \<^verbatim>\<open>dictNext\<close>; the flag is its \<^verbatim>\<open>break\<close>.\<close>

definition iter_advance :: "u64 \<Rightarrow> u64 \<Rightarrow> ('k, 'v) dict \<Rightarrow> ('k, 'v) dictIterator \<Rightarrow>
    (('k, 'v) dict \<times> ('k, 'v) dictIterator \<times> bool) option" where
  "iter_advance addr0 addr1 d it =
     (if it_entry it = [] then
        let first = (it_index it = - 1 \<and> it_table it = 0);
            d' = (if first \<and> it_safe it then d\<lparr>iterators := iterators d + 1\<rparr> else d);
            it = (if first \<and> \<not> it_safe it then it\<lparr>it_fingerprint := dictFingerprint addr0 addr1 d\<rparr> else it);
            it = it\<lparr>it_index := it_index it + 1\<rparr>
        in if it_index it \<ge> int (ht_size (dict_ht d' (it_table it))) then
             if dictIsRehashing d' \<and> it_table it = 0 then
               let it = it\<lparr>it_table := it_table it + 1, it_index := 0\<rparr>
               in do { b \<leftarrow> ht_get (ht1 d') 0; Some (d', it\<lparr>it_entry := b\<rparr>, False) }
             else Some (d', it, True)
           else do { b \<leftarrow> ht_get (dict_ht d' (it_table it)) (word_of_int (it_index it));
                     Some (d', it\<lparr>it_entry := b\<rparr>, False) }
      else Some (d, it\<lparr>it_entry := it_next it\<rparr>, False))"

partial_function (option) dictNext :: "u64 \<Rightarrow> u64 \<Rightarrow> ('k, 'v) dict \<Rightarrow> ('k, 'v) dictIterator \<Rightarrow>
    (('k, 'v) dict \<times> ('k, 'v) dictIterator \<times> ('k, 'v) dictEntry option) option" where
  "dictNext addr0 addr1 d it =
     do { (d, it, stop) \<leftarrow> iter_advance addr0 addr1 d it;
          if stop then Some (d, it, None)
          else (case it_entry it of
                  [] \<Rightarrow> dictNext addr0 addr1 d it
                | e # rest \<Rightarrow> Some (d, it\<lparr>it_next := rest\<rparr>, Some e)) }"

declare dictNext.simps [code]

definition dictReleaseIterator ::
  "u64 \<Rightarrow> u64 \<Rightarrow> ('k, 'v) dict \<Rightarrow> ('k, 'v) dictIterator \<Rightarrow> ('k, 'v) dict option" where
  "dictReleaseIterator addr0 addr1 d it =
     (if \<not> (it_index it = - 1 \<and> it_table it = 0) then
        if it_safe it then Some (d\<lparr>iterators := iterators d - 1\<rparr>)
        else if it_fingerprint it = dictFingerprint addr0 addr1 d then Some d else None
      else Some d)"

text \<open>The loop \<^verbatim>\<open>while((de = dictNext(di)) != NULL)\<close> of the callers.\<close>

partial_function (option) iter_collect :: "u64 \<Rightarrow> u64 \<Rightarrow> ('k, 'v) dict \<Rightarrow> ('k, 'v) dictIterator \<Rightarrow>
    (('k, 'v) dictEntry list \<times> ('k, 'v) dict \<times> ('k, 'v) dictIterator) option" where
  "iter_collect addr0 addr1 d it =
     do { (d, it, r) \<leftarrow> dictNext addr0 addr1 d it;
          case r of
            None \<Rightarrow> Some ([], d, it)
          | Some e \<Rightarrow> do { (es, d, it) \<leftarrow> iter_collect addr0 addr1 d it; Some (e # es, d, it) } }"

definition iterate :: "u64 \<Rightarrow> u64 \<Rightarrow> ('k, 'v) dict \<Rightarrow> ('k, 'v) dictIterator \<Rightarrow>
    (('k, 'v) dictEntry list \<times> ('k, 'v) dict) option" where
  "iterate addr0 addr1 d it =
     do { (es, d, it) \<leftarrow> iter_collect addr0 addr1 d it;
          d \<leftarrow> dictReleaseIterator addr0 addr1 d it;
          Some (es, d) }"

subsection \<open>Sampling\<close>

text \<open>
  \<open>rnd i\<close> is the result of the \<open>i\<close>-th call of \<^verbatim>\<open>random()\<close>. The do-while loops that look for a
  bucket with entries may run on as long as the random numbers miss.
\<close>

partial_function (option) random_bucket_rehashing ::
  "(nat \<Rightarrow> nat) \<Rightarrow> nat \<Rightarrow> ('k, 'v) dict \<Rightarrow> (('k, 'v) dictEntry list \<times> nat) option" where
  "random_bucket_rehashing rnd i d =
     do { let h = nat (rehashidx d) + rnd i mod (ht_size (ht0 d) + ht_size (ht1 d) - nat (rehashidx d));
          b \<leftarrow> (if h \<ge> ht_size (ht0 d) then ht_get (ht1 d) (of_nat (h - ht_size (ht0 d)))
                else ht_get (ht0 d) (of_nat h));
          if b = [] then random_bucket_rehashing rnd (Suc i) d else Some (b, Suc i) }"

partial_function (option) random_bucket ::
  "(nat \<Rightarrow> nat) \<Rightarrow> nat \<Rightarrow> ('k, 'v) dict \<Rightarrow> (('k, 'v) dictEntry list \<times> nat) option" where
  "random_bucket rnd i d =
     do { b \<leftarrow> ht_get (ht0 d) (of_nat (rnd i) AND ht_sizemask (ht0 d));
          if b = [] then random_bucket rnd (Suc i) d else Some (b, Suc i) }"

definition dictGetRandomKey ::
  "(nat \<Rightarrow> nat) \<Rightarrow> ('k, 'v) dict \<Rightarrow> (('k, 'v) dict \<times> ('k, 'v) dictEntry option) option" where
  "dictGetRandomKey rnd d =
     (if dictSize d = 0 then Some (d, None)
      else do {
        d \<leftarrow> (if dictIsRehashing d then dictRehashStep d else Some d);
        (b, i) \<leftarrow> (if dictIsRehashing d then random_bucket_rehashing rnd 0 d else random_bucket rnd 0 d);
        Some (d, Some (b ! (rnd i mod length b))) })"

text \<open>\<^verbatim>\<open>dictGetSomeKeys\<close>: the rehashing work, the visit of one bucket, and the loop over the steps.\<close>

fun rehash_some :: "nat \<Rightarrow> ('k, 'v) dict \<Rightarrow> ('k, 'v) dict option" where
  "rehash_some 0 d = Some d"
| "rehash_some (Suc n) d =
     (if dictIsRehashing d then do { d \<leftarrow> dictRehashStep d; rehash_some n d } else Some d)"

record ('k, 'v) some_state =
  so_i :: u64
  so_emptylen :: nat
  so_rnd :: nat
  so_des :: "('k, 'v) dictEntry list"

definition some_bucket :: "(nat \<Rightarrow> nat) \<Rightarrow> ('k, 'v) dict \<Rightarrow> u64 \<Rightarrow> nat \<Rightarrow> nat \<Rightarrow> ('k, 'v) some_state \<Rightarrow>
    ('k, 'v) some_state option" where
  "some_bucket rnd d maxsizemask cnt j s =
     (if unat (so_i s) \<ge> ht_size (dict_ht d j) then Some s
      else do {
        he \<leftarrow> ht_get (dict_ht d j) (so_i s);
        if he = [] then
          let s = s\<lparr>so_emptylen := so_emptylen s + 1\<rparr>
          in Some (if so_emptylen s \<ge> 5 \<and> so_emptylen s > cnt
                   then s\<lparr>so_i := of_nat (rnd (so_rnd s)) AND maxsizemask, so_rnd := so_rnd s + 1, so_emptylen := 0\<rparr>
                   else s)
        else Some (s\<lparr>so_emptylen := 0, so_des := so_des s @ take (cnt - length (so_des s)) he\<rparr>) })"

definition some_visit :: "(nat \<Rightarrow> nat) \<Rightarrow> ('k, 'v) dict \<Rightarrow> nat \<Rightarrow> u64 \<Rightarrow> nat \<Rightarrow> nat \<Rightarrow> ('k, 'v) some_state \<Rightarrow>
    ('k, 'v) some_state option" where
  "some_visit rnd d tables maxsizemask cnt j s =
     (if tables = 2 \<and> j = 0 \<and> int (unat (so_i s)) < rehashidx d then
        if unat (so_i s) \<ge> ht_size (ht1 d)
        then some_bucket rnd d maxsizemask cnt j (s\<lparr>so_i := word_of_int (rehashidx d)\<rparr>)
        else Some s
      else some_bucket rnd d maxsizemask cnt j s)"

fun some_loop :: "(nat \<Rightarrow> nat) \<Rightarrow> ('k, 'v) dict \<Rightarrow> nat \<Rightarrow> u64 \<Rightarrow> nat \<Rightarrow> nat \<Rightarrow> ('k, 'v) some_state \<Rightarrow>
    ('k, 'v) dictEntry list option" where
  "some_loop rnd d tables maxsizemask cnt 0 s = Some (so_des s)"
| "some_loop rnd d tables maxsizemask cnt (Suc maxsteps) s =
     (if \<not> length (so_des s) < cnt then Some (so_des s)
      else do {
        s \<leftarrow> some_visit rnd d tables maxsizemask cnt 0 s;
        if length (so_des s) = cnt then Some (so_des s)
        else do {
          s \<leftarrow> (if tables = 2 then some_visit rnd d tables maxsizemask cnt 1 s else Some s);
          if length (so_des s) = cnt then Some (so_des s)
          else some_loop rnd d tables maxsizemask cnt maxsteps (s\<lparr>so_i := (so_i s + 1) AND maxsizemask\<rparr>) } })"

definition dictGetSomeKeys :: "(nat \<Rightarrow> nat) \<Rightarrow> ('k, 'v) dict \<Rightarrow> nat \<Rightarrow>
    (('k, 'v) dict \<times> ('k, 'v) dictEntry list) option" where
  "dictGetSomeKeys rnd d cnt =
     do { let cnt = (if dictSize d < cnt then dictSize d else cnt);
          let maxsteps = cnt * 10 mod 2 ^ 32;
          d \<leftarrow> rehash_some cnt d;
          let tables = (if dictIsRehashing d then 2 else 1);
          let maxsizemask = ht_sizemask (ht0 d);
          let maxsizemask = (if tables > 1 \<and> maxsizemask < ht_sizemask (ht1 d) then ht_sizemask (ht1 d) else maxsizemask);
          des \<leftarrow> some_loop rnd d tables maxsizemask cnt maxsteps
                   \<lparr>so_i = of_nat (rnd 0) AND maxsizemask, so_emptylen = 0, so_rnd = 1, so_des = []\<rparr>;
          Some (d, des) }"

text \<open>The reference to an entry found by its hash and the identity of its key.\<close>

fun chain_ref :: "'k \<Rightarrow> ('k, 'v) dictEntry list \<Rightarrow> nat option" where
  "chain_ref oldptr [] = None"
| "chain_ref oldptr (he # rest) = (if oldptr = fst he then Some 0 else map_option Suc (chain_ref oldptr rest))"

definition dictFindEntryRefByPtrAndHash :: "('k, 'v) dict \<Rightarrow> 'k \<Rightarrow> u64 \<Rightarrow> dictEntryRef option option" where
  "dictFindEntryRefByPtrAndHash d oldptr hash =
     (if ht_used (ht0 d) + ht_used (ht1 d) = 0 then Some None
      else do {
        let idx0 = hash AND ht_sizemask (ht0 d);
        b0 \<leftarrow> ht_get (ht0 d) idx0;
        case chain_ref oldptr b0 of
          Some p \<Rightarrow> Some (Some (0, unat idx0, p))
        | None \<Rightarrow>
            if \<not> dictIsRehashing d then Some None
            else do {
              let idx1 = hash AND ht_sizemask (ht1 d);
              b1 \<leftarrow> ht_get (ht1 d) idx1;
              Some (map_option (\<lambda>p. (1, unat idx1, p)) (chain_ref oldptr b1)) } })"

subsection \<open>What an iteration visits\<close>

lemma ht_get_nth: "n < length (ht_table ht) \<Longrightarrow> length (ht_table ht) \<le> 2 ^ 63 \<Longrightarrow>
    ht_get ht (word_of_int (int n)) = Some (ht_table ht ! n)"
  by (simp add: ht_get_def unat_of_nat)

text \<open>The entries in the buckets after the one an iterator is in, and all it has not returned yet.\<close>

definition later :: "('k, 'v) dict \<Rightarrow> ('k, 'v) dictIterator \<Rightarrow> ('k, 'v) dictEntry list" where
  "later d it =
     concat (drop (nat (it_index it + 1)) (ht_table (dict_ht d (it_table it)))) @
     (if it_table it = 0 \<and> dictIsRehashing d then ht_entries (ht1 d) else [])"

definition iter_rest :: "('k, 'v) dict \<Rightarrow> ('k, 'v) dictIterator \<Rightarrow> ('k, 'v) dictEntry list" where
  "iter_rest d it = (if it_entry it = [] then [] else it_next it) @ later d it"

definition first_use :: "('k, 'v) dictIterator \<Rightarrow> bool" where
  "first_use it \<longleftrightarrow> it_index it = - 1 \<and> it_table it = 0"

definition iter_inv :: "u64 \<Rightarrow> u64 \<Rightarrow> ('k, 'v) dict \<Rightarrow> ('k, 'v) dict \<Rightarrow> ('k, 'v) dictIterator \<Rightarrow> bool" where
  "iter_inv addr0 addr1 d0 d it \<longleftrightarrow>
     - 1 \<le> it_index it \<and> (it_table it = 0 \<or> it_table it = 1 \<and> 0 \<le> it_index it \<and> dictIsRehashing d0) \<and>
     (first_use it \<longrightarrow> it_entry it = []) \<and>
     d = (if it_safe it \<and> \<not> first_use it then d0\<lparr>iterators := iterators d0 + 1\<rparr> else d0) \<and>
     (\<not> it_safe it \<and> \<not> first_use it \<longrightarrow> it_fingerprint it = dictFingerprint addr0 addr1 d0)"

text \<open>Buckets left to look at.\<close>

definition buckets_left :: "('k, 'v) dict \<Rightarrow> ('k, 'v) dictIterator \<Rightarrow> nat" where
  "buckets_left d it = length (ht_table (dict_ht d (it_table it))) - nat (it_index it + 1) +
     (if it_table it = 0 then length (ht_table (ht1 d)) else 0)"

lemma table_bounds:
  assumes "dict_ok d"
  shows "ht_size (dict_ht d t) = length (ht_table (dict_ht d t))" and "length (ht_table (dict_ht d t)) \<le> 2 ^ 63"
    and "dictIsRehashing d \<Longrightarrow> 0 < length (ht_table (ht1 d))"
proof -
  have "(2 :: nat) ^ m \<le> 2 ^ 63" if "ht_ok ty m ht" for ty m and ht :: "('a, 'b) dictht"
    using ht_okD(2) [OF that] by (intro power_increasing) auto
  note le = this
  show "ht_size (dict_ht d t) = length (ht_table (dict_ht d t))"
    using assms by (cases rule: dict_ok_cases; cases "t = 0") (simp_all add: dict_ht_def dictReset_def ht_okD(3,5))
  show "length (ht_table (dict_ht d t)) \<le> 2 ^ 63"
    using assms
  proof (cases rule: dict_ok_cases)
    case empty
    then show ?thesis by (simp add: dict_ht_def dictReset_def)
  next
    case (single m)
    then show ?thesis using le [OF single(2)] by (simp add: dict_ht_def dictReset_def ht_okD(5) [OF single(2)])
  next
    case (rehashing m0 m1)
    then show ?thesis using le [OF rehashing(2)] le [OF rehashing(3)]
      by (simp add: dict_ht_def ht_okD(5) [OF rehashing(2)] ht_okD(5) [OF rehashing(3)])
  qed
  show "dictIsRehashing d \<Longrightarrow> 0 < length (ht_table (ht1 d))"
    using assms by (cases rule: dict_ok_cases) (simp_all add: ht_okD(5))
qed

lemma iterators_upd_simps [simp]:
  "dict_ht (d\<lparr>iterators := n\<rparr>) t = dict_ht d t" "dictIsRehashing (d\<lparr>iterators := n\<rparr>) = dictIsRehashing d"
  "dictFingerprint addr0 addr1 (d\<lparr>iterators := n\<rparr>) = dictFingerprint addr0 addr1 d"
  by (simp_all add: dict_ht_def dictIsRehashing_def dictFingerprint_def)

lemma iter_advance_chain:
  assumes "iter_inv addr0 addr1 d0 d it" and "it_entry it \<noteq> []"
  shows "\<exists>it'. iter_advance addr0 addr1 d it = Some (d, it', False) \<and> iter_inv addr0 addr1 d0 d it' \<and>
    it_safe it' = it_safe it \<and> \<not> first_use it' \<and> it_entry it' @ later d0 it' = iter_rest d0 it \<and>
    buckets_left d0 it' = buckets_left d0 it"
  using assms by (auto simp: iter_advance_def iter_inv_def iter_rest_def first_use_def later_def buckets_left_def)

lemma iter_advance_bucket:
  assumes ok: "dict_ok d0" and inv: "iter_inv addr0 addr1 d0 d it" and e: "it_entry it = []"
  shows "\<exists>d' it' stop. iter_advance addr0 addr1 d it = Some (d', it', stop) \<and> iter_inv addr0 addr1 d0 d' it' \<and>
    it_safe it' = it_safe it \<and> \<not> first_use it' \<and>
    (if stop then iter_rest d0 it = []
     else it_entry it' @ later d0 it' = iter_rest d0 it \<and> buckets_left d0 it' < buckets_left d0 it)"
proof -
  have "0 \<le> it_index it + 1" using inv by (simp add: iter_inv_def)
  then obtain n where "it_index it + 1 = int n" by (rule nonneg_int_cases)
  then have ix: "it_index it = int n - 1" by simp
  let ?t = "it_table it" and ?n = n
  let ?T = "ht_table (dict_ht d0 ?t)"
  let ?d' = "if it_safe it then d0\<lparr>iterators := iterators d0 + 1\<rparr> else d0"
  define it1 where "it1 = (if first_use it \<and> \<not> it_safe it then it\<lparr>it_fingerprint := dictFingerprint addr0 addr1 d0\<rparr> else it)
     \<lparr>it_index := it_index it + 1\<rparr>"
  note tb = table_bounds [OF ok]
  have i: "- 1 \<le> it_index it" "?t = 0 \<or> ?t = 1 \<and> 0 \<le> it_index it \<and> dictIsRehashing d0" using inv by (auto simp: iter_inv_def)
  have it1: "it_index it1 = int ?n" "it_table it1 = ?t" "it_entry it1 = []" "it_safe it1 = it_safe it" "\<not> first_use it1"
    "\<not> it_safe it \<Longrightarrow> it_fingerprint it1 = dictFingerprint addr0 addr1 d0"
    using i e inv ix by (auto simp: it1_def first_use_def iter_inv_def)
  have unf: "iter_advance addr0 addr1 d it =
      (if int ?n \<ge> int (length ?T) then
         if dictIsRehashing d0 \<and> ?t = 0 then
           do { b \<leftarrow> ht_get (ht1 d0) 0; Some (?d', it1\<lparr>it_table := 1, it_index := 0, it_entry := b\<rparr>, False) }
         else Some (?d', it1, True)
       else do { b \<leftarrow> ht_get (dict_ht d0 ?t) (word_of_int (int ?n)); Some (?d', it1\<lparr>it_entry := b\<rparr>, False) })"
    using e inv ix tb(1)
    by (auto simp: iter_advance_def Let_def it1_def first_use_def iter_inv_def)
  have rest: "iter_rest d0 it = concat (drop ?n ?T) @ (if ?t = 0 \<and> dictIsRehashing d0 then ht_entries (ht1 d0) else [])"
    using e ix by (simp add: iter_rest_def later_def)
  show ?thesis
  proof (cases "length ?T \<le> ?n")
    case False
    then have n: "?n < length ?T" by simp
    let ?it = "it1\<lparr>it_entry := ?T ! ?n\<rparr>"
    have "iter_advance addr0 addr1 d it = Some (?d', ?it, False)"
      using unf n ht_get_nth [OF n tb(2)] by simp
    moreover have "iter_inv addr0 addr1 d0 ?d' ?it" using i it1 by (auto simp: iter_inv_def first_use_def)
    moreover have "concat (drop ?n ?T) = ?T ! ?n @ concat (drop (Suc ?n) ?T)" using n by (metis Cons_nth_drop_Suc concat.simps(2))
    moreover have "buckets_left d0 ?it < buckets_left d0 it" using n it1(1,2) ix by (auto simp: buckets_left_def)
    ultimately show ?thesis using rest it1 i
      by (intro exI [of _ ?d'] exI [of _ ?it] exI [of _ False])
        (auto simp: later_def first_use_def nat_add_distrib)
  next
    case True
    show ?thesis
    proof (cases "dictIsRehashing d0 \<and> ?t = 0")
      case False
      then have "iter_advance addr0 addr1 d it = Some (?d', it1, True)" using unf True by auto
      moreover have "iter_rest d0 it = []" using rest True False by auto
      moreover have "iter_inv addr0 addr1 d0 ?d' it1" using i it1 by (auto simp: iter_inv_def)
      ultimately show ?thesis using it1 by auto
    next
      case r: True
      let ?it = "it1\<lparr>it_table := 1, it_index := 0, it_entry := ht_table (ht1 d0) ! 0\<rparr>"
      have ne: "0 < length (ht_table (ht1 d0))" using r tb(3) by simp
      then have "ht_get (ht1 d0) 0 = Some (ht_table (ht1 d0) ! 0)" by (simp add: ht_get_def)
      then have "iter_advance addr0 addr1 d it = Some (?d', ?it, False)" using unf True r by auto
      moreover have "iter_inv addr0 addr1 d0 ?d' ?it" using r it1 by (auto simp: iter_inv_def first_use_def)
      moreover have "ht_entries (ht1 d0) = ht_table (ht1 d0) ! 0 @ concat (drop 1 (ht_table (ht1 d0)))"
        using ne by (cases "ht_table (ht1 d0)") (simp_all add: ht_entries_def)
      moreover have "buckets_left d0 ?it < buckets_left d0 it" using ne r
        by (cases "ht_table (ht1 d0)") (simp_all add: buckets_left_def dict_ht_def)
      ultimately show ?thesis using rest True r it1
        by (intro exI [of _ ?d'] exI [of _ ?it] exI [of _ False]) (simp add: later_def first_use_def dict_ht_def)
    qed
  qed
qed

definition iter_measure :: "('k, 'v) dict \<Rightarrow> ('k, 'v) dictIterator \<Rightarrow> nat" where
  "iter_measure d it = 2 * buckets_left d it + (if it_entry it = [] then 0 else 1)"

lemma dictNext_ok:
  assumes ok: "dict_ok d0" and inv: "iter_inv addr0 addr1 d0 d it"
  shows "\<exists>d' it' r. dictNext addr0 addr1 d it = Some (d', it', r) \<and> iter_inv addr0 addr1 d0 d' it' \<and>
    it_safe it' = it_safe it \<and> \<not> first_use it' \<and>
    (case iter_rest d0 it of [] \<Rightarrow> r = None | e # es \<Rightarrow> r = Some e \<and> iter_rest d0 it' = es)"
  using inv
proof (induction "iter_measure d0 it" arbitrary: d it rule: less_induct)
  case less
  obtain d1 it1 stop where a: "iter_advance addr0 addr1 d it = Some (d1, it1, stop)" "iter_inv addr0 addr1 d0 d1 it1"
    "it_safe it1 = it_safe it" "\<not> first_use it1"
    and c: "if stop then iter_rest d0 it = []
       else it_entry it1 @ later d0 it1 = iter_rest d0 it \<and>
         (it_entry it1 = [] \<longrightarrow> iter_measure d0 it1 < iter_measure d0 it)"
  proof (cases "it_entry it = []")
    case True
    from iter_advance_bucket [OF ok less.prems True] show thesis by (elim exE conjE) (rule that, auto simp: iter_measure_def split: if_splits)
  next
    case False
    from iter_advance_chain [OF less.prems False] show thesis using False by (elim exE conjE) (rule that, auto simp: iter_measure_def)
  qed
  show ?case
  proof (cases stop)
    case True
    then show ?thesis using a c by (subst dictNext.simps) simp
  next
    case ns: False
    show ?thesis
    proof (cases "it_entry it1")
      case (Cons e es)
      then have "iter_rest d0 it = e # es @ later d0 it1" using c ns by simp
      moreover have "iter_rest d0 (it1\<lparr>it_next := es\<rparr>) = es @ later d0 it1" using Cons by (simp add: iter_rest_def later_def)
      ultimately show ?thesis using a Cons ns
        by (subst dictNext.simps) (auto simp: iter_inv_def first_use_def)
    next
      case Nil
      have r: "iter_rest d0 it1 = iter_rest d0 it" using c ns Nil by (simp add: iter_rest_def)
      have "iter_measure d0 it1 < iter_measure d0 it"
        using c ns Nil by simp
      from less.hyps [OF this a(2)] show ?thesis using a(1,3) ns Nil r
        by (subst dictNext.simps) simp
    qed
  qed
qed

lemma iter_collect_ok:
  assumes ok: "dict_ok d0" and inv: "iter_inv addr0 addr1 d0 d it"
  shows "\<exists>d' it'. iter_collect addr0 addr1 d it = Some (iter_rest d0 it, d', it') \<and> iter_inv addr0 addr1 d0 d' it' \<and>
    it_safe it' = it_safe it \<and> \<not> first_use it'"
  using inv
proof (induction "iter_rest d0 it" arbitrary: d it)
  case Nil
  obtain d1 it1 r where n: "dictNext addr0 addr1 d it = Some (d1, it1, r)" "iter_inv addr0 addr1 d0 d1 it1"
    "it_safe it1 = it_safe it" "\<not> first_use it1" "r = None"
    using dictNext_ok [OF ok Nil.prems] by (auto simp: Nil.hyps [symmetric])
  then show ?case by (subst iter_collect.simps) (simp add: Nil.hyps [symmetric])
next
  case (Cons e es)
  obtain d1 it1 r where n: "dictNext addr0 addr1 d it = Some (d1, it1, r)" "iter_inv addr0 addr1 d0 d1 it1"
    "it_safe it1 = it_safe it" "r = Some e" "es = iter_rest d0 it1"
    using dictNext_ok [OF ok Cons.prems] by (auto simp: Cons.hyps(2) [symmetric])
  from Cons.hyps(1) [OF n(5,2)] show ?case using n by (subst iter_collect.simps) (auto simp: Cons.hyps(2) [symmetric])
qed

lemma iterate_ok:
  assumes ok: "dict_ok d" and it: "it = dictGetIterator junk \<or> it = dictGetSafeIterator junk"
  shows "iterate addr0 addr1 d it = Some (entries d, d)"
proof -
  have inv: "iter_inv addr0 addr1 d d it"
    using it by (auto simp: iter_inv_def dictGetIterator_def dictGetSafeIterator_def first_use_def)
  have "\<not> dictIsRehashing d \<Longrightarrow> ht_entries (ht1 d) = []" using ok by (cases rule: dict_ok_cases) simp_all
  then have rest: "iter_rest d it = entries d"
    using it by (auto simp: iter_rest_def later_def dictGetIterator_def dictGetSafeIterator_def dict_ht_def entries_def ht_entries_def)
  obtain d' it' where c: "iter_collect addr0 addr1 d it = Some (entries d, d', it')" "iter_inv addr0 addr1 d d' it'" "\<not> first_use it'"
    using iter_collect_ok [OF ok inv] rest by auto
  have "dictReleaseIterator addr0 addr1 d' it' = Some d"
    using c(2,3) by (auto simp: dictReleaseIterator_def iter_inv_def first_use_def)
  with c(1) show ?thesis by (simp add: iterate_def)
qed

subsection \<open>What a sample contains\<close>

lemma ht_get_entries: "ht_get ht w = Some b \<Longrightarrow> set b \<subseteq> set (ht_entries ht)"
  unfolding ht_entries_def using ht_get_SomeD [of ht w b] nth_mem by fastforce

lemma dict_ht_entries: "set (ht_entries (dict_ht d j)) \<subseteq> set (entries d)"
  by (auto simp: dict_ht_def entries_def)

lemma rehash_some_ok: "dict_ok d \<Longrightarrow> \<exists>d'. rehash_some n d = Some d' \<and> dict_ok d' \<and> same_contents d d'"
proof (induction n arbitrary: d)
  case (Suc n)
  from dictRehashStep_ok [OF Suc.prems] obtain d1 where
    d1: "dictRehashStep d = Some d1" "dict_ok d1" "same_contents d d1" by blast
  from Suc.IH [OF d1(2)] show ?case using d1 Suc.prems same_contents_trans by (cases "dictIsRehashing d") auto
qed simp

lemma some_bucket_ok:
  assumes ok: "dict_ok d" and s: "set (so_des s) \<subseteq> set (entries d)" "length (so_des s) \<le> cnt"
  shows "\<exists>s'. some_bucket rnd d msk cnt j s = Some s' \<and> set (so_des s') \<subseteq> set (entries d) \<and> length (so_des s') \<le> cnt"
proof (cases "unat (so_i s) \<ge> ht_size (dict_ht d j)")
  case True
  then show ?thesis using s by (simp add: some_bucket_def)
next
  case False
  then obtain he where he: "ht_get (dict_ht d j) (so_i s) = Some he"
    using table_bounds(1) [OF ok, of j] by (auto simp: ht_get_def)
  then have sub: "set (take n he) \<subseteq> set (entries d)" for n
    using ht_get_entries [OF he] dict_ht_entries [of d j] set_take_subset [of n he] by blast
  then show ?thesis using False s he by (cases "he = []") (simp_all add: some_bucket_def Let_def)
qed

lemma some_visit_ok:
  assumes "dict_ok d" and "set (so_des s) \<subseteq> set (entries d)" and "length (so_des s) \<le> cnt"
  shows "\<exists>s'. some_visit rnd d tables msk cnt j s = Some s' \<and> set (so_des s') \<subseteq> set (entries d) \<and> length (so_des s') \<le> cnt"
  using some_bucket_ok [OF assms] some_bucket_ok [OF assms(1), of "s\<lparr>so_i := word_of_int (rehashidx d)\<rparr>"] assms
  unfolding some_visit_def by simp

lemma some_loop_ok:
  assumes "dict_ok d" and "set (so_des s) \<subseteq> set (entries d)" and "length (so_des s) \<le> cnt"
  shows "\<exists>es. some_loop rnd d tables msk cnt n s = Some es \<and> set es \<subseteq> set (entries d) \<and> length es \<le> cnt"
  using assms
proof (induction n arbitrary: s)
  case (Suc n)
  obtain s1 where s1: "some_visit rnd d tables msk cnt 0 s = Some s1" "set (so_des s1) \<subseteq> set (entries d)" "length (so_des s1) \<le> cnt"
    using some_visit_ok [OF Suc.prems] by blast
  obtain s2 where s2: "(if tables = 2 then some_visit rnd d tables msk cnt 1 s1 else Some s1) = Some s2"
    "set (so_des s2) \<subseteq> set (entries d)" "length (so_des s2) \<le> cnt"
    using some_visit_ok [OF Suc.prems(1) s1(2,3)] s1(2,3) by (cases "tables = 2") (simp_all, blast)
  show ?case
    using Suc.IH [of "s2\<lparr>so_i := (so_i s2 + 1) AND msk\<rparr>"] Suc.prems s1 s2 by (simp del: One_nat_def)
qed simp

lemma dictGetSomeKeys_ok:
  assumes ok: "dict_ok d"
  shows "\<exists>d' es. dictGetSomeKeys rnd d n = Some (d', es) \<and> dict_ok d' \<and> same_contents d d' \<and>
    set es \<subseteq> set (entries d) \<and> length es \<le> min n (dictSize d)"
proof -
  let ?n = "if dictSize d < n then dictSize d else n"
  obtain d1 where d1: "rehash_some ?n d = Some d1" "dict_ok d1" "same_contents d d1" using rehash_some_ok [OF ok] by blast
  have se: "set (entries d1) = set (entries d)" using same_contentsD(3) [OF d1(3)] by (metis set_mset_mset)
  define tables :: nat where "tables = (if dictIsRehashing d1 then 2 else 1)"
  define msk where "msk = (if tables > 1 \<and> ht_sizemask (ht0 d1) < ht_sizemask (ht1 d1) then ht_sizemask (ht1 d1) else ht_sizemask (ht0 d1))"
  let ?s = "\<lparr>so_i = of_nat (rnd 0) AND msk, so_emptylen = 0, so_rnd = 1, so_des = []\<rparr>"
  obtain es where es: "some_loop rnd d1 tables msk ?n (?n * 10 mod 2 ^ 32) ?s = Some es" "set es \<subseteq> set (entries d1)" "length es \<le> ?n"
    using some_loop_ok [OF d1(2), of ?s ?n rnd tables msk "?n * 10 mod 2 ^ 32"] by auto
  have "dictGetSomeKeys rnd d n = Some (d1, es)"
    unfolding dictGetSomeKeys_def Let_def d1(1) by (simp only: bind.bind_lunit tables_def [symmetric] msk_def [symmetric] es(1))
  then show ?thesis using d1(2,3) es(2,3) se by (auto split: if_splits)
qed

subsection \<open>A random entry\<close>

text \<open>
  What \<^verbatim>\<open>dictGetRandomKey\<close> needs of \<^verbatim>\<open>random()\<close> to come to an end: its results are below
  \<open>2 ^ 31\<close> and every number comes up again and again.
\<close>

definition fair :: "(nat \<Rightarrow> nat) \<Rightarrow> bool" where
  "fair rnd \<longleftrightarrow> (\<forall>i. rnd i < 2 ^ 31) \<and> (\<forall>i n. n < 2 ^ 31 \<longrightarrow> (\<exists>j \<ge> i. rnd j = n))"

lemma fairD: "fair rnd \<Longrightarrow> n < 2 ^ 31 \<Longrightarrow> \<exists>j \<ge> i. rnd j = n"
  by (simp add: fair_def)

lemma random_bucket_ok:
  assumes ok: "dict_ok d" and m: "ht_ok (d_type d) m (ht0 d)"
    and j: "i \<le> j" "ht_table (ht0 d) ! unat (of_nat (rnd j) AND mask m :: u64) \<noteq> []"
  shows "\<exists>b i'. random_bucket rnd i d = Some (b, i') \<and> b \<noteq> [] \<and> set b \<subseteq> set (entries d)"
  using j
proof (induction "j - i" arbitrary: i)
  case 0
  then have "i = j" by simp
  let ?b = "ht_table (ht0 d) ! unat (of_nat (rnd j) AND mask m :: u64)"
  have g: "ht_get (ht0 d) (of_nat (rnd j) AND ht_sizemask (ht0 d)) = Some ?b" by (rule ht_get_ok [OF m])
  then show ?case using 0 \<open>i = j\<close> ht_get_entries [OF g] by (subst random_bucket.simps) (auto simp: entries_def)
next
  case (Suc n)
  let ?b = "ht_table (ht0 d) ! unat (of_nat (rnd i) AND mask m :: u64)"
  have g: "ht_get (ht0 d) (of_nat (rnd i) AND ht_sizemask (ht0 d)) = Some ?b" by (rule ht_get_ok [OF m])
  show ?case
  proof (cases "?b = []")
    case True
    have "\<exists>b i'. random_bucket rnd (Suc i) d = Some (b, i') \<and> b \<noteq> [] \<and> set b \<subseteq> set (entries d)"
      using Suc.hyps(2) Suc.prems by (intro Suc.hyps(1)) auto
    then show ?thesis using g True by (subst random_bucket.simps) simp
  next
    case False
    then show ?thesis using g ht_get_entries [OF g] by (subst random_bucket.simps) (auto simp: entries_def)
  qed
qed

text \<open>The bucket that a random number selects while two tables are in use.\<close>

definition pick :: "('k, 'v) dict \<Rightarrow> nat \<Rightarrow> ('k, 'v) dictEntry list option" where
  "pick d r =
     (let h = nat (rehashidx d) + r mod (ht_size (ht0 d) + ht_size (ht1 d) - nat (rehashidx d))
      in if h \<ge> ht_size (ht0 d) then ht_get (ht1 d) (of_nat (h - ht_size (ht0 d))) else ht_get (ht0 d) (of_nat h))"

lemma random_bucket_rehashing_unfold:
  "random_bucket_rehashing rnd i d =
     do { b \<leftarrow> pick d (rnd i); if b = [] then random_bucket_rehashing rnd (Suc i) d else Some (b, Suc i) }"
  by (subst random_bucket_rehashing.simps) (simp add: pick_def Let_def)

lemma ht_get_of_nat: "n < length (ht_table ht) \<Longrightarrow> length (ht_table ht) \<le> 2 ^ 63 \<Longrightarrow> ht_get ht (of_nat n) = Some (ht_table ht ! n)"
  using ht_get_nth [of n ht] by simp

lemma pick_ok:
  assumes ok: "dict_ok d" and r: "dictIsRehashing d"
  shows "\<exists>b. pick d x = Some b \<and> set b \<subseteq> set (entries d)"
proof -
  note tb0 = table_bounds(1,2) [OF ok, of 0] and tb1 = table_bounds(1,2) [OF ok, of 1] and tb = table_bounds(3) [OF ok r]
  let ?n = "ht_size (ht0 d) + ht_size (ht1 d) - nat (rehashidx d)"
  let ?h = "nat (rehashidx d) + x mod ?n"
  have "nat (rehashidx d) \<le> ht_size (ht0 d)"
    using ok r by (cases rule: dict_ok_cases) (auto simp: ht_okD(3) nat_le_iff)
  moreover have "0 < ht_size (ht1 d)" using tb tb1(1) by (simp add: dict_ht_def)
  ultimately have h: "?h < ht_size (ht0 d) + ht_size (ht1 d)"
    using mod_less_divisor [of ?n x] by linarith
  have "\<exists>b. pick d x = Some b"
  proof (cases "?h \<ge> ht_size (ht0 d)")
    case True
    then have "?h - ht_size (ht0 d) < length (ht_table (ht1 d))" using h tb1(1) by (simp add: dict_ht_def) linarith
    from ht_get_of_nat [OF this] show ?thesis using tb1(2) True unfolding pick_def Let_def by (auto simp: dict_ht_def simp del: of_nat_add of_nat_diff)
  next
    case False
    then show ?thesis using ht_get_of_nat [of ?h "ht0 d"] tb0(1,2) by (simp add: pick_def Let_def dict_ht_def)
  qed
  then show ?thesis using ht_get_entries unfolding pick_def Let_def entries_def by (fastforce split: if_splits)
qed

lemma random_bucket_rehashing_ok:
  assumes ok: "dict_ok d" and r: "dictIsRehashing d" and j: "i \<le> j" "\<exists>b. pick d (rnd j) = Some b \<and> b \<noteq> []"
  shows "\<exists>b i'. random_bucket_rehashing rnd i d = Some (b, i') \<and> b \<noteq> [] \<and> set b \<subseteq> set (entries d)"
  using j
proof (induction "j - i" arbitrary: i)
  case 0
  then have "i = j" by simp
  moreover obtain b where "pick d (rnd j) = Some b" "b \<noteq> []" "set b \<subseteq> set (entries d)"
    using 0 pick_ok [OF ok r, of "rnd j"] by auto
  ultimately show ?case by (subst random_bucket_rehashing_unfold) simp
next
  case (Suc n)
  obtain b where b: "pick d (rnd i) = Some b" "set b \<subseteq> set (entries d)" using pick_ok [OF ok r] by blast
  show ?case
  proof (cases "b = []")
    case True
    have "\<exists>b i'. random_bucket_rehashing rnd (Suc i) d = Some (b, i') \<and> b \<noteq> [] \<and> set b \<subseteq> set (entries d)"
      using Suc.hyps(2) Suc.prems by (intro Suc.hyps(1)) auto
    then show ?thesis using b True by (subst random_bucket_rehashing_unfold) simp
  next
    case False
    then show ?thesis using b by (subst random_bucket_rehashing_unfold) simp
  qed
qed


lemma dictRehash_size:
  assumes ok: "dict_ok d" and r: "dictRehash d n = Some (d', b)"
  shows "ht_size (ht0 d') + ht_size (ht1 d') \<le> ht_size (ht0 d) + ht_size (ht1 d)"
  using ok
proof (cases rule: dict_ok_cases)
  case (rehashing m0 m1)
  have ev: "n > 0 \<longrightarrow> int n * 10 > 0" by simp
  obtain h0 h1 x ret where l: "dictRehash_loop d n (int n * 10) = Some (d\<lparr>ht0 := h0, ht1 := h1, rehashidx := x\<rparr>, ret)"
    "ht_ok (d_type d) m0 h0" "ht_ok (d_type d) m1 h1"
    using dictRehash_loop_ok [OF rehashing(2-6) ev] by (elim exE conjE) (rule that)
  have "ht_size h0 = ht_size (ht0 d)" "ht_size h1 = ht_size (ht1 d)"
    using ht_okD(3) [OF l(2)] ht_okD(3) [OF l(3)] ht_okD(3) [OF rehashing(2)] ht_okD(3) [OF rehashing(3)] by simp_all
  then show ?thesis using r l(1) rehashing(1) by (auto simp: dictRehash_def dictReset_def split: if_splits)
qed (use r in \<open>simp_all add: dictRehash_def split: if_splits\<close>)

lemma nonempty_pick:
  assumes ok: "dict_ok d" and r: "dictIsRehashing d" and ne: "entries d \<noteq> []"
  shows "\<exists>x < ht_size (ht0 d) + ht_size (ht1 d). \<exists>b. pick d x = Some b \<and> b \<noteq> []"
proof -
  note tb0 = table_bounds(1,2) [OF ok, of 0] and tb1 = table_bounds(1,2) [OF ok, of 1] and tb = table_bounds(3) [OF ok r]
  let ?n = "ht_size (ht0 d) + ht_size (ht1 d) - nat (rehashidx d)"
  have below: "\<forall>i < nat (rehashidx d). ht_table (ht0 d) ! i = []" and le: "nat (rehashidx d) \<le> ht_size (ht0 d)"
    using ok r by (cases rule: dict_ok_cases; auto simp: ht_okD(3) nat_le_iff)+
  consider i where "i < ht_size (ht0 d)" "ht_table (ht0 d) ! i \<noteq> []" | i where "i < ht_size (ht1 d)" "ht_table (ht1 d) ! i \<noteq> []"
    using ne tb0(1) tb1(1) by (auto simp: entries_def ht_entries_def dict_ht_def in_set_conv_nth)
  then show ?thesis
  proof cases
    case 1
    then have "nat (rehashidx d) \<le> i" using below not_less by blast
    then have "pick d (i - nat (rehashidx d)) = ht_get (ht0 d) (of_nat i)"
      using 1(1) by (simp add: pick_def Let_def)
    then show ?thesis using 1 ht_get_of_nat [of i "ht0 d"] tb0
      by (intro exI [of _ "i - nat (rehashidx d)"]) (simp add: dict_ht_def)
  next
    case 2
    let ?x = "ht_size (ht0 d) + i - nat (rehashidx d)"
    have "?x < ?n" using 2(1) le by linarith
    then have "pick d ?x = ht_get (ht1 d) (of_nat i)"
      using le by (simp add: pick_def Let_def)
    then show ?thesis using 2 ht_get_of_nat [of i "ht1 d"] tb1 \<open>?x < ?n\<close>
      by (intro exI [of _ ?x]) (simp add: dict_ht_def)
  qed
qed

lemma nonempty_single:
  assumes m: "ht_ok (d_type d) m (ht0 d)" and ne: "ht_entries (ht0 d) \<noteq> []"
  shows "\<exists>x < 2 ^ m. ht_table (ht0 d) ! unat (of_nat x AND mask m :: u64) \<noteq> []"
proof -
  obtain i where i: "i < 2 ^ m" "ht_table (ht0 d) ! i \<noteq> []"
    using ne ht_okD(5) [OF m] by (auto simp: ht_entries_def in_set_conv_nth)
  have "i < 2 ^ 64" using i(1) ht_okD(2) [OF m] power_strict_increasing [of m 64 "2 :: nat"] by linarith
  then have "unat (of_nat i :: u64) = i" by (simp add: unat_of_nat)
  then have "unat (of_nat i AND mask m :: u64) = i"
    using i(1) by (simp flip: take_bit_eq_mask) (simp add: unsigned_take_bit_eq take_bit_nat_eq_self_iff)
  with i show ?thesis by auto
qed

lemma dictGetRandomKey_ok:
  assumes ok: "dict_ok d" and ne: "entries d \<noteq> []" and fair: "fair rnd"
    and small: "ht_size (ht0 d) + ht_size (ht1 d) \<le> 2 ^ 31"
  shows "\<exists>d' e. dictGetRandomKey rnd d = Some (d', Some e) \<and> dict_ok d' \<and> same_contents d d' \<and> e \<in> set (entries d)"
proof -
  obtain d1 where d1: "(if dictIsRehashing d then dictRehashStep d else Some d) = Some d1" "dict_ok d1" "same_contents d d1"
    using maybe_step_ok [OF ok] by blast
  have ne1: "entries d1 \<noteq> []" using ne same_contentsD(3) [OF d1(3)] by auto
  have se: "set (entries d1) = set (entries d)" using same_contentsD(3) [OF d1(3)] by (metis set_mset_mset)
  have small1: "ht_size (ht0 d1) + ht_size (ht1 d1) \<le> 2 ^ 31"
  proof -
    have "ht_size (ht0 d1) + ht_size (ht1 d1) \<le> ht_size (ht0 d) + ht_size (ht1 d)"
      using d1(1) dictRehash_size [OF ok, of 1] by (auto simp: dictRehashStep_def split: if_splits)
    then show ?thesis using small by simp
  qed
  have "\<exists>b i. (if dictIsRehashing d1 then random_bucket_rehashing rnd 0 d1 else random_bucket rnd 0 d1) = Some (b, i) \<and>
      b \<noteq> [] \<and> set b \<subseteq> set (entries d1)"
    using d1(2)
  proof (cases rule: dict_ok_cases)
    case empty
    with ne1 show ?thesis by (simp add: entries_def)
  next
    case (single m)
    obtain x where x: "x < 2 ^ m" "ht_table (ht0 d1) ! unat (of_nat x AND mask m :: u64) \<noteq> []"
      using nonempty_single [OF single(2)] ne1 single(3) by (auto simp: entries_def)
    have "x < 2 ^ 31" using x(1) small1 ht_okD(3) [OF single(2)] by simp
    then obtain j where "rnd j = x" using fairD [OF fair] by blast
    then show ?thesis using random_bucket_ok [OF d1(2) single(2), of 0 j rnd] x(2) single(1) by simp
  next
    case (rehashing m0 m1)
    obtain x where x: "x < ht_size (ht0 d1) + ht_size (ht1 d1)" "\<exists>b. pick d1 x = Some b \<and> b \<noteq> []"
      using nonempty_pick [OF d1(2) rehashing(1) ne1] by blast
    obtain j where "rnd j = x" using fairD [OF fair, of x] x(1) small1 by auto
    then show ?thesis using random_bucket_rehashing_ok [OF d1(2) rehashing(1), of 0 j rnd] x(2) rehashing(1) by simp
  qed
  then obtain b i where b: "(if dictIsRehashing d1 then random_bucket_rehashing rnd 0 d1 else random_bucket rnd 0 d1) = Some (b, i)"
      "b \<noteq> []" "set b \<subseteq> set (entries d1)" by blast
  have "b ! (rnd i mod length b) \<in> set b" using b(2) by (intro nth_mem) simp
  moreover have "dictSize d \<noteq> 0" using ne dictSize_entries [OF ok] by simp
  ultimately show ?thesis using d1 b se by (auto simp: dictGetRandomKey_def)
qed

subsection \<open>Properties\<close>

text \<open>
  C9. Walking a dictionary with an iterator, safe or not, returns every entry exactly once, in the middle of a
  rehash too. Releasing the iterator restores the dictionary: the safe-iterator count is back, and the
  assertion on the fingerprint of an unsafe iterator holds.
\<close>

theorem dict_iterate_all:
  assumes "dict_ok d" and "it = dictGetIterator junk \<or> it = dictGetSafeIterator junk"
  shows "iterate addr0 addr1 d it = Some (entries d, d)"
  by (rule iterate_ok [OF assms])

theorem dict_iterate_all_witness:
  "iterate 4096 8192 rehashing_dict (dictGetSafeIterator 0) = Some ([(5, 50), (1, 10), (7, 70), (8, 80)], rehashing_dict)"
proof -
  have "entries rehashing_dict = [(5, 50), (1, 10), (7, 70), (8, 80)]"
    by (simp add: rehashing_dict_def entries_def ht_entries_def)
  then show ?thesis using dict_iterate_all [OF rehashing_dict_ok, of "dictGetSafeIterator 0" 0 4096 8192] by simp
qed

text \<open>
  C10. On a dictionary that is not empty, \<^verbatim>\<open>dictGetRandomKey\<close> comes to an end with one of its entries,
  for random numbers that keep taking every value, and with at most \<open>2 ^ 31\<close> buckets.
\<close>

theorem dictGetRandomKey_returns:
  assumes "dict_ok d" and "entries d \<noteq> []" and "fair rnd" and "ht_size (ht0 d) + ht_size (ht1 d) \<le> 2 ^ 31"
  shows "\<exists>d' e. dictGetRandomKey rnd d = Some (d', Some e) \<and> dict_ok d' \<and> dict_lookup d' = dict_lookup d \<and> e \<in> set (entries d)"
  using dictGetRandomKey_ok [OF assms] same_contents_lookup [OF assms(1)] by blast

definition every_number :: "nat \<Rightarrow> nat" where
  "every_number i = fst (prod_decode i) mod 2 ^ 31"

lemma every_number_fair: "fair every_number"
  unfolding fair_def
proof (intro conjI allI impI)
  fix i n :: nat assume "n < 2 ^ 31"
  then have "every_number (prod_encode (n, i)) = n" by (simp add: every_number_def)
  moreover have "i \<le> prod_encode (n, i)" by (rule le_prod_encode_2)
  ultimately show "\<exists>j \<ge> i. every_number j = n" by blast
qed (simp add: every_number_def)

theorem dictGetRandomKey_returns_witness:
  "\<exists>d' e. dictGetRandomKey every_number rehashing_dict = Some (d', Some e) \<and> e \<in> {(5, 50), (1, 10), (7, 70), (8, 80)}"
proof -
  have "entries rehashing_dict = [(5, 50), (1, 10), (7, 70), (8, 80)]"
    "ht_size (ht0 rehashing_dict) + ht_size (ht1 rehashing_dict) \<le> 2 ^ 31"
    by (simp_all add: rehashing_dict_def entries_def ht_entries_def)
  then show ?thesis using dictGetRandomKey_returns [OF rehashing_dict_ok _ every_number_fair] by auto
qed

end
