(* ===== verification/Util.thy ===== *)
theory Util
  imports Prelude
begin

text \<open>
  The string functions of \<^verbatim>\<open>util.c\<close>: glob matching and the conversions between numbers and
  decimal strings.

  A string is the list of its bytes without the terminating zero. Reading one byte past the
  end gives that zero (\<open>char_at\<close>), which the code relies on in several places.
\<close>

unbundle bit_operations_syntax

subsection \<open>Characters\<close>

definition bytes :: "string \<Rightarrow> byte list" where
  "bytes s = map of_char s"

definition char_at :: "byte list \<Rightarrow> nat \<Rightarrow> byte" where
  "char_at p k = (if k < length p then p ! k else 0)"

text \<open>\<^verbatim>\<open>tolower\<close> in the C locale, on the value of a (signed) \<^verbatim>\<open>char\<close>.\<close>

definition tolower :: "int \<Rightarrow> int" where
  "tolower c = (if 65 \<le> c \<and> c \<le> 90 then c + 32 else c)"

definition isdigit :: "byte \<Rightarrow> bool" where
  "isdigit c \<longleftrightarrow> 48 \<le> c \<and> c \<le> 57"

abbreviation (input) STAR :: byte where "STAR \<equiv> 42"
abbreviation (input) QUESTION :: byte where "QUESTION \<equiv> 63"
abbreviation (input) LBRACKET :: byte where "LBRACKET \<equiv> 91"
abbreviation (input) RBRACKET :: byte where "RBRACKET \<equiv> 93"
abbreviation (input) BACKSLASH :: byte where "BACKSLASH \<equiv> 92"
abbreviation (input) CARET :: byte where "CARET \<equiv> 94"
abbreviation (input) MINUS :: byte where "MINUS \<equiv> 45"

subsection \<open>Glob matching\<close>

definition same_char :: "bool \<Rightarrow> byte \<Rightarrow> byte \<Rightarrow> bool" where
  "same_char nocase a b = (if \<not> nocase then a = b else tolower (sint a) = tolower (sint b))"

text \<open>The range test of a character class.\<close>

definition in_range :: "bool \<Rightarrow> byte \<Rightarrow> byte \<Rightarrow> byte \<Rightarrow> bool" where
  "in_range nocase a b c =
     (let start = sint a; en = sint b; c = sint c;
          (start, en) = (if start > en then (en, start) else (start, en));
          (start, en, c) = (if nocase then (tolower start, tolower en, tolower c) else (start, en, c))
      in c \<ge> start \<and> c \<le> en)"

text \<open>
  The loop over a character class, up to the increment of \<^verbatim>\<open>pattern\<close> after it: the
  updated \<^verbatim>\<open>match\<close> and the pattern behind the class. Where the code steps back at the end of the
  pattern, that increment brings it to the end again.
\<close>

function class_loop :: "bool \<Rightarrow> byte \<Rightarrow> bool \<Rightarrow> byte list \<Rightarrow> bool \<times> byte list" where
  "class_loop nocase c matched p =
     (if char_at p 0 = BACKSLASH \<and> length p \<ge> 2 then
        class_loop nocase c (matched \<or> char_at p 1 = c) (drop 2 p)
      else if char_at p 0 = RBRACKET then (matched, tl p)
      else if length p = 0 then (matched, [])
      else if char_at p 1 = MINUS \<and> length p \<ge> 3 then
        class_loop nocase c (matched \<or> in_range nocase (char_at p 0) (char_at p 2) c) (drop 3 p)
      else class_loop nocase c (matched \<or> same_char nocase (char_at p 0) c) (tl p))"
  by pat_completeness auto
termination by (relation "measure (\<lambda>(nocase, c, matched, p). length p)") auto

declare class_loop.simps [simp del]

fun skip_stars :: "byte list \<Rightarrow> byte list" where
  "skip_stars (a # b # p) = (if b = STAR then skip_stars (b # p) else a # b # p)"
| "skip_stars p = p"

lemma length_skip_stars: "length (skip_stars p) \<le> length p"
  by (induction p rule: skip_stars.induct) auto

lemma length_class_loop: "length (snd (class_loop nocase c matched p)) \<le> length p"
  by (induction nocase c matched p rule: class_loop.induct) (subst class_loop.simps, auto)

text \<open>
  \<^verbatim>\<open>match_rest\<close> is the end of the loop body: the increment of \<^verbatim>\<open>pattern\<close> has been done, and when the string
  is used up the stars that follow are skipped. \<^verbatim>\<open>match_star\<close> is the loop over the suffixes of the string.
\<close>

function stringmatchlen :: "bool \<Rightarrow> byte list \<Rightarrow> byte list \<Rightarrow> bool"
  and match_rest :: "bool \<Rightarrow> byte list \<Rightarrow> byte list \<Rightarrow> bool"
  and match_star :: "bool \<Rightarrow> byte list \<Rightarrow> byte list \<Rightarrow> bool" where
  "stringmatchlen nocase p s =
     (if p = [] \<or> s = [] then p = [] \<and> s = []
      else if hd p = STAR then
        let p = skip_stars p in if length p = 1 then True else match_star nocase (tl p) s
      else if hd p = QUESTION then match_rest nocase (tl p) (tl s)
      else if hd p = LBRACKET then
        let p = tl p; neg = (char_at p 0 = CARET); p = (if neg then tl p else p);
            (matched, p) = class_loop nocase (hd s) False p
        in if matched = neg then False else match_rest nocase p (tl s)
      else
        let p = (if hd p = BACKSLASH \<and> length p \<ge> 2 then tl p else p)
        in if \<not> same_char nocase (hd p) (hd s) then False else match_rest nocase (tl p) (tl s))"
| "match_rest nocase p s =
     (if s = [] then dropWhile (\<lambda>c. c = STAR) p = [] else stringmatchlen nocase p s)"
| "match_star nocase p s =
     (if s = [] then False
      else if stringmatchlen nocase p s then True
      else match_star nocase p (tl s))"
  by pat_completeness auto
termination
proof (relation "measure (\<lambda>x. case x of
      Inl (_, p, s) \<Rightarrow> 3 * (length p + length s)
    | Inr (Inl (_, p, s)) \<Rightarrow> 3 * (length p + length s) + 1
    | Inr (Inr (_, p, s)) \<Rightarrow> 3 * (length p + length s) + 2)", goal_cases)
  case (2 nocase p s x)
  then show ?case using length_skip_stars [of p] by (cases p) auto
next
  case (4 nocase p s x xa xb xc xd y)
  then have "length y \<le> length xb" using length_class_loop [of nocase "hd s" False xb] by (metis snd_conv)
  with 4 show ?case by (cases p; cases s) (auto split: if_splits)
next
  case (5 nocase p s x)
  then show ?case by (cases p; cases s) (auto split: if_splits)
qed (auto simp: neq_Nil_conv)


declare stringmatchlen.simps [simp del] match_rest.simps [simp del] match_star.simps [simp del]

text \<open>\<^verbatim>\<open>stringmatch\<close> takes the lengths with \<^verbatim>\<open>strlen\<close>: up to the first zero byte.\<close>

definition stringmatch :: "byte list \<Rightarrow> byte list \<Rightarrow> bool \<Rightarrow> bool" where
  "stringmatch p s nocase = stringmatchlen nocase (takeWhile (\<lambda>c. c \<noteq> 0) p) (takeWhile (\<lambda>c. c \<noteq> 0) s)"

subsection \<open>Sizes with a unit\<close>

text \<open>\<^verbatim>\<open>strcasecmp(u,"...") == 0\<close>.\<close>

definition strcaseeq :: "byte list \<Rightarrow> byte list \<Rightarrow> bool" where
  "strcaseeq u v \<longleftrightarrow> map (tolower \<circ> sint) u = map (tolower \<circ> sint) v"

text \<open>
  \<^verbatim>\<open>strtoll(buf,&endptr,10)\<close> on an optional minus sign and digits: the value, clamped to the
  range of \<^verbatim>\<open>long long\<close>, and the string at \<^verbatim>\<open>endptr\<close>. Without digits nothing is converted.
\<close>

fun digits_value :: "nat \<Rightarrow> byte list \<Rightarrow> nat \<times> byte list" where
  "digits_value v [] = (v, [])"
| "digits_value v (c # cs) = (if isdigit c then digits_value (v * 10 + (unat c - 48)) cs else (v, c # cs))"

definition strtoll :: "byte list \<Rightarrow> int \<times> byte list" where
  "strtoll buf =
     (let neg = (char_at buf 0 = MINUS); p = (if neg then tl buf else buf)
      in if \<not> isdigit (char_at p 0) then (0, buf)
         else let (v, rest) = digits_value 0 p; v = (if neg then - int v else int v)
              in (max INT64_MIN (min INT64_MAX v), rest))"

definition unit_mul :: "byte list \<Rightarrow> int option" where
  "unit_mul u =
     (if u = [] \<or> strcaseeq u (bytes ''b'') then Some 1
      else if strcaseeq u (bytes ''k'') then Some 1000
      else if strcaseeq u (bytes ''kb'') then Some 1024
      else if strcaseeq u (bytes ''m'') then Some (1000 * 1000)
      else if strcaseeq u (bytes ''mb'') then Some (1024 * 1024)
      else if strcaseeq u (bytes ''g'') then Some (1000 * 1000 * 1000)
      else if strcaseeq u (bytes ''gb'') then Some (1024 * 1024 * 1024)
      else None)"

text \<open>
  The result and the flag \<^verbatim>\<open>*err\<close>; the product wraps around in 64 bits. A C library may or may not set \<^verbatim>\<open>errno\<close> to
  \<^verbatim>\<open>EINVAL\<close> where \<^verbatim>\<open>strtoll\<close> finds no number, which leaves \<^verbatim>\<open>endptr\<close> at the start: the argument \<open>einval\<close> tells whether it does.
\<close>

definition memtoll :: "bool \<Rightarrow> byte list \<Rightarrow> int \<times> bool" where
  "memtoll einval p =
     (let u = (if char_at p 0 = MINUS then tl p else p);
          u = dropWhile isdigit u
      in case unit_mul u of
           None \<Rightarrow> (0, True)
         | Some mul \<Rightarrow>
             let digits = length p - length u
             in if digits \<ge> 128 then (0, True)
                else let buf = take digits p; (val, endptr) = strtoll buf
                     in if val = 0 \<and> (einval \<and> endptr = buf) \<or> endptr \<noteq> [] then (0, True)
                        else (sint (word_of_int (val * mul) :: u64), False))"

subsection \<open>Numbers to strings\<close>

text \<open>The last test is \<open>v \<ge> 10 ^ 12\<close>, so the recursion is at most one deep.\<close>

function digits10 :: "u64 \<Rightarrow> nat" where
  "digits10 v =
     (if v < 10 then 1
      else if v < 100 then 2
      else if v < 1000 then 3
      else if v < 1000000000000 then
        if v < 100000000 then
          if v < 1000000 then
            if v < 10000 then 4 else 5 + (if v \<ge> 100000 then 1 else 0)
          else 7 + (if v \<ge> 10000000 then 1 else 0)
        else if v < 10000000000 then 9 + (if v \<ge> 1000000000 then 1 else 0)
        else 11 + (if v \<ge> 100000000000 then 1 else 0)
      else 12 + digits10 (v div 1000000000000))"
  by pat_completeness auto
termination
proof (relation "measure unat", goal_cases)
  case (2 v)
  then show ?case by (simp add: word_less_nat_alt unat_div)
qed simp

declare digits10.simps [simp del]

definition sdigits10 :: "int \<Rightarrow> nat" where
  "sdigits10 v =
     (if v < 0 then
        let uv = (if v \<noteq> INT64_MIN then word_of_int (- v) else word_of_int INT64_MAX + 1 :: u64)
        in digits10 uv + 1
      else digits10 (word_of_int v))"

definition digit_pairs :: "byte list" where
  "digit_pairs = bytes (''0001020304050607080910111213141516171819'' @
     ''2021222324252627282930313233343536373839'' @ ''4041424344454647484950515253545556575859'' @
     ''6061626364656667686970717273747576777879'' @ ''8081828384858687888990919293949596979899'')"

text \<open>A store into the destination buffer; \<open>None\<close> outside it.\<close>

definition put :: "byte list \<Rightarrow> int \<Rightarrow> byte \<Rightarrow> byte list option" where
  "put dst i c = (if 0 \<le> i \<and> i < int (length dst) then Some (dst[nat i := c]) else None)"

function ll2string_loop :: "byte list \<Rightarrow> int \<Rightarrow> u64 \<Rightarrow> (byte list \<times> int \<times> u64) option" where
  "ll2string_loop dst pos val =
     (if val \<ge> 100 then
        do { let i = unat (val mod 100) * 2;
             dst \<leftarrow> put dst pos (digit_pairs ! (i + 1));
             dst \<leftarrow> put dst (pos - 1) (digit_pairs ! i);
             ll2string_loop dst (pos - 2) (val div 100) }
      else Some (dst, pos, val))"
  by pat_completeness auto
termination
proof (relation "measure (\<lambda>(dst, pos, val). unat val)", goal_cases)
  case (2 dst pos val)
  then show ?case by (simp add: word_le_nat_alt unat_div)
qed simp

declare ll2string_loop.simps [simp del]

text \<open>The buffer after the call and the result; the length of the buffer is \<^verbatim>\<open>dstlen\<close>.\<close>

definition ll2string :: "byte list \<Rightarrow> int \<Rightarrow> (byte list \<times> nat) option" where
  "ll2string dst svalue =
     (let negative = (svalue < 0);
          val = (if negative then if svalue \<noteq> INT64_MIN then word_of_int (- svalue) else word_of_int INT64_MAX + 1
                 else word_of_int svalue :: u64);
          len = digits10 val + (if negative then 1 else 0)
      in if len \<ge> length dst then Some (dst, 0)
         else do {
           dst \<leftarrow> put dst (int len) 0;
           (dst, pos, val) \<leftarrow> ll2string_loop dst (int len - 1) val;
           dst \<leftarrow> (if val < 10 then put dst pos (48 + ucast val)
                   else do { let i = unat val * 2;
                             dst \<leftarrow> put dst pos (digit_pairs ! (i + 1));
                             put dst (pos - 1) (digit_pairs ! i) });
           dst \<leftarrow> (if negative then put dst 0 MINUS else Some dst);
           Some (dst, len) })"

subsection \<open>Strings to numbers\<close>

text \<open>
  The digit loop of \<^verbatim>\<open>string2ll\<close>: \<open>None\<close> is one of its overflow returns; otherwise the value and the
  bytes that are not used.
\<close>

fun string2ll_loop :: "u64 \<Rightarrow> byte list \<Rightarrow> (u64 \<times> byte list) option" where
  "string2ll_loop v [] = Some (v, [])"
| "string2ll_loop v (c # cs) =
     (if 48 \<le> c \<and> c \<le> 57 then
        if v > - 1 div 10 then None
        else let v = v * 10
             in if v > - 1 - ucast (c - 48) then None
                else string2ll_loop (v + ucast (c - 48)) cs
      else Some (v, c # cs))"

definition string2ll :: "byte list \<Rightarrow> int option" where
  "string2ll s =
     (if s = [] then None
      else if length s = 1 \<and> hd s = 48 then Some 0
      else
        let negative = (hd s = MINUS); p = (if negative then tl s else s)
        in if p = [] then None
           else if 49 \<le> hd p \<and> hd p \<le> 57 then
             case string2ll_loop (ucast (hd p - 48)) (tl p) of
               None \<Rightarrow> None
             | Some (v, rest) \<Rightarrow>
                 if rest \<noteq> [] then None
                 else if negative then
                   if v > word_of_int (- (INT64_MIN + 1)) + 1 then None else Some (sint (- v))
                 else if v > word_of_int INT64_MAX then None else Some (sint v)
           else None)"

definition string2l :: "byte list \<Rightarrow> int option" where
  "string2l s = (case string2ll s of None \<Rightarrow> None | Some v \<Rightarrow> if v < INT64_MIN \<or> v > INT64_MAX then None else Some v)"

end
