(* ===== verification/Util_Glob.thy ===== *)
theory Util_Glob
  imports Util
begin

text \<open>
  What a glob pattern means, independently of the matcher: it is a sequence of tokens, and a string
  matches if it can be cut into parts that match the tokens. \<^verbatim>\<open>stringmatchlen\<close> decides
  this for every string that is not empty.
\<close>

subsection \<open>Tokens\<close>

datatype class_item = CExact byte | CRange byte byte | CChar byte

text \<open>A character as a number, a capital letter as its small letter where case is ignored.\<close>

definition fold_case :: "bool \<Rightarrow> byte \<Rightarrow> int" where
  "fold_case nocase c = (if nocase \<and> sint c \<in> {65..90} then sint c + 32 else sint c)"

text \<open>A range goes from its smaller to its larger end, in whatever order they are written.\<close>

fun item_match :: "bool \<Rightarrow> byte \<Rightarrow> class_item \<Rightarrow> bool" where
  "item_match nocase c (CExact a) = (a = c)"
| "item_match nocase c (CRange a b) =
     ((sint a \<le> sint b \<and> fold_case nocase c \<in> {fold_case nocase a..fold_case nocase b}) \<or>
      (sint b \<le> sint a \<and> fold_case nocase c \<in> {fold_case nocase b..fold_case nocase a}))"
| "item_match nocase c (CChar a) = (fold_case nocase a = fold_case nocase c)"

function parse_class :: "byte list \<Rightarrow> class_item list \<times> byte list" where
  "parse_class p =
     (if p = [] then ([], [])
      else if hd p = BACKSLASH \<and> length p \<ge> 2 then apfst (Cons (CExact (p ! 1))) (parse_class (drop 2 p))
      else if hd p = RBRACKET then ([], tl p)
      else if length p \<ge> 3 \<and> p ! 1 = MINUS then apfst (Cons (CRange (hd p) (p ! 2))) (parse_class (drop 3 p))
      else apfst (Cons (CChar (hd p))) (parse_class (tl p)))"
  by pat_completeness auto
termination by (relation "measure length") auto

declare parse_class.simps [simp del]

datatype glob_tok = AnyString | AnyChar | Class bool "class_item list" | Lit byte

lemma length_parse_class: "length (snd (parse_class p)) \<le> length p"
  by (induction p rule: parse_class.induct) (subst parse_class.simps, auto)

function glob_tokens :: "byte list \<Rightarrow> glob_tok list" where
  "glob_tokens p =
     (if p = [] then []
      else if hd p = STAR then AnyString # glob_tokens (tl p)
      else if hd p = QUESTION then AnyChar # glob_tokens (tl p)
      else if hd p = LBRACKET then
        let neg = (tl p \<noteq> [] \<and> hd (tl p) = CARET);
            body = parse_class (if neg then tl (tl p) else tl p)
        in Class neg (fst body) # glob_tokens (snd body)
      else if hd p = BACKSLASH \<and> length p \<ge> 2 then Lit (p ! 1) # glob_tokens (drop 2 p)
      else Lit (hd p) # glob_tokens (tl p))"
  by pat_completeness auto
termination
proof (relation "measure length", goal_cases)
  case (4 p x xa)
  then show ?case using length_parse_class [of "tl (tl p)"] length_parse_class [of "tl p"]
    by (cases p) (auto split: if_splits)
qed auto

declare glob_tokens.simps [simp del]

fun tok_match :: "bool \<Rightarrow> glob_tok \<Rightarrow> byte \<Rightarrow> bool" where
  "tok_match nocase AnyString c = False"
| "tok_match nocase AnyChar c = True"
| "tok_match nocase (Class neg items) c = ((\<exists>i \<in> set items. item_match nocase c i) \<noteq> neg)"
| "tok_match nocase (Lit a) c = (fold_case nocase a = fold_case nocase c)"

text \<open>A star matches any prefix, every other token exactly one byte.\<close>

fun glob :: "bool \<Rightarrow> glob_tok list \<Rightarrow> byte list \<Rightarrow> bool" where
  "glob nocase [] s = (s = [])"
| "glob nocase (t # ts) s =
     (if t = AnyString then \<exists>k \<le> length s. glob nocase ts (drop k s)
      else s \<noteq> [] \<and> tok_match nocase t (hd s) \<and> glob nocase ts (tl s))"

subsection \<open>Equivalence\<close>

lemma char_at_0: "p \<noteq> [] \<Longrightarrow> char_at p 0 = hd p"
  by (simp add: char_at_def hd_conv_nth)

lemma fold_case_tolower: "fold_case nocase c = (if nocase then tolower (sint c) else sint c)"
  by (simp add: fold_case_def tolower_def)

lemma same_char_fold: "same_char nocase a c = (fold_case nocase a = fold_case nocase c)"
  by (auto simp: same_char_def fold_case_tolower dest: signed_word_eqI)

lemma in_range_fold: "in_range nocase a b c = item_match nocase c (CRange a b)"
  by (auto simp: in_range_def fold_case_tolower Let_def)

lemma class_loop_parse:
  "class_loop nocase c m p =
     (m \<or> (\<exists>i \<in> set (fst (parse_class p)). item_match nocase c i), snd (parse_class p))"
proof (induction nocase c m p rule: class_loop.induct)
  case (1 nocase c m p)
  show ?case
  proof (cases "p = []")
    case True
    then show ?thesis by (simp add: class_loop.simps parse_class.simps char_at_def)
  next
    case False
    note c0 = char_at_0 [OF False]
    show ?thesis
      using "1.IH" False c0
      by (auto simp: class_loop.simps [of nocase c m p] parse_class.simps [of p] char_at_def numeral_2_eq_2 in_range_fold same_char_fold
        simp del: item_match.simps(2))
  qed
qed

lemma skip_stars_dropWhile: "skip_stars (STAR # p) = STAR # dropWhile (\<lambda>c. c = STAR) p"
  by (induction p) auto

lemma glob_star_star: "glob nocase (AnyString # AnyString # ts) s = glob nocase (AnyString # ts) s"
proof
  assume "glob nocase (AnyString # AnyString # ts) s"
  then obtain k j where "k \<le> length s" "j \<le> length (drop k s)" "glob nocase ts (drop j (drop k s))" by auto
  then have "j + k \<le> length s" "glob nocase ts (drop (j + k) s)" by simp_all
  then show "glob nocase (AnyString # ts) s" by auto
next
  assume "glob nocase (AnyString # ts) s"
  then obtain k where "k \<le> length s" "glob nocase ts (drop k s)" by auto
  then have "glob nocase (AnyString # ts) (drop 0 s)" by auto
  then show "glob nocase (AnyString # AnyString # ts) s" by (metis glob.simps(2) le0)
qed

lemma glob_tokens_star: "glob_tokens (STAR # p) = AnyString # glob_tokens p"
  by (subst glob_tokens.simps) simp

lemma glob_tokens_Nil [simp]: "glob_tokens [] = []"
  by (subst glob_tokens.simps) simp

lemma glob_drop_stars:
  "glob nocase (AnyString # glob_tokens p) s = glob nocase (AnyString # glob_tokens (dropWhile (\<lambda>c. c = STAR) p)) s"
proof (induction p)
  case (Cons c p)
  show ?case
  proof (cases "c = STAR")
    case True
    then show ?thesis using Cons glob_star_star [of nocase "glob_tokens p" s] by (simp add: glob_tokens_star del: glob.simps)
  qed simp
qed simp

text \<open>The first token of a pattern that does not begin with a star takes one byte.\<close>

lemma glob_tokens_hd: "p \<noteq> [] \<Longrightarrow> hd p \<noteq> STAR \<Longrightarrow> \<exists>t ts. glob_tokens p = t # ts \<and> t \<noteq> AnyString"
  by (subst glob_tokens.simps) (auto simp: Let_def)

lemma glob_empty: "glob nocase (glob_tokens p) [] = (dropWhile (\<lambda>c. c = STAR) p = [])"
proof (induction p)
  case (Cons c p)
  then show ?case using glob_tokens_hd [of "c # p"] by (cases "c = STAR") (auto simp: glob_tokens_star)
qed simp

lemma ex_le_Suc: "(\<exists>k \<le> Suc n. P k) \<longleftrightarrow> P 0 \<or> (\<exists>k \<le> n. P (Suc k))"
  by (metis Suc_le_mono le0 not0_implies_Suc)

lemma match_star_glob:
  assumes "p \<noteq> []" and "hd p \<noteq> STAR"
    and "\<And>s'. length s' \<le> length s \<Longrightarrow> s' \<noteq> [] \<Longrightarrow> stringmatchlen nocase p s' = glob nocase (glob_tokens p) s'"
  shows "match_star nocase p s = glob nocase (AnyString # glob_tokens p) s"
  using assms(3)
proof (induction s)
  case Nil
  then show ?case using glob_tokens_hd [OF assms(1,2)] by (auto simp: match_star.simps)
next
  case (Cons c s)
  have "match_star nocase p (c # s) = (stringmatchlen nocase p (c # s) \<or> match_star nocase p s)"
    by (subst match_star.simps) simp
  also have "\<dots> = (glob nocase (glob_tokens p) (c # s) \<or> glob nocase (AnyString # glob_tokens p) s)"
    using Cons by simp
  also have "\<dots> = (\<exists>k \<le> Suc (length s). glob nocase (glob_tokens p) (drop k (c # s)))"
    by (auto simp: ex_le_Suc)
  finally show ?case by simp
qed


lemma match_rest_glob:
  assumes "s \<noteq> [] \<Longrightarrow> stringmatchlen nocase p s = glob nocase (glob_tokens p) s"
  shows "match_rest nocase p s = glob nocase (glob_tokens p) s"
  using assms glob_empty [of nocase p] by (subst match_rest.simps) auto

lemma stringmatchlen_glob:
  "s \<noteq> [] \<Longrightarrow> stringmatchlen nocase p s = glob nocase (glob_tokens p) s"
proof (induction "length p + length s" arbitrary: p s rule: less_induct)
  case less
  have IH: "match_rest nocase q (tl s) = glob nocase (glob_tokens q) (tl s)" if "length q \<le> length p" for q
    using that less.prems by (intro match_rest_glob less.hyps) (cases s, auto)+
  show ?case
  proof (cases "p = []")
    case True
    then show ?thesis using less.prems by (simp add: stringmatchlen.simps)
  next
    case False
    consider (star) "hd p = STAR" | (q) "hd p = QUESTION" | (cls) "hd p = LBRACKET"
      | (lit) "hd p \<noteq> STAR" "hd p \<noteq> QUESTION" "hd p \<noteq> LBRACKET" by blast
    then show ?thesis
    proof cases
      case star
      then obtain p1 where p: "p = STAR # p1" using False by (cases p) auto
      let ?q = "dropWhile (\<lambda>c. c = STAR) p1"
      have sk: "skip_stars p = STAR # ?q" using p skip_stars_dropWhile by simp
      have g: "glob nocase (glob_tokens p) s = glob nocase (AnyString # glob_tokens ?q) s"
        unfolding p glob_tokens_star by (rule glob_drop_stars)
      have unf: "stringmatchlen nocase p s = (if ?q = [] then True else match_star nocase ?q s)"
        using p less.prems sk by (simp add: stringmatchlen.simps [of nocase "STAR # p1"] Let_def)
      show ?thesis
      proof (cases "?q = []")
        case True
        have "glob nocase (AnyString # glob_tokens ?q) s"
          unfolding True by (auto intro: exI [of _ "length s"])
        then show ?thesis using unf g True by simp
      next
        case ne: False
        have "length ?q < length p" using p by (simp add: le_imp_less_Suc length_dropWhile_le)
        moreover have "hd ?q \<noteq> STAR" using ne hd_dropWhile [of "\<lambda>c. c = STAR" p1] by blast
        ultimately have "match_star nocase ?q s = glob nocase (AnyString # glob_tokens ?q) s"
          using ne by (intro match_star_glob less.hyps) auto
        then show ?thesis unfolding unf g if_not_P [OF ne] .
      qed
    next
      case q
      then show ?thesis using False less.prems IH [of "tl p"]
        by (subst stringmatchlen.simps, subst glob_tokens.simps) simp
    next
      case cls
      let ?neg = "tl p \<noteq> [] \<and> hd (tl p) = CARET"
      let ?b = "if ?neg then tl (tl p) else tl p"
      have neg: "(char_at (tl p) 0 = CARET) = ?neg" by (cases "tl p") (simp_all add: char_at_def)
      have len: "length (snd (parse_class ?b)) \<le> length p"
        using length_parse_class [of ?b] by (auto split: if_splits)
      have "stringmatchlen nocase p s =
          ((\<exists>i \<in> set (fst (parse_class ?b)). item_match nocase (hd s) i) \<noteq> ?neg \<and>
           match_rest nocase (snd (parse_class ?b)) (tl s))"
        using cls False less.prems
        by (simp add: stringmatchlen.simps [of nocase p] Let_def class_loop_parse neg)
      moreover have "glob_tokens p = Class ?neg (fst (parse_class ?b)) # glob_tokens (snd (parse_class ?b))"
        using cls False by (simp add: glob_tokens.simps [of p] Let_def)
      ultimately show ?thesis using IH [OF len] less.prems by simp
    next
      case lit
      show ?thesis
      proof (cases "hd p = BACKSLASH \<and> length p \<ge> 2")
        case True
        then obtain c q where p: "p = BACKSLASH # c # q" by (cases p; cases "tl p") auto
        then show ?thesis using less.prems IH [of q]
          by (simp add: stringmatchlen.simps [of nocase "BACKSLASH # c # q"] glob_tokens.simps [of "BACKSLASH # c # q"] Let_def same_char_fold)
      next
        case nb: False
        then show ?thesis using lit False less.prems IH [of "tl p"]
          by (auto simp: stringmatchlen.simps [of nocase p] glob_tokens.simps [of p] Let_def same_char_fold)
      qed
    qed
  qed
qed


subsection \<open>Properties\<close>

text \<open>
  C11. On a string that is not empty, \<^verbatim>\<open>stringmatchlen\<close> returns exactly what the tokens of the glob
  pattern mean, with escapes, character classes, ranges and case folding; so its
  backtracking over stars misses no match.
\<close>

theorem stringmatchlen_matches_glob:
  assumes "s \<noteq> []"
  shows "stringmatchlen nocase p s = glob nocase (glob_tokens p) s"
  using assms by (rule stringmatchlen_glob)

theorem stringmatchlen_matches_glob_witness:
  "stringmatchlen False (bytes ''h[a-e]*o'') (bytes ''hello'') \<and> glob False [Lit 104, Class False [CRange 97 101], AnyString, Lit 111] (bytes ''hello'')"
proof -
  have t: "glob_tokens (bytes ''h[a-e]*o'') = [Lit 104, Class False [CRange 97 101], AnyString, Lit 111]"
    by (simp add: bytes_def glob_tokens.simps parse_class.simps Let_def)
  have "glob False [Lit 104, Class False [CRange 97 101], AnyString, Lit 111] (bytes ''hello'')"
    by (auto simp: bytes_def fold_case_def intro!: exI [of _ 2])
  then show ?thesis using stringmatchlen_matches_glob [of "bytes ''hello''" False "bytes ''h[a-e]*o''"] t by (simp add: bytes_def)
qed

end
