(* ===== verification/Util_Num.thy ===== *)
theory Util_Num
  imports Util
begin

text \<open>
  The decimal notation of an integer as a reference, and the conversions of \<^verbatim>\<open>util.c\<close> against it.
\<close>

subsection \<open>Decimal notation\<close>

definition digit :: "nat \<Rightarrow> byte" where
  "digit k = of_nat (48 + k)"

fun nat_dec :: "nat \<Rightarrow> byte list" where
  "nat_dec n = (if n < 10 then [digit n] else nat_dec (n div 10) @ [digit (n mod 10)])"

declare nat_dec.simps [simp del]

definition int_dec :: "int \<Rightarrow> byte list" where
  "int_dec v = (if v < 0 then MINUS # nat_dec (nat (- v)) else nat_dec (nat v))"

lemma nat_dec_small: "n < 10 \<Longrightarrow> nat_dec n = [digit n]"
  by (simp add: nat_dec.simps)

lemma nat_dec_step: "10 \<le> n \<Longrightarrow> nat_dec n = nat_dec (n div 10) @ [digit (n mod 10)]"
  by (subst nat_dec.simps) simp

lemma nat_dec_ne [simp]: "nat_dec n \<noteq> []" "[] \<noteq> nat_dec n"
  by (subst nat_dec.simps, simp)+

lemma nat_dec_100: "100 \<le> n \<Longrightarrow> nat_dec n = nat_dec (n div 100) @ [digit (n mod 100 div 10), digit (n mod 100 mod 10)]"
proof -
  assume n: "100 \<le> n"
  have "nat_dec n = nat_dec (n div 10) @ [digit (n mod 10)]" using n by (intro nat_dec_step) simp
  also have "nat_dec (n div 10) = nat_dec (n div 10 div 10) @ [digit (n div 10 mod 10)]" using n by (intro nat_dec_step) simp
  finally show ?thesis
    by (simp add: div_mult2_eq [symmetric] mod_mod_cancel) (simp add: mod_mult2_eq [of n 10 10, simplified])
qed

lemma length_nat_dec_shift: "10 ^ k \<le> n \<Longrightarrow> length (nat_dec n) = length (nat_dec (n div 10 ^ k)) + k"
proof (induction k arbitrary: n)
  case (Suc k)
  have "10 \<le> n" using Suc.prems by (metis le_trans one_le_power power_Suc mult_le_mono2 nat_mult_1_right one_le_numeral)
  then have "length (nat_dec n) = length (nat_dec (n div 10)) + 1" by (simp add: nat_dec_step)
  moreover have "10 ^ k \<le> n div 10" using Suc.prems by (simp add: less_eq_div_iff_mult_less_eq mult.commute)
  ultimately show ?case using Suc.IH [of "n div 10"] by (simp add: div_mult2_eq)
qed simp

lemma length_nat_dec_eq: "10 ^ k \<le> n \<Longrightarrow> n < 10 ^ Suc k \<Longrightarrow> length (nat_dec n) = Suc k"
  using length_nat_dec_shift [of k n] by (simp add: nat_dec_small less_mult_imp_div_less mult.commute)

lemma digits10_dec: "digits10 v = length (nat_dec (unat v))"
proof -
  have small: "digits10 w = length (nat_dec (unat w))" if "w < 1000000000000" for w
  proof -
    have l: "length (nat_dec n) = (if n < 10 then 1 else if n < 10 ^ 2 then 2 else if n < 10 ^ 3 then 3 else if n < 10 ^ 4 then 4
        else if n < 10 ^ 5 then 5 else if n < 10 ^ 6 then 6 else if n < 10 ^ 7 then 7 else if n < 10 ^ 8 then 8
        else if n < 10 ^ 9 then 9 else if n < 10 ^ 10 then 10 else if n < 10 ^ 11 then 11 else 12)" if "n < 10 ^ 12" for n
      using that length_nat_dec_eq [of 0 n] length_nat_dec_eq [of 1 n] length_nat_dec_eq [of 2 n] length_nat_dec_eq [of 3 n]
        length_nat_dec_eq [of 4 n] length_nat_dec_eq [of 5 n] length_nat_dec_eq [of 6 n] length_nat_dec_eq [of 7 n]
        length_nat_dec_eq [of 8 n] length_nat_dec_eq [of 9 n] length_nat_dec_eq [of 10 n] length_nat_dec_eq [of 11 n] nat_dec_small [of n]
      by simp
    show ?thesis using that l [of "unat w"] by (simp add: digits10.simps [of w] word_less_nat_alt word_le_nat_alt)
  qed
  show ?thesis
  proof (cases "v < 1000000000000")
    case False
    have lt: "unat v < 2 ^ 64" using unsigned_less [of v, where ?'a = nat] by simp
    then have "unat v div 1000000000000 < 1000000000000" by simp
    then have "v div 1000000000000 < 1000000000000" by (simp add: word_less_nat_alt unat_div)
    then have "digits10 v = 12 + length (nat_dec (unat v div 10 ^ 12))"
      using False small [of "v div 1000000000000"] by (simp add: digits10.simps [of v] word_less_nat_alt unat_div)
    then show ?thesis using False length_nat_dec_shift [of 12 "unat v"] by (simp add: word_less_nat_alt)
  qed (use small in simp)
qed

lemma digit_pairs_eq: "digit_pairs = concat (map (\<lambda>k. [digit (k div 10), digit (k mod 10)]) [0..<100])"
proof -
  have "[0..<100] = 0 # 1 # [2..<100 :: nat]" by (simp add: upt_conv_Cons numeral_2_eq_2)
  then show ?thesis by (simp only: digit_pairs_def bytes_def) (simp add: upt_rec_numeral digit_def)
qed


lemma digit_pairs_nth:
  assumes "k < 100"
  shows "digit_pairs ! (k * 2) = digit (k div 10)" and "digit_pairs ! (k * 2 + 1) = digit (k mod 10)"
proof -
  have "concat (map (\<lambda>k. [f k, g k]) [0..<n]) ! (k * 2) = f k \<and> concat (map (\<lambda>k. [f k, g k]) [0..<n]) ! (k * 2 + 1) = g k"
    if "k < n" for f g :: "nat \<Rightarrow> byte" and n
    using that
  proof (induction n)
    case (Suc n)
    have "length (concat (map (\<lambda>k. [f k, g k]) [0..<n])) = n * 2" by (induction n) simp_all
    with Suc show ?case by (cases "k = n") (auto simp: nth_append)
  qed simp
  from this [OF assms] show "digit_pairs ! (k * 2) = digit (k div 10)" "digit_pairs ! (k * 2 + 1) = digit (k mod 10)"
    by (simp_all add: digit_pairs_eq)
qed

subsection \<open>Printing\<close>

text \<open>The part of \<^verbatim>\<open>ll2string\<close> that writes the digits.\<close>

definition write_num :: "byte list \<Rightarrow> int \<Rightarrow> u64 \<Rightarrow> byte list option" where
  "write_num dst pos val =
     do { (dst, pos, val) \<leftarrow> ll2string_loop dst pos val;
          if val < 10 then put dst pos (48 + ucast val)
          else do { let i = unat val * 2;
                    dst \<leftarrow> put dst pos (digit_pairs ! (i + 1));
                    put dst (pos - 1) (digit_pairs ! i) } }"

lemma update_pair: "length xs = n \<Longrightarrow> (xs @ x # y # zs)[Suc n := a, n := b] = xs @ b # a # zs"
  by (simp add: list_update_append)

lemma put_pair:
  assumes "pos < length dst" and "0 < pos"
  shows "do { dst \<leftarrow> put dst (int pos) a; put dst (int pos - 1) b } = Some (take (pos - 1) dst @ [b, a] @ drop (pos + 1) dst)"
proof -
  have "drop (pos - 1) dst = dst ! (pos - 1) # dst ! pos # drop (Suc pos) dst"
    using Cons_nth_drop_Suc [of "pos - 1" dst] Cons_nth_drop_Suc [of pos dst] assms by simp
  then have d: "dst = take (pos - 1) dst @ dst ! (pos - 1) # dst ! pos # drop (Suc pos) dst"
    using append_take_drop_id [of "pos - 1" dst] by simp
  have "dst[pos := a, pos - 1 := b] = (take (pos - 1) dst @ dst ! (pos - 1) # dst ! pos # drop (Suc pos) dst)[pos := a, pos - 1 := b]"
    using d by (rule arg_cong)
  also have "\<dots> = take (pos - 1) dst @ [b, a] @ drop (pos + 1) dst"
    using assms update_pair [of "take (pos - 1) dst" "pos - 1" "dst ! (pos - 1)" "dst ! pos" "drop (Suc pos) dst" a b] by simp
  finally have "dst[pos := a, pos - 1 := b] = take (pos - 1) dst @ [b, a] @ drop (pos + 1) dst" .
  then show ?thesis using assms by (simp add: put_def nat_diff_distrib)
qed

lemma write_num_correct:
  assumes "pos < length dst" and "off + length (nat_dec (unat val)) = pos + 1"
  shows "write_num dst (int pos) val = Some (take off dst @ nat_dec (unat val) @ drop (pos + 1) dst)"
  using assms
proof (induction "unat val" arbitrary: dst pos val rule: less_induct)
  case less
  let ?n = "unat val"
  show ?case
  proof (cases "val \<ge> 100")
    case False
    then have n: "?n < 100" by (simp add: word_le_nat_alt)
    have lp: "ll2string_loop dst (int pos) val = Some (dst, int pos, val)" using False by (simp add: ll2string_loop.simps)
    show ?thesis
    proof (cases "val < 10")
      case True
      then have "?n < 10" by (simp add: word_less_nat_alt)
      then have "nat_dec ?n = [digit ?n]" "off = pos" using less.prems by (simp_all add: nat_dec_small)
      moreover have "48 + ucast val = digit ?n" by (simp add: digit_def)
      ultimately show ?thesis using lp True less.prems
        by (simp add: write_num_def put_def upd_conv_take_nth_drop)
    next
      case ten: False
      then have t: "10 \<le> ?n" by (simp add: word_less_nat_alt)
      have nd: "nat_dec ?n = [digit (?n div 10), digit (?n mod 10)]" using t n by (simp add: nat_dec_step nat_dec_small)
      then have "off = pos - 1" "0 < pos" using less.prems by simp_all
      then show ?thesis using lp ten less.prems(1) nd put_pair [of pos dst] digit_pairs_nth [OF n]
        by (simp add: write_num_def Let_def)
    qed
  next
    case True
    then have n: "100 \<le> ?n" by (simp add: word_le_nat_alt)
    note nd = nat_dec_100 [OF n]
    have ud: "unat (val div 100) = ?n div 100" "unat (val mod 100) = ?n mod 100" by (simp_all add: unat_div unat_mod)
    let ?d = "take (pos - 1) dst @ [digit (?n mod 100 div 10), digit (?n mod 100 mod 10)] @ drop (pos + 1) dst"
    obtain l where "length (nat_dec (?n div 100)) = Suc l" by (metis length_0_conv nat_dec_ne(1) not0_implies_Suc)
    then have pos: "2 \<le> pos" "off \<le> pos - 2" "off + length (nat_dec (?n div 100)) = pos - 2 + 1" using less.prems(2) nd by simp_all
    obtain v where v: "put dst (int pos) (digit (?n mod 100 mod 10)) = Some v" "put v (int pos - 1) (digit (?n mod 100 div 10)) = Some ?d"
      using put_pair [of pos dst "digit (?n mod 100 mod 10)" "digit (?n mod 100 div 10)"] less.prems(1) pos(1) by auto
    have "write_num dst (int pos) val = write_num ?d (int (pos - 2)) (val div 100)"
      using True pos(1) v digit_pairs_nth [of "?n mod 100"] ud
      by (simp add: write_num_def ll2string_loop.simps [of dst] Let_def of_nat_diff)
    also have "\<dots> = Some (take off ?d @ nat_dec (?n div 100) @ drop (pos - 2 + 1) ?d)"
      using less.hyps [of "val div 100" "pos - 2" ?d] pos less.prems(1) n ud(1) by simp
    also have "\<dots> = Some (take off dst @ nat_dec ?n @ drop (pos + 1) dst)"
      using pos less.prems(1) nd by simp
    finally show ?thesis .
  qed
qed

text \<open>The unsigned magnitude that both \<^verbatim>\<open>ll2string\<close> and \<^verbatim>\<open>sdigits10\<close> compute.\<close>

lemma magnitude:
  assumes "is_int64 v"
  shows "unat (if v < 0 then if v \<noteq> INT64_MIN then word_of_int (- v) else word_of_int INT64_MAX + 1 else word_of_int v :: u64) = nat \<bar>v\<bar>"
proof -
  have b: "- (2 ^ 63) \<le> v" "v < 2 ^ 63" using assms by simp_all
  have "unat (word_of_int \<bar>v\<bar> :: u64) = nat \<bar>v\<bar>"
    using b by (simp add: unat_eq_nat_uint uint_word_of_int)
  then show ?thesis by (auto split: if_splits)
qed

lemma sdigits10_dec: "is_int64 v \<Longrightarrow> sdigits10 v = length (int_dec v)"
  using magnitude [of v] by (cases "v < 0"; cases "v = INT64_MIN") (simp_all add: sdigits10_def int_dec_def digits10_dec Let_def)

lemma ll2string_fits:
  assumes v: "is_int64 v" and l: "length (int_dec v) < length dst"
  shows "ll2string dst v = Some (int_dec v @ 0 # drop (length (int_dec v) + 1) dst, length (int_dec v))"
proof -
  define val where "val = (if v < 0 then if v \<noteq> INT64_MIN then word_of_int (- v) else word_of_int INT64_MAX + 1 else word_of_int v :: u64)"
  let ?neg = "if v < 0 then 1 else 0 :: nat" and ?len = "length (int_dec v)"
  have uv: "unat val = nat \<bar>v\<bar>" unfolding val_def by (rule magnitude [OF v])
  have len: "?len = digits10 val + ?neg" by (simp add: digits10_dec uv int_dec_def)
  have pos: "0 < ?len" by (simp add: int_dec_def)
  let ?d = "dst[?len := 0]"
  have "write_num ?d (int (?len - 1)) val = Some (take ?neg ?d @ nat_dec (unat val) @ drop (?len - 1 + 1) ?d)"
    using l pos len by (intro write_num_correct) (simp_all add: digits10_dec uv)
  moreover have "drop ?len ?d = 0 # drop (?len + 1) dst"
    using l by (simp add: drop_update_swap Cons_nth_drop_Suc [symmetric])
  moreover have "take ?neg ?d = take ?neg dst" using pos by (simp add: Suc_leI)
  ultimately have w: "write_num ?d (int ?len - 1) val = Some (take ?neg dst @ nat_dec (nat \<bar>v\<bar>) @ 0 # drop (?len + 1) dst)"
    using pos uv by (simp add: of_nat_diff)
  have unf: "ll2string dst v = (if ?len \<ge> length dst then Some (dst, 0) else
      do { dst \<leftarrow> put dst (int ?len) 0; dst \<leftarrow> write_num dst (int ?len - 1) val;
           dst \<leftarrow> (if v < 0 then put dst 0 MINUS else Some dst); Some (dst, ?len) })"
    unfolding ll2string_def Let_def val_def [symmetric] len [symmetric] write_num_def by (simp add: bind_assoc split_def cong: if_cong)
  have p1: "put dst (int ?len) 0 = Some ?d" using l by (simp add: put_def)
  show ?thesis
  proof (cases "v < 0")
    case True
    then obtain x where "take 1 dst = [x]" using l by (cases dst) auto
    then show ?thesis using True unf p1 w l by (simp add: put_def int_dec_def)
  next
    case False
    then show ?thesis using unf p1 w l by (simp add: int_dec_def)
  qed
qed

lemma ll2string_short:
  assumes v: "is_int64 v" and l: "length dst \<le> length (int_dec v)"
  shows "ll2string dst v = Some (dst, 0)"
  using l magnitude [OF v] by (cases "v < 0"; cases "v = INT64_MIN") (simp_all add: ll2string_def int_dec_def digits10_dec Let_def)

subsection \<open>Parsing\<close>

definition dec_val :: "nat \<Rightarrow> byte list \<Rightarrow> nat" where
  "dec_val = foldl (\<lambda>a c. a * 10 + unat (c - 48))"

lemma dec_val_simps [simp]:
  "dec_val a [] = a" "dec_val a (c # cs) = dec_val (a * 10 + unat (c - 48)) cs"
  "dec_val a (cs @ [c]) = dec_val a cs * 10 + unat (c - 48)"
  by (simp_all add: dec_val_def)

lemma dec_val_ge: "a \<le> dec_val a cs"
proof (induction cs arbitrary: a)
  case (Cons c cs)
  from Cons [of "a * 10 + unat (c - 48)"] show ?case by simp
qed simp

lemma unat_digit: "k < 10 \<Longrightarrow> unat (digit k - 48) = k"
  by (simp add: digit_def unat_of_nat)

lemma isdigit_digit: "k < 10 \<Longrightarrow> isdigit (digit k)"
  by (simp add: isdigit_def digit_def word_le_nat_alt unat_word_ariths unat_of_nat)

lemma isdigit_cases: "isdigit c \<Longrightarrow> \<exists>k < 10. c = digit k"
  by (rule exI [of _ "unat (c - 48)"]) (auto simp: isdigit_def digit_def word_le_nat_alt unat_sub_if')

lemma nat_dec_parse: "dec_val 0 (nat_dec n) = n \<and> list_all isdigit (nat_dec n) \<and> (0 < n \<longrightarrow> hd (nat_dec n) \<noteq> 48)"
proof (induction n rule: nat_dec.induct)
  case (1 n)
  show ?case
  proof (cases "n < 10")
    case True
    then show ?thesis using unat_digit [of n] by (auto simp: nat_dec_small isdigit_digit)
  next
    case False
    then show ?thesis using 1 by (simp add: nat_dec_step unat_digit isdigit_digit)
  qed
qed

lemma parse_nat_dec:
  "ds \<noteq> [] \<Longrightarrow> list_all isdigit ds \<Longrightarrow> hd ds \<noteq> 48 \<Longrightarrow> nat_dec (dec_val 0 ds) = ds \<and> 0 < dec_val 0 ds"
proof (induction ds rule: rev_induct)
  case (snoc c cs)
  then obtain k where k: "k < 10" "c = digit k" using isdigit_cases [of c] by auto
  show ?case
  proof (cases "cs = []")
    case True
    then have "k \<noteq> 0" using snoc.prems k by (intro notI) (simp add: digit_def)
    then show ?thesis using True k by (simp add: unat_digit nat_dec_small)
  next
    case False
    then have "nat_dec (dec_val 0 cs) = cs" "0 < dec_val 0 cs" using snoc by simp_all
    then show ?thesis using k by (simp add: unat_digit nat_dec_step)
  qed
qed simp

lemma unat_ucast_byte: "unat (ucast (c :: byte) :: u64) = unat c"
  using unsigned_less [of c, where ?'a = nat] by (simp add: unsigned_ucast_eq take_bit_nat_eq_self)

lemma string2ll_loop_Cons:
  "string2ll_loop v (c # cs) =
     (if \<not> isdigit c then Some (v, c # cs)
      else if v > - 1 div 10 \<or> v * 10 > - 1 - ucast (c - 48) then None
      else string2ll_loop (v * 10 + ucast (c - 48)) cs)"
  by (simp add: isdigit_def Let_def)

declare string2ll_loop.simps(2) [simp del]

lemma string2ll_loop_complete:
  "string2ll_loop v cs = Some (w, []) \<longleftrightarrow> list_all isdigit cs \<and> unat w = dec_val (unat v) cs"
proof (induction cs arbitrary: v)
  case (Cons c cs)
  let ?d = "unat (c - 48)"
  have w: "unat w < 2 ^ 64" using unsigned_less [of w, where ?'a = nat] by simp
  show ?case
  proof (cases "isdigit c")
    case False
    then show ?thesis by (simp add: string2ll_loop_Cons)
  next
    case True
    then have d: "?d < 10" "unat (ucast (c - 48) :: u64) = ?d"
      by (auto simp: isdigit_def word_le_nat_alt unat_sub_if' unat_ucast_byte)
    have ge: "unat v * 10 + ?d \<le> dec_val (unat v * 10 + ?d) cs" by (rule dec_val_ge)
    have m: "unat (- 1 div 10 :: u64) = 1844674407370955161" by (simp add: unat_div)
    show ?thesis
    proof (cases "v > - 1 div 10")
      case True
      then have "2 ^ 64 \<le> unat v * 10 + ?d" using m by (simp add: word_less_nat_alt)
      then show ?thesis using True \<open>isdigit c\<close> ge w by (simp add: string2ll_loop_Cons)
    next
      case False
      then have v: "unat v \<le> 1844674407370955161" using m by (simp add: word_less_nat_alt)
      then have v10: "unat (v * 10) = unat v * 10" by (simp add: unat_word_ariths)
      have lim: "unat (- 1 - ucast (c - 48) :: u64) = 2 ^ 64 - 1 - ?d"
        using d(2) unat_sub [of "ucast (c - 48)" "- 1 :: u64"] by (simp add: unsigned_minus_1_eq_mask mask_eq_exp_minus_1)
      show ?thesis
      proof (cases "v * 10 > - 1 - ucast (c - 48)")
        case True
        then have "2 ^ 64 \<le> unat v * 10 + ?d" using lim v10 by (simp add: word_less_nat_alt)
        then show ?thesis using True False \<open>isdigit c\<close> ge w by (simp add: string2ll_loop_Cons)
      next
        case ok: False
        then have "unat (v * 10 + ucast (c - 48)) = unat v * 10 + ?d"
          using lim v10 d by (simp add: word_less_nat_alt unat_word_ariths)
        then show ?thesis using ok False \<open>isdigit c\<close> Cons.IH [of "v * 10 + ucast (c - 48)"] by (simp add: string2ll_loop_Cons)
      qed
    qed
  qed
qed (auto simp: word_unat_eq_iff)

definition lead :: "byte list \<Rightarrow> bool" where
  "lead p \<longleftrightarrow> p \<noteq> [] \<and> 49 \<le> hd p \<and> hd p \<le> 57"

lemma lead_hd: "lead p \<longleftrightarrow> p \<noteq> [] \<and> isdigit (hd p) \<and> hd p \<noteq> 48"
  by (auto simp: lead_def isdigit_def word_le_nat_alt word_unat_eq_iff)

lemma lead_nat_dec: "lead (nat_dec n) \<longleftrightarrow> 0 < n"
proof (cases "n = 0")
  case True
  then show ?thesis by (simp add: nat_dec_small digit_def lead_def)
next
  case False
  have "isdigit (hd (nat_dec n))" using nat_dec_parse [of n] nat_dec_ne(1) [of n] by (cases "nat_dec n") simp_all
  then show ?thesis using False nat_dec_parse [of n] by (simp add: lead_hd)
qed

lemma string2ll_loop_lead:
  assumes "lead p"
  shows "string2ll_loop (ucast (hd p - 48)) (tl p) = Some (w, []) \<longleftrightarrow> p = nat_dec (unat w)"
proof -
  obtain c cs where p: "p = c # cs" "isdigit c" "c \<noteq> 48" using assms by (cases p) (auto simp: lead_hd)
  then have "string2ll_loop (ucast (hd p - 48)) (tl p) = Some (w, []) \<longleftrightarrow> list_all isdigit p \<and> unat w = dec_val 0 p"
    by (simp add: string2ll_loop_complete unat_ucast_byte)
  also have "\<dots> \<longleftrightarrow> p = nat_dec (unat w)"
    using parse_nat_dec [of p] nat_dec_parse [of "unat w"] assms unfolding lead_hd by metis
  finally show ?thesis .
qed

text \<open>The two ways in which a number can start.\<close>

lemma string2ll_lead:
  assumes "lead p" and "p = s \<and> \<not> neg \<or> s = MINUS # p \<and> neg"
  shows "string2ll s = Some v \<longleftrightarrow>
    (\<exists>w :: u64. p = nat_dec (unat w) \<and> (if neg then w \<le> 2 ^ 63 \<and> v = sint (- w) else w < 2 ^ 63 \<and> v = sint w))"
proof -
  have h: "hd p \<noteq> MINUS" "hd p \<noteq> 48" "p \<noteq> []" using assms(1) by (auto simp: lead_def)
  have unf: "string2ll s =
    (case string2ll_loop (ucast (hd p - 48)) (tl p) of
       None \<Rightarrow> None
     | Some (v, rest) \<Rightarrow>
         if rest \<noteq> [] then None
         else if neg then if v > word_of_int (- (INT64_MIN + 1)) + 1 then None else Some (sint (- v))
         else if v > word_of_int INT64_MAX then None else Some (sint v))"
    using assms h by (auto simp: string2ll_def lead_def Let_def cong: option.case_cong if_cong)
  show ?thesis
    unfolding unf string2ll_loop_lead [OF assms(1), symmetric]
    by (auto simp: word_le_nat_alt word_less_nat_alt split: option.split)
qed

lemma sint_of_nat:
  "n < 2 ^ 63 \<Longrightarrow> sint (of_nat n :: u64) = int n"
  "n \<le> 2 ^ 63 \<Longrightarrow> sint (- of_nat n :: u64) = - int n"
proof -
  assume "n < 2 ^ 63"
  then show "sint (of_nat n :: u64) = int n" by (simp add: signed_of_nat signed_take_bit_int_eq_self)
next
  assume "n \<le> 2 ^ 63"
  moreover have "- of_nat n = (of_int (- int n) :: u64)" by simp
  ultimately show "sint (- of_nat n :: u64) = - int n"
    by (simp only: signed_of_int) (simp add: signed_take_bit_int_eq_self)
qed

lemma string2ll_lead_nat:
  assumes "lead p" and "p = s \<and> \<not> neg \<or> s = MINUS # p \<and> neg"
  shows "string2ll s = Some v \<longleftrightarrow> (\<exists>n. p = nat_dec n \<and> (if neg then n \<le> 2 ^ 63 \<and> v = - int n else n < 2 ^ 63 \<and> v = int n))"
    (is "_ \<longleftrightarrow> (\<exists>n. ?Q n)")
proof -
  have eq: "(if neg then w \<le> 2 ^ 63 \<and> v = sint (- w) else w < 2 ^ 63 \<and> v = sint w) \<longleftrightarrow>
    (if neg then unat w \<le> 2 ^ 63 \<and> v = - int (unat w) else unat w < 2 ^ 63 \<and> v = int (unat w))" for w :: u64
    using sint_of_nat [of "unat w"] by (auto simp: word_le_nat_alt word_less_nat_alt)
  have "unat (of_nat n :: u64) = n" if "?Q n" for n
    using that by (simp add: unat_of_nat split: if_splits)
  then show ?thesis unfolding string2ll_lead [OF assms] eq by metis
qed

lemma int_dec_lead:
  assumes "lead p"
  shows "(\<exists>n. p = nat_dec n \<and> (if neg then n \<le> 2 ^ 63 \<and> v = - int n else n < 2 ^ 63 \<and> v = int n)) \<longleftrightarrow>
    is_int64 v \<and> int_dec v = (if neg then MINUS # p else p)"
proof -
  have m: "hd (nat_dec n) \<noteq> MINUS" for n
    using nat_dec_parse [of n] by (cases "nat_dec n") (auto simp: isdigit_def)
  have pos: "0 < n" if "p = nat_dec n" for n using that assms by (simp add: lead_nat_dec)
  have np: "p \<noteq> MINUS # q" for q using assms by (auto simp: lead_def)
  show ?thesis
  proof (cases neg)
    case True
    have "is_int64 v \<and> int_dec v = MINUS # p \<Longrightarrow> p = nat_dec (nat (- v)) \<and> nat (- v) \<le> 2 ^ 63 \<and> v = - int (nat (- v))"
      using m [of "nat v"] by (auto simp: int_dec_def split: if_splits)
    moreover have "is_int64 v \<and> int_dec v = MINUS # p" if "p = nat_dec n" "n \<le> 2 ^ 63" "v = - int n" for n
      using that pos [of n] by (simp add: int_dec_def)
    ultimately show ?thesis using True by auto
  next
    case False
    have "is_int64 v \<and> int_dec v = p \<Longrightarrow> p = nat_dec (nat v) \<and> nat v < 2 ^ 63 \<and> v = int (nat v)"
      using np [of "nat_dec (nat (- v))"] by (auto simp: int_dec_def split: if_splits)
    moreover have "is_int64 v \<and> int_dec v = p" if "p = nat_dec n" "n < 2 ^ 63" "v = int n" for n
      using that by (simp add: int_dec_def)
    ultimately show ?thesis using False by auto
  qed
qed

lemma string2ll_iff: "string2ll s = Some v \<longleftrightarrow> is_int64 v \<and> s = int_dec v"
proof -
  let ?neg = "hd s = MINUS" and ?p = "if hd s = MINUS then tl s else s"
  have zero: "int_dec v = [48] \<longleftrightarrow> v = 0"
  proof
    assume a: "int_dec v = [48]"
    then have "nat_dec (nat v) = [48]" "0 \<le> v" by (auto simp: int_dec_def split: if_splits)
    then show "v = 0" using nat_dec_parse [of "nat v"] by simp
  qed (simp add: int_dec_def nat_dec_small digit_def)
  have shape: "v \<noteq> 0 \<Longrightarrow> s = int_dec v \<Longrightarrow> s \<noteq> [] \<and> lead ?p"
    using nat_dec_parse [of "nat v"] lead_nat_dec [of "nat v"] lead_nat_dec [of "nat (- v)"]
    by (auto simp: int_dec_def lead_def split: if_splits)
  consider "s = []" | "s = [48]" | "s \<noteq> []" "s \<noteq> [48]" "\<not> lead ?p" | "s \<noteq> []" "lead ?p" by blast
  then show ?thesis
  proof cases
    case 1
    then show ?thesis by (auto simp: string2ll_def int_dec_def)
  next
    case 2
    then show ?thesis using zero by (auto simp: string2ll_def)
  next
    case 3
    then have "string2ll s = None" by (cases s) (auto simp: string2ll_def lead_def Let_def)
    then show ?thesis using 3 shape zero by (cases "v = 0") auto
  next
    case 4
    then have p: "?p = s \<and> \<not> ?neg \<or> s = MINUS # ?p \<and> ?neg" by (cases s) auto
    then have e: "(if ?neg then MINUS # ?p else ?p) = s" by (cases ?neg) simp_all
    show ?thesis unfolding string2ll_lead_nat [OF 4(2) p] int_dec_lead [OF 4(2)] e by blast
  qed
qed

subsection \<open>Sizes with a unit\<close>

lemma isdigit_sint: "isdigit c \<Longrightarrow> 48 \<le> sint c \<and> sint c \<le> 57"
proof -
  assume "isdigit c"
  then obtain k where k: "k < 10" "c = digit k" using isdigit_cases [of c] by auto
  then have "sint c = 48 + int k"
    using signed_of_nat [of "48 + k", where ?'b = 8 and ?'a = int] by (simp add: digit_def signed_take_bit_int_eq_self)
  then show ?thesis using k by simp
qed

lemma length_nat_dec_bound: "n < 10 ^ k \<Longrightarrow> 0 < k \<Longrightarrow> length (nat_dec n) \<le> k"
proof (induction k arbitrary: n)
  case (Suc k)
  show ?case
  proof (cases "n < 10")
    case False
    then have "0 < k" "n div 10 < 10 ^ k" using Suc.prems by (auto intro: gr0I simp: less_mult_imp_div_less mult.commute)
    then show ?thesis using Suc.IH [of "n div 10"] False by (simp add: nat_dec_step)
  qed (simp add: nat_dec_small)
qed simp

lemma length_nat_dec_le: "n \<le> 2 ^ 63 \<Longrightarrow> length (nat_dec n) \<le> 19"
  by (rule length_nat_dec_bound) simp_all

lemma length_int_dec: "is_int64 v \<Longrightarrow> length (int_dec v) \<le> 20"
  using length_nat_dec_le [of "nat \<bar>v\<bar>"] by (cases "v < 0") (simp_all add: int_dec_def nat_le_iff)

lemma digits_value_digits: "list_all isdigit ds \<Longrightarrow> digits_value a ds = (dec_val a ds, [])"
proof (induction ds arbitrary: a)
  case (Cons c cs)
  then have "unat (c - 48) = unat c - 48" by (simp add: isdigit_def word_le_nat_alt unat_sub_if')
  then show ?case using Cons by simp
qed simp

text \<open>The units of \<^verbatim>\<open>redis.conf\<close>: powers of ten, and powers of two with a \<open>b\<close>. Each letter may be a capital.\<close>

definition memory_units :: "(string \<times> int) list" where
  "memory_units =
     [([], 1), (''b'', 1), (''k'', 10 ^ 3), (''kb'', 2 ^ 10), (''m'', 10 ^ 6), (''mb'', 2 ^ 20), (''g'', 10 ^ 9), (''gb'', 2 ^ 30)]"

definition spells :: "byte list \<Rightarrow> string \<Rightarrow> bool" where
  "spells w u = list_all2 (\<lambda>c x. c = of_char x \<or> c = of_char x - 32) w u"

definition signed_text :: "bool \<Rightarrow> byte list \<Rightarrow> byte list" where
  "signed_text neg ds = (if neg then MINUS # ds else ds)"

definition signed_value :: "bool \<Rightarrow> byte list \<Rightarrow> int" where
  "signed_value neg ds = (if neg then - int (dec_val 0 ds) else int (dec_val 0 ds))"

lemma tolower_letter:
  "tolower (sint c) = 98 \<longleftrightarrow> c = 98 \<or> c = 66" "tolower (sint c) = 107 \<longleftrightarrow> c = 107 \<or> c = 75"
  "tolower (sint c) = 109 \<longleftrightarrow> c = 109 \<or> c = 77" "tolower (sint c) = 103 \<longleftrightarrow> c = 103 \<or> c = 71" for c :: byte
proof -
  have s: "sint c = sint d \<longleftrightarrow> c = d" for d :: byte by (auto dest: signed_word_eqI)
  have l: "tolower (sint c) = k \<longleftrightarrow> sint c = k \<or> sint c = k - 32" if "97 \<le> k" "k \<le> 122" for k using that by (auto simp: tolower_def)
  show "tolower (sint c) = 98 \<longleftrightarrow> c = 98 \<or> c = 66" using l [of 98] s [of 98] s [of 66] by simp
  show "tolower (sint c) = 107 \<longleftrightarrow> c = 107 \<or> c = 75" using l [of 107] s [of 107] s [of 75] by simp
  show "tolower (sint c) = 109 \<longleftrightarrow> c = 109 \<or> c = 77" using l [of 109] s [of 109] s [of 77] by simp
  show "tolower (sint c) = 103 \<longleftrightarrow> c = 103 \<or> c = 71" using l [of 103] s [of 103] s [of 71] by simp
qed

lemma strcaseeq_spells:
  "strcaseeq w (bytes ''b'') = spells w ''b''" "strcaseeq w (bytes ''k'') = spells w ''k''" "strcaseeq w (bytes ''kb'') = spells w ''kb''"
  "strcaseeq w (bytes ''m'') = spells w ''m''" "strcaseeq w (bytes ''mb'') = spells w ''mb''" "strcaseeq w (bytes ''g'') = spells w ''g''"
  "strcaseeq w (bytes ''gb'') = spells w ''gb''"
  by (auto simp: strcaseeq_def spells_def bytes_def list_all2_Cons2 map_eq_Cons_conv tolower_letter tolower_def [of 98] tolower_def [of 107]
    tolower_def [of 109] tolower_def [of 103])

lemma spells_unique: "(u, mul) \<in> set memory_units \<Longrightarrow> spells w u \<Longrightarrow> (u', mul') \<in> set memory_units \<Longrightarrow> spells w u' \<Longrightarrow> u' = u \<and> mul' = mul"
  by (auto simp: memory_units_def spells_def list_all2_Cons2)

lemma unit_mul_units: "unit_mul w = Some mul \<longleftrightarrow> (\<exists>u. (u, mul) \<in> set memory_units \<and> spells w u)"
proof -
  have e: "w = [] \<longleftrightarrow> spells w []" by (auto simp: spells_def)
  have "unit_mul w = Some m \<Longrightarrow> \<exists>u. (u, m) \<in> set memory_units \<and> spells w u" for m
    unfolding unit_mul_def strcaseeq_spells e by (auto simp: memory_units_def split: if_splits)
  moreover have "\<exists>m. unit_mul w = Some m" if "(u, mul) \<in> set memory_units" "spells w u" for u
    using that unfolding unit_mul_def strcaseeq_spells e by (auto simp: memory_units_def)
  ultimately show ?thesis using spells_unique by metis
qed

lemma strtoll_signed:
  assumes "list_all isdigit ds" and "ds \<noteq> []" and "is_int64 (signed_value neg ds)"
  shows "strtoll (signed_text neg ds) = (signed_value neg ds, [])"
proof -
  have h: "isdigit (char_at ds 0)" using assms(1,2) by (cases ds) (simp_all add: char_at_def)
  then have "char_at ds 0 \<noteq> MINUS" by (auto simp: isdigit_def)
  then show ?thesis using h assms(2,3) digits_value_digits [OF assms(1), of 0]
    by (cases neg) (simp_all add: strtoll_def signed_text_def signed_value_def char_at_def Let_def)
qed

lemma memtoll_split:
  assumes "list_all isdigit ds" and "ds \<noteq> []" and "w = [] \<or> \<not> isdigit (hd w)"
  shows "memtoll einval (signed_text neg ds @ w) =
    (case unit_mul w of
       None \<Rightarrow> (0, True)
     | Some mul \<Rightarrow>
         if length (signed_text neg ds) \<ge> 128 then (0, True)
         else let (val, endptr) = strtoll (signed_text neg ds)
              in if val = 0 \<and> (einval \<and> endptr = signed_text neg ds) \<or> endptr \<noteq> [] then (0, True) else (sint (word_of_int (val * mul) :: u64), False))"
proof -
  have "dropWhile isdigit (ds @ w) = w" using assms(1,3) by (cases w) (simp_all add: dropWhile_append2 list_all_iff)
  moreover have "char_at (ds @ w) 0 \<noteq> MINUS" using assms(1,2) by (cases ds) (auto simp: char_at_def isdigit_def)
  ultimately have "dropWhile isdigit (if char_at (signed_text neg ds @ w) 0 = MINUS then tl (signed_text neg ds @ w) else signed_text neg ds @ w) = w"
    by (cases neg) (simp_all add: signed_text_def char_at_def)
  then show ?thesis unfolding memtoll_def Let_def by (simp only:) (simp split: option.split)
qed

subsection \<open>Properties\<close>

text \<open>
  C13. \<^verbatim>\<open>string2ll\<close> accepts exactly the canonical decimal strings of the 64 bit integers, and gives
  their value: no leading zeros, no plus sign, no minus zero, no overflow in either direction.
  \<^verbatim>\<open>string2l\<close> adds nothing to it where \<^verbatim>\<open>long\<close> has 64 bits.
\<close>

theorem string2ll_accepts_canonical:
  "(string2ll s = Some v \<longleftrightarrow> is_int64 v \<and> s = int_dec v) \<and> string2l s = string2ll s"
proof
  show "string2l s = string2ll s"
    using string2ll_iff [of s "the (string2ll s)"] by (cases "string2ll s") (simp_all add: string2l_def)
qed (rule string2ll_iff)

text \<open>
  C14. \<^verbatim>\<open>ll2string\<close> never writes outside the buffer. Where the buffer has room for the decimal string
  and the zero byte, it holds them and the result is the length, as \<^verbatim>\<open>sdigits10\<close> computes it, and
  \<^verbatim>\<open>string2ll\<close> reads the number back; otherwise the result is 0 and the buffer is untouched. 21 bytes
  are always enough.
\<close>

theorem ll2string_string2ll_roundtrip:
  assumes v: "is_int64 v"
  shows "\<exists>dst' n. ll2string dst v = Some (dst', n) \<and> length dst' = length dst \<and>
    (21 \<le> length dst \<longrightarrow> 0 < n) \<and>
    (if 0 < n then n = sdigits10 v \<and> take n dst' = int_dec v \<and> dst' ! n = 0 \<and> string2ll (take n dst') = Some v
     else dst' = dst)"
proof (cases "length (int_dec v) < length dst")
  case True
  moreover have "int_dec v \<noteq> []" by (simp add: int_dec_def)
  ultimately show ?thesis
    using ll2string_fits [OF v True] sdigits10_dec [OF v] string2ll_iff [of "int_dec v" v] v by simp
next
  case False
  then show ?thesis using ll2string_short [of v dst] length_int_dec [OF v] v by simp
qed

theorem ll2string_string2ll_roundtrip_witness:
  "\<exists>dst' n. ll2string (replicate 21 0) (-42) = Some (dst', n) \<and> 0 < n \<and> string2ll (take n dst') = Some (-42)"
  using ll2string_string2ll_roundtrip [of "-42" "replicate 21 0"] by (auto split: if_splits)

text \<open>
  C15. \<^verbatim>\<open>memtoll\<close> on a sign, digits and a suffix: with one of the units of the table, in small or capital letters, the result is the number times
  the unit and no error, as long as both fit in 64 bits and the number has less than 128 characters. Any other suffix, and a longer number, is an error.
\<close>

theorem memtoll_value:
  assumes "list_all isdigit ds" and "ds \<noteq> []" and "w = [] \<or> \<not> isdigit (hd w)"
  shows "(\<forall>(u, mul) \<in> set memory_units. spells w u \<and> length (signed_text neg ds) < 128 \<and> is_int64 (signed_value neg ds) \<and> is_int64 (signed_value neg ds * mul) \<longrightarrow>
      memtoll einval (signed_text neg ds @ w) = (signed_value neg ds * mul, False)) \<and>
    ((\<forall>(u, mul) \<in> set memory_units. \<not> spells w u) \<or> 128 \<le> length (signed_text neg ds) \<longrightarrow> memtoll einval (signed_text neg ds @ w) = (0, True))"
proof -
  have "memtoll einval (signed_text neg ds @ w) = (signed_value neg ds * mul, False)"
    if u: "(u, mul) \<in> set memory_units" and s: "spells w u" "length (signed_text neg ds) < 128"
      and v: "is_int64 (signed_value neg ds)" "is_int64 (signed_value neg ds * mul)" for u mul
  proof -
    have "unit_mul w = Some mul" using u s(1) by (auto simp: unit_mul_units)
    moreover have "signed_text neg ds \<noteq> []" using assms(2) by (simp add: signed_text_def)
    ultimately have "memtoll einval (signed_text neg ds @ w) = (sint (word_of_int (signed_value neg ds * mul) :: u64), False)"
      using s(2) strtoll_signed [OF assms(1,2)] v(1) unfolding memtoll_split [OF assms] by (simp del: of_int_mult)
    then show ?thesis
      using v(2) signed_of_int [of "signed_value neg ds * mul", where ?'b = 64 and ?'a = int] by (simp add: signed_take_bit_int_eq_self del: of_int_mult)
  qed
  moreover have "memtoll einval (signed_text neg ds @ w) = (0, True)"
    if "(\<forall>(u, mul) \<in> set memory_units. \<not> spells w u) \<or> 128 \<le> length (signed_text neg ds)"
  proof -
    have "unit_mul w = None \<or> 128 \<le> length (signed_text neg ds)" using that unit_mul_units [of w] by (cases "unit_mul w") auto
    then show ?thesis unfolding memtoll_split [OF assms] by (auto split: option.splits)
  qed
  ultimately show ?thesis by blast
qed

theorem memtoll_value_witness:
  "memtoll False (bytes ''-3Gb'') = (- 3221225472, False) \<and> memtoll False (bytes ''3t'') = (0, True)"
proof
  have t: "bytes ''-3Gb'' = signed_text True [51] @ [71, 98]" "bytes ''3t'' = signed_text False [51] @ [116]" "signed_value True [51] = - 3"
    by (simp_all add: bytes_def signed_text_def signed_value_def)
  show "memtoll False (bytes ''-3Gb'') = (- 3221225472, False)"
    using memtoll_value [of "[51]" "[71, 98]" True False] t by (simp add: isdigit_def memory_units_def spells_def signed_text_def)
  show "memtoll False (bytes ''3t'') = (0, True)"
    using memtoll_value [of "[51]" "[116]" False False] t by (simp add: isdigit_def memory_units_def spells_def signed_text_def)
qed

end
