(* ===== verification/Refine.thy ===== *)
theory Refine
  imports Prelude
begin

text \<open>
  Sequences of operations: the concrete run, the run of the specification, and the interface of a
  component whose operations simulate their specifications one by one.
\<close>

primrec run_steps :: "('o \<Rightarrow> 's \<Rightarrow> 's option) \<Rightarrow> 'o list \<Rightarrow> 's \<Rightarrow> 's option" where
  "run_steps step [] s = Some s"
| "run_steps step (x # xs) s = do { s \<leftarrow> step x s; run_steps step xs s }"

primrec run_text :: "('o \<Rightarrow> 'a \<Rightarrow> 'a) \<Rightarrow> 'o list \<Rightarrow> 'a \<Rightarrow> 'a" where
  "run_text spec [] a = a"
| "run_text spec (x # xs) a = run_text spec xs (spec x a)"

primrec run_pre :: "('o \<Rightarrow> 'a \<Rightarrow> bool) \<Rightarrow> ('o \<Rightarrow> 'a \<Rightarrow> 'a) \<Rightarrow> 'o list \<Rightarrow> 'a \<Rightarrow> bool" where
  "run_pre pre spec [] a = True"
| "run_pre pre spec (x # xs) a \<longleftrightarrow> pre x a \<and> run_pre pre spec xs (spec x a)"

locale stepwise =
  fixes rep :: "'s \<Rightarrow> 'a \<Rightarrow> bool" and step :: "'o \<Rightarrow> 's \<Rightarrow> 's option"
    and spec :: "'o \<Rightarrow> 'a \<Rightarrow> 'a" and pre :: "'o \<Rightarrow> 'a \<Rightarrow> bool"
  assumes sim: "rep s a \<Longrightarrow> pre x a \<Longrightarrow> \<exists>s'. step x s = Some s' \<and> rep s' (spec x a)"
begin

lemma run_sim:
  "rep s a \<Longrightarrow> run_pre pre spec xs a \<Longrightarrow> \<exists>s'. run_steps step xs s = Some s' \<and> rep s' (run_text spec xs a)"
proof (induction xs arbitrary: s a)
  case (Cons x xs)
  then obtain s1 where "step x s = Some s1" "rep s1 (spec x a)" using sim by fastforce
  then show ?case using Cons by fastforce
qed simp

end

end
