(* ===== verification/Sds.thy ===== *)
theory Sds
  imports Prelude Util
begin

text \<open>
  The dynamic strings of \<^verbatim>\<open>sds.c\<close> and \<^verbatim>\<open>sds.h\<close>: header types, growth policy, and the operations on
  strings.

  An \<^verbatim>\<open>sds\<close> points at the bytes of a string, in the middle of an allocation that starts with one of
  five headers. The record has the flags byte, the two length fields of the header (unused with
  type 5, which keeps the length in the flags) and the bytes of the allocation behind the header.
  The fields are truncated to the width of the header when they are written. A length of type
  \<^verbatim>\<open>size_t\<close> is a number below \<open>2 ^ 64\<close>. \<open>None\<close> is an access outside the allocation or a failed
  assertion; running out of memory aborts the server and is not a result.
\<close>

unbundle bit_operations_syntax

record sds =
  sds_flags :: byte
  sds_len :: nat
  sds_alloc :: nat
  sds_buf :: "byte list"

abbreviation (input) SDS_TYPE_5 :: byte where "SDS_TYPE_5 \<equiv> 0"
abbreviation (input) SDS_TYPE_8 :: byte where "SDS_TYPE_8 \<equiv> 1"
abbreviation (input) SDS_TYPE_16 :: byte where "SDS_TYPE_16 \<equiv> 2"
abbreviation (input) SDS_TYPE_32 :: byte where "SDS_TYPE_32 \<equiv> 3"
abbreviation (input) SDS_TYPE_64 :: byte where "SDS_TYPE_64 \<equiv> 4"
abbreviation (input) SDS_TYPE_MASK :: byte where "SDS_TYPE_MASK \<equiv> 7"
abbreviation (input) SDS_MAX_PREALLOC :: nat where "SDS_MAX_PREALLOC \<equiv> 1024 * 1024"
abbreviation (input) SDS_LLSTR_SIZE :: nat where "SDS_LLSTR_SIZE \<equiv> 21"

definition size_wrap :: "nat \<Rightarrow> nat" where
  "size_wrap n = n mod 2 ^ 64"

subsection \<open>Headers\<close>

definition sds_type :: "sds \<Rightarrow> byte" where
  "sds_type s = sds_flags s AND SDS_TYPE_MASK"

text \<open>The width of the fields \<^verbatim>\<open>len\<close> and \<^verbatim>\<open>alloc\<close>; 0 for type 5 and the unused type numbers.\<close>

definition hdr_bits :: "byte \<Rightarrow> nat" where
  "hdr_bits t = (if t = SDS_TYPE_8 then 8 else if t = SDS_TYPE_16 then 16
                 else if t = SDS_TYPE_32 then 32 else if t = SDS_TYPE_64 then 64 else 0)"

definition sdsHdrSize :: "byte \<Rightarrow> nat" where
  "sdsHdrSize t =
     (let t = t AND SDS_TYPE_MASK in
      if t = SDS_TYPE_5 then 1
      else if t = SDS_TYPE_8 then 3
      else if t = SDS_TYPE_16 then 5
      else if t = SDS_TYPE_32 then 9
      else if t = SDS_TYPE_64 then 17
      else 0)"

definition sdsReqType :: "nat \<Rightarrow> byte" where
  "sdsReqType n =
     (if n < 2 ^ 5 then SDS_TYPE_5
      else if n < 2 ^ 8 then SDS_TYPE_8
      else if n < 2 ^ 16 then SDS_TYPE_16
      else if n < 2 ^ 32 then SDS_TYPE_32
      else SDS_TYPE_64)"

definition type5_len :: "byte \<Rightarrow> nat" where
  "type5_len f = unat (drop_bit 3 f)"

definition sdslen :: "sds \<Rightarrow> nat" where
  "sdslen s = (if sds_type s = SDS_TYPE_5 then type5_len (sds_flags s)
               else if hdr_bits (sds_type s) \<noteq> 0 then sds_len s else 0)"

text \<open>
  A length above the capacity would wrap around, in 32 bits for the 32 bit header and in
  \<^verbatim>\<open>size_t\<close> for the others.
\<close>

definition sdsavail :: "sds \<Rightarrow> nat" where
  "sdsavail s =
     (if sds_type s = SDS_TYPE_5 then 0
      else if sds_type s = SDS_TYPE_32 then (sds_alloc s + 2 ^ 32 - sds_len s) mod 2 ^ 32
      else if hdr_bits (sds_type s) \<noteq> 0 then (sds_alloc s + 2 ^ 64 - sds_len s) mod 2 ^ 64
      else 0)"

definition sdssetlen :: "sds \<Rightarrow> nat \<Rightarrow> sds" where
  "sdssetlen s newlen =
     (if sds_type s = SDS_TYPE_5 then s\<lparr>sds_flags := SDS_TYPE_5 OR of_nat (newlen * 2 ^ 3)\<rparr>
      else if hdr_bits (sds_type s) \<noteq> 0 then s\<lparr>sds_len := newlen mod 2 ^ hdr_bits (sds_type s)\<rparr>
      else s)"

definition sdsinclen :: "sds \<Rightarrow> nat \<Rightarrow> sds" where
  "sdsinclen s inc =
     (if sds_type s = SDS_TYPE_5 then
        let newlen = (type5_len (sds_flags s) + inc) mod 2 ^ 8
        in s\<lparr>sds_flags := SDS_TYPE_5 OR of_nat (newlen * 2 ^ 3)\<rparr>
      else if hdr_bits (sds_type s) \<noteq> 0 then s\<lparr>sds_len := (sds_len s + inc) mod 2 ^ hdr_bits (sds_type s)\<rparr>
      else s)"

definition sdsalloc :: "sds \<Rightarrow> nat" where
  "sdsalloc s = (if sds_type s = SDS_TYPE_5 then type5_len (sds_flags s)
                 else if hdr_bits (sds_type s) \<noteq> 0 then sds_alloc s else 0)"

definition sdssetalloc :: "sds \<Rightarrow> nat \<Rightarrow> sds" where
  "sdssetalloc s newlen =
     (if hdr_bits (sds_type s) \<noteq> 0 then s\<lparr>sds_alloc := newlen mod 2 ^ hdr_bits (sds_type s)\<rparr> else s)"

text \<open>
  An allocation of a header, \<open>n\<close> bytes and the zero byte: the bytes behind the header. Where the sum
  wraps around, the block is too small for what is written to it next.
\<close>

definition s_malloc :: "(nat \<Rightarrow> byte) \<Rightarrow> nat \<Rightarrow> nat \<Rightarrow> byte list option" where
  "s_malloc junk hdrlen n = (if hdrlen + n + 1 < 2 ^ 64 then Some (map junk [0..<n + 1]) else None)"

definition s_realloc :: "(nat \<Rightarrow> byte) \<Rightarrow> byte list \<Rightarrow> nat \<Rightarrow> nat \<Rightarrow> byte list option" where
  "s_realloc junk m hdrlen n = (if hdrlen + n + 1 < 2 ^ 64 then Some (zrealloc junk m (n + 1)) else None)"

definition set_byte :: "sds \<Rightarrow> nat \<Rightarrow> byte \<Rightarrow> sds option" where
  "set_byte s i c = do { m \<leftarrow> wr (sds_buf s) i [c]; Some (s\<lparr>sds_buf := m\<rparr>) }"

definition set_bytes :: "sds \<Rightarrow> nat \<Rightarrow> byte list \<Rightarrow> sds option" where
  "set_bytes s i bs = do { m \<leftarrow> wr (sds_buf s) i bs; Some (s\<lparr>sds_buf := m\<rparr>) }"

definition cstr :: "byte list \<Rightarrow> byte list" where
  "cstr t = takeWhile (\<lambda>c. c \<noteq> 0) t"

subsection \<open>Creation\<close>

datatype sds_init = Init_NULL | SDS_NOINIT | Init "byte list"

text \<open>The header fields of a new string.\<close>

definition new_hdr :: "byte \<Rightarrow> nat \<Rightarrow> byte list \<Rightarrow> sds" where
  "new_hdr ty initlen m =
     (if ty = SDS_TYPE_5 then \<lparr>sds_flags = ty OR of_nat (initlen * 2 ^ 3), sds_len = 0, sds_alloc = 0, sds_buf = m\<rparr>
      else \<lparr>sds_flags = ty, sds_len = initlen mod 2 ^ hdr_bits ty, sds_alloc = initlen mod 2 ^ hdr_bits ty,
            sds_buf = m\<rparr>)"

definition sdsnewlen :: "(nat \<Rightarrow> byte) \<Rightarrow> sds_init \<Rightarrow> nat \<Rightarrow> sds option" where
  "sdsnewlen junk init initlen =
     (let ty = sdsReqType initlen;
          ty = (if ty = SDS_TYPE_5 \<and> initlen = 0 then SDS_TYPE_8 else ty)
      in do {
        m \<leftarrow> s_malloc junk (sdsHdrSize ty) initlen;
        let m = (if init = Init_NULL then replicate (initlen + 1) 0 else m);
        let s = new_hdr ty initlen m;
        s \<leftarrow> (case init of
                Init t \<Rightarrow> if initlen \<noteq> 0 then do { bs \<leftarrow> rd t 0 initlen; set_bytes s 0 bs } else Some s
              | _ \<Rightarrow> Some s);
        set_byte s initlen 0 })"

definition sdsempty :: "(nat \<Rightarrow> byte) \<Rightarrow> sds option" where
  "sdsempty junk = sdsnewlen junk (Init []) 0"

definition sdsnew :: "(nat \<Rightarrow> byte) \<Rightarrow> byte list option \<Rightarrow> sds option" where
  "sdsnew junk init =
     (case init of None \<Rightarrow> sdsnewlen junk Init_NULL 0 | Some t \<Rightarrow> sdsnewlen junk (Init t) (length (cstr t)))"

definition sdsdup :: "(nat \<Rightarrow> byte) \<Rightarrow> sds \<Rightarrow> sds option" where
  "sdsdup junk s = sdsnewlen junk (Init (sds_buf s)) (sdslen s)"

definition sdsupdatelen :: "sds \<Rightarrow> sds option" where
  "sdsupdatelen s = (if 0 \<in> set (sds_buf s) then Some (sdssetlen s (length (cstr (sds_buf s)))) else None)"

definition sdsclear :: "sds \<Rightarrow> sds option" where
  "sdsclear s = set_byte (sdssetlen s 0) 0 0"

subsection \<open>Capacity\<close>

definition sdsMakeRoomFor :: "(nat \<Rightarrow> byte) \<Rightarrow> sds \<Rightarrow> nat \<Rightarrow> sds option" where
  "sdsMakeRoomFor junk s addlen =
     (if sdsavail s \<ge> addlen then Some s
      else
        let len = sdslen s; oldtype = sds_type s;
            newlen = size_wrap (len + addlen);
            newlen = (if newlen < SDS_MAX_PREALLOC then newlen * 2 else size_wrap (newlen + SDS_MAX_PREALLOC));
            ty = sdsReqType newlen;
            ty = (if ty = SDS_TYPE_5 then SDS_TYPE_8 else ty);
            hdrlen = sdsHdrSize ty
        in do {
          s \<leftarrow> (if oldtype = ty then
                   do { m \<leftarrow> s_realloc junk (sds_buf s) hdrlen newlen; Some (s\<lparr>sds_buf := m\<rparr>) }
                 else
                   do { m \<leftarrow> s_malloc junk hdrlen newlen;
                        bs \<leftarrow> rd (sds_buf s) 0 (len + 1);
                        m \<leftarrow> wr m 0 bs;
                        Some (sdssetlen (s\<lparr>sds_flags := ty, sds_buf := m\<rparr>) len) });
          Some (sdssetalloc s newlen) })"

definition sdsRemoveFreeSpace :: "(nat \<Rightarrow> byte) \<Rightarrow> sds \<Rightarrow> sds option" where
  "sdsRemoveFreeSpace junk s =
     (let oldtype = sds_type s; oldhdrlen = sdsHdrSize oldtype; len = sdslen s
      in if sdsavail s = 0 then Some s
         else
           let ty = sdsReqType len; hdrlen = sdsHdrSize ty
           in do {
             s \<leftarrow> (if oldtype = ty \<or> ty > SDS_TYPE_8 then
                      do { m \<leftarrow> s_realloc junk (sds_buf s) oldhdrlen len; Some (s\<lparr>sds_buf := m\<rparr>) }
                    else
                      do { m \<leftarrow> s_malloc junk hdrlen len;
                           bs \<leftarrow> rd (sds_buf s) 0 (len + 1);
                           m \<leftarrow> wr m 0 bs;
                           Some (sdssetlen (s\<lparr>sds_flags := ty, sds_buf := m\<rparr>) len) });
             Some (sdssetalloc s len) })"

definition sdsAllocSize :: "sds \<Rightarrow> nat" where
  "sdsAllocSize s = size_wrap (sdsHdrSize (sds_flags s) + sdsalloc s + 1)"

text \<open>
  The assertion of each header type, with the conversions of the operands: the increment is
  a signed 64 bit number, compared after a conversion to 32 bits in some places.
\<close>

definition sdsIncrLen :: "sds \<Rightarrow> int \<Rightarrow> sds option" where
  "sdsIncrLen s incr =
     (let u32_neg = (- incr) mod 2 ^ 32; t = sds_type s; len = int (sds_len s);
          avail = int (sds_alloc s) - len;
          ok = (if t = SDS_TYPE_5 then
                  let oldlen = int (type5_len (sds_flags s))
                  in incr > 0 \<and> oldlen + incr < 32 \<or> incr < 0 \<and> oldlen \<ge> u32_neg
                else if t = SDS_TYPE_8 \<or> t = SDS_TYPE_16 then
                  incr \<ge> 0 \<and> avail \<ge> incr \<or> incr < 0 \<and> len \<ge> u32_neg
                else if t = SDS_TYPE_32 then
                  incr \<ge> 0 \<and> avail mod 2 ^ 32 \<ge> incr mod 2 ^ 32 \<or> incr < 0 \<and> len \<ge> u32_neg
                else if t = SDS_TYPE_64 then
                  incr \<ge> 0 \<and> avail mod 2 ^ 64 \<ge> incr mod 2 ^ 64 \<or> incr < 0 \<and> len \<ge> (- incr) mod 2 ^ 64
                else True)
      in if \<not> ok then None
         else if t = SDS_TYPE_5 then
           let l = nat (int (type5_len (sds_flags s)) + incr)
           in set_byte (s\<lparr>sds_flags := SDS_TYPE_5 OR of_nat (l * 2 ^ 3)\<rparr>) l 0
         else if hdr_bits t \<noteq> 0 then
           let l = nat ((len + incr) mod 2 ^ hdr_bits t) in set_byte (s\<lparr>sds_len := l\<rparr>) l 0
         else set_byte s 0 0)"

definition sdsgrowzero :: "(nat \<Rightarrow> byte) \<Rightarrow> sds \<Rightarrow> nat \<Rightarrow> sds option" where
  "sdsgrowzero junk s len =
     (let curlen = sdslen s
      in if len \<le> curlen then Some s
         else do { s \<leftarrow> sdsMakeRoomFor junk s (len - curlen);
                   s \<leftarrow> set_bytes s curlen (replicate (len - curlen + 1) 0);
                   Some (sdssetlen s len) })"

subsection \<open>Appending and copying\<close>

definition sdscatlen :: "(nat \<Rightarrow> byte) \<Rightarrow> sds \<Rightarrow> byte list \<Rightarrow> sds option" where
  "sdscatlen junk s t =
     (let curlen = sdslen s; len = length t
      in do { s \<leftarrow> sdsMakeRoomFor junk s len;
              s \<leftarrow> set_bytes s curlen t;
              let s = sdssetlen s (size_wrap (curlen + len));
              set_byte s (size_wrap (curlen + len)) 0 })"

definition sdscat :: "(nat \<Rightarrow> byte) \<Rightarrow> sds \<Rightarrow> byte list \<Rightarrow> sds option" where
  "sdscat junk s t = sdscatlen junk s (cstr t)"

definition sdscatsds :: "(nat \<Rightarrow> byte) \<Rightarrow> sds \<Rightarrow> sds \<Rightarrow> sds option" where
  "sdscatsds junk s t = do { bs \<leftarrow> rd (sds_buf t) 0 (sdslen t); sdscatlen junk s bs }"

definition sdscpylen :: "(nat \<Rightarrow> byte) \<Rightarrow> sds \<Rightarrow> byte list \<Rightarrow> sds option" where
  "sdscpylen junk s t =
     (let len = length t
      in do { s \<leftarrow> (if sdsalloc s < len then sdsMakeRoomFor junk s (size_wrap (len + 2 ^ 64 - sdslen s)) else Some s);
              s \<leftarrow> set_bytes s 0 t;
              s \<leftarrow> set_byte s len 0;
              Some (sdssetlen s len) })"

definition sdscpy :: "(nat \<Rightarrow> byte) \<Rightarrow> sds \<Rightarrow> byte list \<Rightarrow> sds option" where
  "sdscpy junk s t = sdscpylen junk s (cstr t)"

subsection \<open>Numbers\<close>

text \<open>The loop that writes the digits in reverse order: the buffer and the position behind them.\<close>

function rev_digits :: "byte list \<Rightarrow> nat \<Rightarrow> u64 \<Rightarrow> (byte list \<times> nat) option" where
  "rev_digits s p v =
     do { s \<leftarrow> wr s p [48 + ucast (v mod 10)];
          if v div 10 \<noteq> 0 then rev_digits s (p + 1) (v div 10) else Some (s, p + 1) }"
  by pat_completeness auto
termination
proof (relation "measure (\<lambda>(s, p, v). unat v)", goal_cases)
  case (2 s p v x)
  then have "unat (v div 10) \<noteq> 0" by (simp only: unat_eq_zero not_False_eq_True)
  then show ?case by (simp add: unat_div)
qed simp

declare rev_digits.simps [simp del]

text \<open>The loop that reverses the bytes from \<open>a\<close> to \<open>b\<close>.\<close>

function swap_loop :: "byte list \<Rightarrow> nat \<Rightarrow> nat \<Rightarrow> byte list option" where
  "swap_loop s a b =
     (if a < b then if b < length s then swap_loop (s[a := s ! b, b := s ! a]) (a + 1) (b - 1) else None
      else Some s)"
  by pat_completeness auto
termination by (relation "measure (\<lambda>(s, a, b). b)") auto

declare swap_loop.simps [simp del]

text \<open>\<^verbatim>\<open>-value\<close> overflows for the least value; with the usual wrap-around the magnitude is right.\<close>

definition sdsll2str :: "byte list \<Rightarrow> int \<Rightarrow> (byte list \<times> nat) option" where
  "sdsll2str s v =
     (let u = (if v < 0 then word_of_int (- v) else word_of_int v :: u64)
      in do { (s, p) \<leftarrow> rev_digits s 0 u;
              (s, p) \<leftarrow> (if v < 0 then do { s \<leftarrow> wr s p [MINUS]; Some (s, p + 1) } else Some (s, p));
              s \<leftarrow> wr s p [0];
              s \<leftarrow> swap_loop s 0 (p - 1);
              Some (s, p) })"

definition sdsull2str :: "byte list \<Rightarrow> u64 \<Rightarrow> (byte list \<times> nat) option" where
  "sdsull2str s v =
     do { (s, p) \<leftarrow> rev_digits s 0 v;
          s \<leftarrow> wr s p [0];
          s \<leftarrow> swap_loop s 0 (p - 1);
          Some (s, p) }"

definition sdsfromlonglong :: "(nat \<Rightarrow> byte) \<Rightarrow> int \<Rightarrow> sds option" where
  "sdsfromlonglong junk v =
     do { (b, len) \<leftarrow> sdsll2str (map junk [0..<SDS_LLSTR_SIZE]) v; sdsnewlen junk (Init b) len }"

end
