(* ===== verification/Sds_Text.thy ===== *)
theory Sds_Text
  imports Sds
begin

text \<open>
  The operations of \<^verbatim>\<open>sds.c\<close> that format, trim, compare, split and join strings.
\<close>

unbundle bit_operations_syntax

subsection \<open>Formatting\<close>

text \<open>
  \<^verbatim>\<open>sdscatvprintf\<close> tries buffers of growing size. \<open>out\<close> is the text that \<^verbatim>\<open>vsnprintf\<close> prints for the
  format and its arguments: it stores as much of it as fits, and a zero byte.
\<close>

lemma vprintf_mark:
  assumes "wr m (length m - 2) [0] = Some m1" and "wr m1 0 (take (length m1 - 1) out @ [0]) = Some m2"
    and "2 \<le> length m" and "m2 ! (length m - 2) \<noteq> 0"
  shows "length m \<le> length out + 1"
proof (rule ccontr)
  assume a: "\<not> ?thesis"
  have l: "length m1 = length m" using assms(1) by (rule length_wr)
  have z: "m1 ! (length m - 2) = 0" using assms(1,3) by (auto simp: wr_def nth_append split: if_splits)
  have "m2 = out @ [0] @ drop (length out + 1) m1" using assms(2) a l by (auto simp: wr_def split: if_splits)
  moreover obtain k where "length m = k + 2" using assms(3) by (metis add.commute le_Suc_ex)
  ultimately have "m2 ! (length m - 2) = 0" using a z l
    by (cases "length out = k") (simp_all add: nth_append nth_Cons')
  then show False using assms(4) by simp
qed

function vprintf_loop :: "(nat \<Rightarrow> byte) \<Rightarrow> byte list \<Rightarrow> byte list \<Rightarrow> byte list option" where
  "vprintf_loop junk out m =
     (let buflen = length m
      in if buflen < 2 then None
         else do { m \<leftarrow> wr m (buflen - 2) [0];
                   m \<leftarrow> wr m 0 (take (length m - 1) out @ [0]);
                   if m ! (buflen - 2) \<noteq> 0 then vprintf_loop junk out (map junk [0..<buflen * 2])
                   else Some m })"
  by pat_completeness auto
termination
proof (relation "measure (\<lambda>(junk, out, m). length out + 2 - length m)", goal_cases)
  case (2 junk out m n m1 m2)
  then have "length m \<le> length out + 1" "2 \<le> length m" using vprintf_mark [of m m1 out m2] by simp_all
  then show ?case using 2(1) by simp
qed simp

declare vprintf_loop.simps [simp del]

definition sdscatvprintf :: "(nat \<Rightarrow> byte) \<Rightarrow> sds \<Rightarrow> byte list \<Rightarrow> byte list \<Rightarrow> sds option" where
  "sdscatvprintf junk s fmt out =
     (let buflen = length (cstr fmt) * 2;
          m = (if buflen > 1024 then map junk [0..<buflen] else map junk [0..<1024])
      in do { m \<leftarrow> vprintf_loop junk out m; sdscat junk s m })"

datatype fmt_arg =
  Arg_cstr "byte list" | Arg_sds sds | Arg_int int | Arg_longlong int | Arg_uint u32 | Arg_ulonglong u64

definition fmt_put :: "(nat \<Rightarrow> byte) \<Rightarrow> sds \<Rightarrow> nat \<Rightarrow> byte list \<Rightarrow> (sds \<times> nat) option" where
  "fmt_put junk s i bs =
     (let l = length bs
      in do { s \<leftarrow> (if sdsavail s < l then sdsMakeRoomFor junk s l else Some s);
              s \<leftarrow> set_bytes s i bs;
              Some (sdsinclen s l, i + l) })"

definition fmt_char :: "sds \<Rightarrow> nat \<Rightarrow> byte \<Rightarrow> (sds \<times> nat) option" where
  "fmt_char s i c = do { s \<leftarrow> set_byte s i c; Some (sdsinclen s 1, i + 1) }"

text \<open>
  The bytes that a conversion appends. A \<^verbatim>\<open>va_arg\<close> of another type than the argument is undefined.
\<close>

definition fmt_arg_bytes :: "(nat \<Rightarrow> byte) \<Rightarrow> byte \<Rightarrow> fmt_arg \<Rightarrow> byte list option" where
  "fmt_arg_bytes junk nx a =
     (let b = map junk [0..<SDS_LLSTR_SIZE]
      in case a of
           Arg_cstr t \<Rightarrow> if nx = 115 then Some (cstr t) else None
         | Arg_sds t \<Rightarrow> if nx = 83 then rd (sds_buf t) 0 (sdslen t) else None
         | Arg_int v \<Rightarrow> if nx = 105 then do { (b, l) \<leftarrow> sdsll2str b v; rd b 0 l } else None
         | Arg_longlong v \<Rightarrow> if nx = 73 then do { (b, l) \<leftarrow> sdsll2str b v; rd b 0 l } else None
         | Arg_uint v \<Rightarrow> if nx = 117 then do { (b, l) \<leftarrow> sdsull2str b (ucast v); rd b 0 l } else None
         | Arg_ulonglong v \<Rightarrow> if nx = 85 then do { (b, l) \<leftarrow> sdsull2str b v; rd b 0 l } else None)"

text \<open>A percent sign at the end of the format makes the code read behind the format.\<close>

fun catfmt_loop :: "(nat \<Rightarrow> byte) \<Rightarrow> sds \<Rightarrow> nat \<Rightarrow> byte list \<Rightarrow> fmt_arg list \<Rightarrow> (sds \<times> nat) option" where
  "catfmt_loop junk s i [] ap = Some (s, i)"
| "catfmt_loop junk s i (c # f) ap =
     do { s \<leftarrow> (if sdsavail s = 0 then sdsMakeRoomFor junk s 1 else Some s);
          if c = 37 then
            case f of
              [] \<Rightarrow> None
            | nx # f' \<Rightarrow>
                if nx \<in> {115, 83, 105, 73, 117, 85} then
                  case ap of
                    [] \<Rightarrow> None
                  | a # ap' \<Rightarrow> do { bs \<leftarrow> fmt_arg_bytes junk nx a;
                                    (s, i) \<leftarrow> fmt_put junk s i bs;
                                    catfmt_loop junk s i f' ap' }
                else do { (s, i) \<leftarrow> fmt_char s i nx; catfmt_loop junk s i f' ap }
          else do { (s, i) \<leftarrow> fmt_char s i c; catfmt_loop junk s i f ap } }"

definition sdscatfmt :: "(nat \<Rightarrow> byte) \<Rightarrow> sds \<Rightarrow> byte list \<Rightarrow> fmt_arg list \<Rightarrow> sds option" where
  "sdscatfmt junk s fmt ap =
     do { (s, i) \<leftarrow> catfmt_loop junk s (sdslen s) (cstr fmt) ap; set_byte s i 0 }"

subsection \<open>Trimming and ranges\<close>

text \<open>\<^verbatim>\<open>strchr\<close> also finds the terminating zero.\<close>

definition strchr :: "byte list \<Rightarrow> byte \<Rightarrow> bool" where
  "strchr cset c \<longleftrightarrow> c \<in> set (cstr cset) \<or> c = 0"

function trim_sp :: "byte list \<Rightarrow> byte list \<Rightarrow> int \<Rightarrow> int \<Rightarrow> int" where
  "trim_sp cset m sp ep = (if sp \<le> ep \<and> strchr cset (m ! nat sp) then trim_sp cset m (sp + 1) ep else sp)"
  by pat_completeness auto
termination by (relation "measure (\<lambda>(cset, m, sp, ep). nat (ep + 1 - sp))") auto

function trim_ep :: "byte list \<Rightarrow> byte list \<Rightarrow> int \<Rightarrow> int \<Rightarrow> int" where
  "trim_ep cset m sp ep = (if ep > sp \<and> strchr cset (m ! nat ep) then trim_ep cset m sp (ep - 1) else ep)"
  by pat_completeness auto
termination by (relation "measure (\<lambda>(cset, m, sp, ep). nat (ep - sp))") auto

declare trim_sp.simps [simp del] trim_ep.simps [simp del]

definition sdstrim :: "sds \<Rightarrow> byte list \<Rightarrow> sds option" where
  "sdstrim s cset =
     (let ep = int (sdslen s) - 1;
          sp = trim_sp cset (sds_buf s) 0 ep;
          ep = trim_ep cset (sds_buf s) sp ep;
          len = (if sp > ep then 0 else nat (ep - sp + 1))
      in do { m \<leftarrow> (if sp \<noteq> 0 then memmove (sds_buf s) 0 (nat sp) len else Some (sds_buf s));
              s \<leftarrow> set_byte (s\<lparr>sds_buf := m\<rparr>) len 0;
              Some (sdssetlen s len) })"

text \<open>\<open>start\<close> and \<open>en\<close> are signed; the sum with a length is converted back from unsigned.\<close>

definition ssize :: "int \<Rightarrow> int" where
  "ssize v = signed_take_bit 63 v"

definition sdsrange :: "sds \<Rightarrow> int \<Rightarrow> int \<Rightarrow> sds option" where
  "sdsrange s start en =
     (let len = sdslen s
      in if len = 0 then Some s
         else
           let start = (if start < 0 then max 0 (ssize (int len + start)) else start);
               en = (if en < 0 then max 0 (ssize (int len + en)) else en);
               newlen = (if start > en then 0 else en - start + 1);
               (start, newlen) =
                 (if newlen \<noteq> 0 then
                    if start \<ge> ssize (int len) then (start, 0)
                    else if en \<ge> ssize (int len) then
                      let en = int len - 1 in (start, if start > en then 0 else en - start + 1)
                    else (start, newlen)
                  else (0, newlen))
           in do { m \<leftarrow> (if start \<noteq> 0 \<and> newlen \<noteq> 0 then memmove (sds_buf s) 0 (nat start) (nat newlen)
                         else Some (sds_buf s));
                   s \<leftarrow> set_byte (s\<lparr>sds_buf := m\<rparr>) (nat newlen) 0;
                   Some (sdssetlen s (nat newlen)) })"

definition toupper :: "int \<Rightarrow> int" where
  "toupper c = (if 97 \<le> c \<and> c \<le> 122 then c - 32 else c)"

text \<open>A loop that changes every byte up to the length.\<close>

definition map_bytes :: "(byte \<Rightarrow> byte) \<Rightarrow> sds \<Rightarrow> sds option" where
  "map_bytes f s = do { bs \<leftarrow> rd (sds_buf s) 0 (sdslen s); set_bytes s 0 (map f bs) }"

definition sdstolower :: "sds \<Rightarrow> sds option" where
  "sdstolower s = map_bytes (\<lambda>c. word_of_int (tolower (sint c))) s"

definition sdstoupper :: "sds \<Rightarrow> sds option" where
  "sdstoupper s = map_bytes (\<lambda>c. word_of_int (toupper (sint c))) s"

fun mapchar :: "byte list \<Rightarrow> byte list \<Rightarrow> byte \<Rightarrow> byte" where
  "mapchar (f # fs) (t # ts) c = (if c = f then t else mapchar fs ts c)"
| "mapchar _ _ c = c"

text \<open>The two sets are given by \<open>setlen\<close> bytes each, as the function requires of its caller.\<close>

definition sdsmapchars :: "sds \<Rightarrow> byte list \<Rightarrow> byte list \<Rightarrow> nat \<Rightarrow> sds option" where
  "sdsmapchars s from to setlen = map_bytes (mapchar (take setlen from) (take setlen to)) s"

subsection \<open>Comparing\<close>

fun memcmp :: "byte list \<Rightarrow> byte list \<Rightarrow> int" where
  "memcmp (a # as) (b # bs) = (if a = b then memcmp as bs else uint a - uint b)"
| "memcmp _ _ = 0"

definition sdscmp :: "sds \<Rightarrow> sds \<Rightarrow> int option" where
  "sdscmp s1 s2 =
     (let l1 = sdslen s1; l2 = sdslen s2; minlen = (if l1 < l2 then l1 else l2)
      in do { b1 \<leftarrow> rd (sds_buf s1) 0 minlen;
              b2 \<leftarrow> rd (sds_buf s2) 0 minlen;
              let cmp = memcmp b1 b2;
              if cmp = 0 then Some (if l1 > l2 then 1 else if l1 < l2 then -1 else 0) else Some cmp })"

subsection \<open>Splitting and joining\<close>

text \<open>
  The tokens found so far, the start of the last one and the number of slots in the array of
  tokens. A store behind the array is \<open>None\<close>, and so is the overflow of an \<^verbatim>\<open>int\<close>: the numbers of tokens and slots
  are of this type, and so is the length of the separator.
\<close>

definition more_slots :: "nat \<Rightarrow> nat \<Rightarrow> nat option" where
  "more_slots slots elements =
     (if int elements + 2 > INT32_MAX then None
      else if slots < elements + 2 then if int slots * 2 > INT32_MAX then None else Some (slots * 2)
      else Some slots)"

definition add_token :: "nat \<Rightarrow> sds list \<Rightarrow> sds \<Rightarrow> sds list option" where
  "add_token slots tokens t = (if length tokens < slots then Some (tokens @ [t]) else None)"

function split_loop :: "(nat \<Rightarrow> byte) \<Rightarrow> byte list \<Rightarrow> byte list \<Rightarrow> nat \<Rightarrow> nat \<Rightarrow> nat \<Rightarrow> sds list \<Rightarrow>
    (nat \<times> nat \<times> sds list) option" where
  "split_loop junk s sep start j slots tokens =
     (if int j < int (length s) - (int (length sep) - 1) then
        do { slots \<leftarrow> more_slots slots (length tokens);
             if length sep = 1 \<and> s ! j = sep ! 0 \<or> memcmp (take (length sep) (drop j s)) sep = 0 then
               do { t \<leftarrow> sdsnewlen junk (Init (drop start s)) (j - start);
                    tokens \<leftarrow> add_token slots tokens t;
                    split_loop junk s sep (j + length sep) (j + (length sep - 1) + 1) slots tokens }
             else split_loop junk s sep start (j + 1) slots tokens }
      else Some (start, slots, tokens))"
  by pat_completeness auto
termination
  by (relation "measure (\<lambda>(junk, s, sep, start, j, slots, tokens). length s + 1 - j)") auto

declare split_loop.simps [simp del]

text \<open>The inner option is the result: \<open>None\<close> is the pointer \<^verbatim>\<open>NULL\<close>.\<close>

definition sdssplitlen :: "(nat \<Rightarrow> byte) \<Rightarrow> byte list \<Rightarrow> byte list \<Rightarrow> sds list option option" where
  "sdssplitlen junk s sep =
     (if length sep < 1 then Some None
      else if length s = 0 then Some (Some [])
      else do { (start, slots, tokens) \<leftarrow> split_loop junk s sep 0 0 5 [];
                t \<leftarrow> sdsnewlen junk (Init (drop start s)) (length s - start);
                tokens \<leftarrow> add_token slots tokens t;
                Some (Some tokens) })"

fun join_loop :: "(sds \<Rightarrow> 'a \<Rightarrow> sds option) \<Rightarrow> (sds \<Rightarrow> sds option) \<Rightarrow> sds \<Rightarrow> 'a list \<Rightarrow> sds option" where
  "join_loop cat cat_sep join [] = Some join"
| "join_loop cat cat_sep join [a] = cat join a"
| "join_loop cat cat_sep join (a # as) = do { join \<leftarrow> cat join a; join \<leftarrow> cat_sep join; join_loop cat cat_sep join as }"

definition sdsjoin :: "(nat \<Rightarrow> byte) \<Rightarrow> byte list list \<Rightarrow> byte list \<Rightarrow> sds option" where
  "sdsjoin junk argv sep =
     do { join \<leftarrow> sdsempty junk; join_loop (sdscat junk) (\<lambda>join. sdscat junk join sep) join argv }"

definition sdsjoinsds :: "(nat \<Rightarrow> byte) \<Rightarrow> sds list \<Rightarrow> byte list \<Rightarrow> sds option" where
  "sdsjoinsds junk argv sep =
     do { join \<leftarrow> sdsempty junk; join_loop (sdscatsds junk) (\<lambda>join. sdscatlen junk join sep) join argv }"

end
