(* ===== verification/Sds_Rep.thy ===== *)
theory Sds_Rep
  imports Sds Util_Num
begin

text \<open>
  What an \<^verbatim>\<open>sds\<close> represents, and the basic operations against it.

  \<open>sds_core s n\<close> says that the header is consistent: the length \<open>n\<close> is at most the capacity, and the
  allocation has room for the capacity and a zero byte. \<open>sds_rep s xs\<close> adds that the string is \<open>xs\<close>
  and that a zero byte follows it.
\<close>

definition sds_valid :: "sds \<Rightarrow> bool" where
  "sds_valid s \<longleftrightarrow> sds_type s = SDS_TYPE_5 \<or>
     hdr_bits (sds_type s) \<noteq> 0 \<and> sds_len s < 2 ^ hdr_bits (sds_type s) \<and> sds_alloc s < 2 ^ hdr_bits (sds_type s)"

definition sds_core :: "sds \<Rightarrow> nat \<Rightarrow> bool" where
  "sds_core s n \<longleftrightarrow> sds_valid s \<and> sdslen s = n \<and> n \<le> sdsalloc s \<and> sdsalloc s < length (sds_buf s)"

definition sds_rep :: "sds \<Rightarrow> byte list \<Rightarrow> bool" where
  "sds_rep s xs \<longleftrightarrow> sds_core s (length xs) \<and> take (length xs + 1) (sds_buf s) = xs @ [0]"

text \<open>The string without the zero byte, as it is between two stores.\<close>

definition sds_open :: "sds \<Rightarrow> byte list \<Rightarrow> bool" where
  "sds_open s xs \<longleftrightarrow> sds_core s (length xs) \<and> take (length xs) (sds_buf s) = xs"

definition yields :: "sds option \<Rightarrow> byte list \<Rightarrow> bool" where
  "yields r xs \<longleftrightarrow> (\<exists>s. r = Some s \<and> sds_rep s xs)"

lemma yields_Some [simp]: "yields (Some s) xs \<longleftrightarrow> sds_rep s xs"
  by (simp add: yields_def)

lemma yields_bind: "yields r xs \<Longrightarrow> (\<And>s. sds_rep s xs \<Longrightarrow> yields (f s) ys) \<Longrightarrow> yields (r \<bind> f) ys"
  by (auto simp: yields_def)

lemma sds_rep_open: "sds_rep s xs \<Longrightarrow> sds_open s xs"
  by (auto simp: sds_rep_def sds_open_def dest: arg_cong [of _ _ "take (length xs)"])

lemma sds_rep_len: "sds_rep s xs \<Longrightarrow> sdslen s = length xs"
  by (simp add: sds_rep_def sds_core_def)

lemma sds_open_len: "sds_open s xs \<Longrightarrow> sdslen s = length xs"
  by (simp add: sds_open_def sds_core_def)

lemma sds_rep_rd: "sds_open s xs \<Longrightarrow> rd (sds_buf s) 0 (length xs) = Some xs"
  by (simp add: sds_open_def sds_core_def rd_def)

subsection \<open>Header fields\<close>

lemma type5_len_div: "type5_len f = unat f div 8"
  by (simp add: type5_len_def drop_bit_eq_div unat_div)

lemma type5_flags:
  assumes "n < 32"
  shows "(of_nat (n * 8) :: byte) AND 7 = 0" and "type5_len (of_nat (n * 8)) = n"
proof -
  have u: "unat (of_nat (n * 8) :: byte) = n * 8" using assms by (simp add: unat_of_nat del: of_nat_mult)
  have "(of_nat (n * 8) :: byte) AND 7 = of_nat (n * 8) mod 8"
    using take_bit_eq_mask [of 3 "of_nat (n * 8) :: byte"] by (simp add: mask_eq_exp_minus_1 take_bit_eq_mod del: of_nat_mult)
  moreover have "unat ((of_nat (n * 8) :: byte) mod 8) = 0" using u by (simp add: unat_mod del: of_nat_mult)
  ultimately show "(of_nat (n * 8) :: byte) AND 7 = 0" by (simp only: unat_eq_zero)
  show "type5_len (of_nat (n * 8)) = n"
    using u by (simp add: type5_len_div del: of_nat_mult)
qed

lemma type5_len_less: "type5_len f < 32"
  using unsigned_less [of f, where ?'a = nat] by (simp add: type5_len_div less_mult_imp_div_less)

lemma sdssetlen_simps [simp]: "sds_buf (sdssetlen s n) = sds_buf s" "sds_alloc (sdssetlen s n) = sds_alloc s"
  by (simp_all add: sdssetlen_def)

lemma sdssetlen_ok:
  assumes "sds_valid s" and "n \<le> sdsalloc s"
  shows "sds_valid (sdssetlen s n) \<and> sdslen (sdssetlen s n) = n \<and> n \<le> sdsalloc (sdssetlen s n) \<and>
    sdsalloc (sdssetlen s n) \<le> sdsalloc s"
proof (cases "sds_type s = SDS_TYPE_5")
  case True
  then have n: "n < 32" using assms(2) type5_len_less [of "sds_flags s"] by (simp add: sdsalloc_def)
  have "sds_type (sdssetlen s n) = SDS_TYPE_5" "type5_len (sds_flags (sdssetlen s n)) = n"
    using True type5_flags [OF n] by (simp_all add: sdssetlen_def sds_type_def mult.commute)
  then show ?thesis using True assms(2) by (simp add: sds_valid_def sdslen_def sdsalloc_def)
next
  case False
  then have h: "hdr_bits (sds_type s) \<noteq> 0" "n < 2 ^ hdr_bits (sds_type s)" "n \<le> sds_alloc s" "sds_alloc s < 2 ^ hdr_bits (sds_type s)"
    using assms by (auto simp: sds_valid_def sdsalloc_def)
  then have "sds_len (sdssetlen s n) = n" "sds_type (sdssetlen s n) = sds_type s"
    using False by (simp_all add: sdssetlen_def sds_type_def)
  then show ?thesis using False h by (simp add: sds_valid_def sdslen_def sdsalloc_def)
qed

lemma sub_mod: "l \<le> a \<Longrightarrow> a < m \<Longrightarrow> (a + m - l) mod m = a - (l :: nat)"
  using mod_add_self2 [of "a - l" m] by (simp only: add_diff_assoc2 [of l a m, symmetric]) simp

lemma sdsavail_ok:
  assumes "sds_core s n"
  shows "sdsavail s = sdsalloc s - n"
proof (cases "sds_type s = SDS_TYPE_5")
  case True
  then show ?thesis using assms by (simp add: sds_core_def sdsavail_def sdsalloc_def sdslen_def)
next
  case False
  then have h: "sds_len s \<le> sds_alloc s" "sds_alloc s < 2 ^ hdr_bits (sds_type s)" "n = sds_len s" "hdr_bits (sds_type s) \<noteq> 0"
    using assms by (auto simp: sds_core_def sds_valid_def sdsalloc_def sdslen_def)
  have "hdr_bits (sds_type s) \<le> 64" by (simp add: hdr_bits_def)
  then have "(2 :: nat) ^ hdr_bits (sds_type s) \<le> 2 ^ 64" by (intro power_increasing) simp_all
  then have "sds_alloc s < 2 ^ 64" using h(2) by linarith
  moreover have "sds_type s = SDS_TYPE_32 \<Longrightarrow> sds_alloc s < 2 ^ 32" using h(2) by (simp add: hdr_bits_def)
  ultimately show ?thesis
    using False h(1,3,4) sub_mod [of "sds_len s" "sds_alloc s" "2 ^ 64"] sub_mod [of "sds_len s" "sds_alloc s" "2 ^ 32"]
    unfolding sdsavail_def sdsalloc_def by simp
qed

lemma sdsReqType_fits:
  assumes "n < 2 ^ 64" and "t = (if sdsReqType n = SDS_TYPE_5 then SDS_TYPE_8 else sdsReqType n)"
  shows "hdr_bits t \<noteq> 0" and "n < 2 ^ hdr_bits t" and "t AND 7 = t" and "t \<noteq> 0" and "sdsHdrSize t \<le> 17"
  using assms by (auto simp: sdsReqType_def hdr_bits_def sdsHdrSize_def)

lemma sdssetalloc_ok:
  assumes "sds_type s = t" and "hdr_bits t \<noteq> 0" and "n < 2 ^ hdr_bits t" and "t \<noteq> 0"
  shows "sdsalloc (sdssetalloc s n) = n" and "sds_buf (sdssetalloc s n) = sds_buf s" and "sds_len (sdssetalloc s n) = sds_len s"
    and "sds_type (sdssetalloc s n) = t"
  using assms by (auto simp: sdssetalloc_def sdsalloc_def sds_type_def)

subsection \<open>Growing\<close>

lemma sds_core_realloc:
  assumes "sds_type s = t" and "hdr_bits t \<noteq> 0" and "newlen < 2 ^ hdr_bits t" and "t \<noteq> 0"
    and "sds_len s = n" and "n \<le> newlen" and "newlen < length (sds_buf s)"
  shows "sds_core (sdssetalloc s newlen) n"
  using assms sdssetalloc_ok [of s t newlen]
  by (auto simp: sds_core_def sds_valid_def sdslen_def) (auto simp: sdssetalloc_def)

lemma sdsMakeRoomFor_ok:
  assumes core: "sds_core s n" and room: "n + addlen < 2 ^ 62"
  shows "\<exists>s'. sdsMakeRoomFor junk s addlen = Some s' \<and> sds_core s' n \<and> n + addlen \<le> sdsalloc s' \<and>
    take (n + 1) (sds_buf s') = take (n + 1) (sds_buf s)"
proof (cases "sdsavail s \<ge> addlen")
  case True
  have "n \<le> sdsalloc s" using core by (simp add: sds_core_def)
  then show ?thesis using True core sdsavail_ok [OF core] by (auto simp: sdsMakeRoomFor_def)
next
  case False
  define newlen where "newlen = (if n + addlen < SDS_MAX_PREALLOC then (n + addlen) * 2 else n + addlen + SDS_MAX_PREALLOC)"
  define t where "t = (if sdsReqType newlen = SDS_TYPE_5 then SDS_TYPE_8 else sdsReqType newlen)"
  have nl: "n + addlen \<le> newlen" "newlen < 2 ^ 63" using room by (simp_all add: newlen_def)
  have t: "hdr_bits t \<noteq> 0" "newlen < 2 ^ hdr_bits t" "t AND 7 = t" "t \<noteq> 0" "sdsHdrSize t \<le> 17"
    using sdsReqType_fits [of newlen t] nl(2) by (simp_all add: t_def)
  have len: "sdslen s = n" and buf: "n < length (sds_buf s)" using core by (auto simp: sds_core_def)
  have sz: "sdsHdrSize t + newlen + 1 < 2 ^ 64" using t(5) nl(2) by simp
  let ?done = "\<lambda>s'. sds_core s' n \<and> n + addlen \<le> sdsalloc s' \<and> take (n + 1) (sds_buf s') = take (n + 1) (sds_buf s)"
  have unf: "sdsMakeRoomFor junk s addlen =
    do { s \<leftarrow> (if sds_type s = t then
                 do { m \<leftarrow> s_realloc junk (sds_buf s) (sdsHdrSize t) newlen; Some (s\<lparr>sds_buf := m\<rparr>) }
               else do { m \<leftarrow> s_malloc junk (sdsHdrSize t) newlen;
                         bs \<leftarrow> rd (sds_buf s) 0 (n + 1);
                         m \<leftarrow> wr m 0 bs;
                         Some (sdssetlen (s\<lparr>sds_flags := t, sds_buf := m\<rparr>) n) });
         Some (sdssetalloc s newlen) }"
  proof -
    have "size_wrap (n + addlen) = n + addlen" "n + addlen + SDS_MAX_PREALLOC < 2 ^ 64"
      using room by (simp_all add: size_wrap_def)
    then have "(if size_wrap (n + addlen) < SDS_MAX_PREALLOC then size_wrap (n + addlen) * 2
        else size_wrap (size_wrap (n + addlen) + SDS_MAX_PREALLOC)) = newlen"
      by (simp add: newlen_def size_wrap_def)
    then show ?thesis using False len by (simp add: sdsMakeRoomFor_def Let_def t_def [symmetric] cong: if_cong)
  qed
  show ?thesis
  proof (cases "sds_type s = t")
    case True
    let ?s = "s\<lparr>sds_buf := zrealloc junk (sds_buf s) (newlen + 1)\<rparr>"
    have "sds_type ?s = t" "sds_len ?s = n" using True len t by (auto simp: sds_type_def sdslen_def)
    then have "sds_core (sdssetalloc ?s newlen) n" "sdsalloc (sdssetalloc ?s newlen) = newlen"
      "sds_buf (sdssetalloc ?s newlen) = zrealloc junk (sds_buf s) (newlen + 1)"
      using sds_core_realloc [of ?s t newlen n] sdssetalloc_ok [of ?s t newlen] t nl by simp_all
    moreover have "take (n + 1) (zrealloc junk (sds_buf s) (newlen + 1)) = take (n + 1) (sds_buf s)"
      using nl(1) buf by (simp add: zrealloc_def min_def)
    ultimately show ?thesis using unf True sz nl(1) by (simp add: s_realloc_def)
  next
    case False
    have mn: "min (length (sds_buf s)) (Suc n) = Suc n" using buf by simp
    define m where "m = map junk [0..<newlen + 1]"
    define w where "w = take (n + 1) (sds_buf s) @ drop (n + 1) m"
    let ?s = "sdssetlen (s\<lparr>sds_flags := t, sds_buf := w\<rparr>) n"
    have "n < 2 ^ hdr_bits t" using t(2) nl(1) by simp
    then have "sds_type ?s = t" "sds_len ?s = n" using t by (auto simp: sds_type_def sdssetlen_def)
    moreover have lw: "length w = newlen + 1" "take (n + 1) w = take (n + 1) (sds_buf s)"
      using nl(1) mn by (simp_all add: w_def m_def del: upt_Suc)
    ultimately have "sds_core (sdssetalloc ?s newlen) n" "sdsalloc (sdssetalloc ?s newlen) = newlen"
      "sds_buf (sdssetalloc ?s newlen) = w"
      using sds_core_realloc [of ?s t newlen n] sdssetalloc_ok [of ?s t newlen] t nl by simp_all
    moreover have "wr m 0 (take (n + 1) (sds_buf s)) = Some w" using nl(1) mn by (simp add: wr_def w_def m_def del: upt_Suc)
    moreover have "rd (sds_buf s) 0 (n + 1) = Some (take (n + 1) (sds_buf s))" using buf by (simp add: rd_def)
    moreover have "s_malloc junk (sdsHdrSize t) newlen = Some m" using sz by (simp add: s_malloc_def m_def)
    ultimately show ?thesis using unf False nl(1) lw(2) by simp
  qed
qed

subsection \<open>Stores\<close>

lemma sds_buf_upd [simp]:
  "sds_type (s\<lparr>sds_buf := m\<rparr>) = sds_type s" "sdslen (s\<lparr>sds_buf := m\<rparr>) = sdslen s"
  "sdsalloc (s\<lparr>sds_buf := m\<rparr>) = sdsalloc s" "sds_valid (s\<lparr>sds_buf := m\<rparr>) = sds_valid s"
  "sdssetlen (s\<lparr>sds_buf := m\<rparr>) n = (sdssetlen s n)\<lparr>sds_buf := m\<rparr>"
  by (simp_all add: sds_type_def sdslen_def sdsalloc_def sds_valid_def sdssetlen_def)

lemma set_bytes_ok:
  "i + length bs \<le> length (sds_buf s) \<Longrightarrow>
    set_bytes s i bs = Some (s\<lparr>sds_buf := take i (sds_buf s) @ bs @ drop (i + length bs) (sds_buf s)\<rparr>)"
  by (simp add: set_bytes_def wr_def)

lemma set_byte_ok:
  "i < length (sds_buf s) \<Longrightarrow> set_byte s i c = Some (s\<lparr>sds_buf := take i (sds_buf s) @ c # drop (i + 1) (sds_buf s)\<rparr>)"
  by (simp add: set_byte_def wr_def)

lemma sds_repI:
  assumes "sds_core s n" and "length xs \<le> sdsalloc s" and "sdsalloc s < length m" and "take (length xs + 1) m = xs @ [0]"
  shows "sds_rep ((sdssetlen s (length xs))\<lparr>sds_buf := m\<rparr>) xs"
  using assms sdssetlen_ok [of s "length xs"] by (simp add: sds_rep_def sds_core_def)

lemma set_end:
  assumes "sds_core s n" and "length xs \<le> sdsalloc s" and "take (length xs) (sds_buf s) = xs"
  shows "yields (set_byte (sdssetlen s (length xs)) (length xs) 0) xs"
proof -
  have l: "length xs < length (sds_buf s)" "sdsalloc s < length (sds_buf s)" using assms by (simp_all add: sds_core_def)
  then have "sds_rep ((sdssetlen s (length xs))\<lparr>sds_buf := xs @ 0 # drop (length xs + 1) (sds_buf s)\<rparr>) xs"
    using assms by (intro sds_repI [of s n]) simp_all
  then show ?thesis using l assms(3) by (simp add: set_byte_ok)
qed

lemma sds_core_upd: "sds_core s n \<Longrightarrow> length m = length (sds_buf s) \<Longrightarrow> sds_core (s\<lparr>sds_buf := m\<rparr>) n"
  by (simp add: sds_core_def)

lemma set_byte_setlen:
  "do { s \<leftarrow> set_byte s i c; Some (sdssetlen s n) } = set_byte (sdssetlen s n) i c"
  by (cases "wr (sds_buf s) i [c]") (simp_all add: set_byte_def)

subsection \<open>Creation and concatenation\<close>

lemma sdsnewlen_ok:
  assumes "n < 2 ^ 62" and "case init of Init t \<Rightarrow> n \<le> length t \<and> xs = take n t | Init_NULL \<Rightarrow> xs = replicate n 0 | SDS_NOINIT \<Rightarrow> False"
  shows "yields (sdsnewlen junk init n) xs"
proof -
  define ty where "ty = (if sdsReqType n = SDS_TYPE_5 \<and> n = 0 then SDS_TYPE_8 else sdsReqType n)"
  define hd where "hd = new_hdr ty n"
  have ty: "sdsHdrSize ty \<le> 17" "ty = SDS_TYPE_5 \<and> n < 32 \<or> ty \<noteq> SDS_TYPE_5 \<and> ty AND 7 = ty \<and> hdr_bits ty \<noteq> 0 \<and> n < 2 ^ hdr_bits ty"
    using assms(1) by (auto simp: ty_def sdsReqType_def sdsHdrSize_def hdr_bits_def)
  have core: "sds_core (hd m) n \<and> sdsalloc (hd m) = n \<and> sdssetlen (hd m) n = hd m" if "length m = n + 1" for m
    using ty(2)
  proof
    assume a: "ty = SDS_TYPE_5 \<and> n < 32"
    then show ?thesis using that type5_flags [of n]
      by (simp add: hd_def new_hdr_def sds_core_def sds_valid_def sdslen_def sdsalloc_def sds_type_def sdssetlen_def mult.commute)
  next
    assume "ty \<noteq> SDS_TYPE_5 \<and> ty AND 7 = ty \<and> hdr_bits ty \<noteq> 0 \<and> n < 2 ^ hdr_bits ty"
    then show ?thesis using that
      by (simp add: hd_def new_hdr_def sds_core_def sds_valid_def sdslen_def sdsalloc_def sds_type_def sdssetlen_def)
  qed
  have buf [simp]: "sds_buf (hd m) = m" "(hd m)\<lparr>sds_buf := m'\<rparr> = hd m'" for m m' by (simp_all add: hd_def new_hdr_def)
  have fin: "yields (set_byte (hd m) n 0) xs" if "length m = n + 1" "length xs = n" "take n m = xs" for m
    using set_end [of "hd m" n xs] core [OF that(1)] that by simp
  have m: "s_malloc junk (sdsHdrSize ty) n = Some (map junk [0..<n + 1])"
    using ty(1) assms(1) by (simp add: s_malloc_def)
  have unf: "sdsnewlen junk init n =
    do { m \<leftarrow> s_malloc junk (sdsHdrSize ty) n;
         let s = hd (if init = Init_NULL then replicate (n + 1) 0 else m);
         s \<leftarrow> (case init of Init t \<Rightarrow> if n \<noteq> 0 then do { bs \<leftarrow> rd t 0 n; set_bytes s 0 bs } else Some s | _ \<Rightarrow> Some s);
         set_byte s n 0 }"
    by (simp only: sdsnewlen_def Let_def ty_def hd_def)
  show ?thesis
  proof (cases init)
    case Init_NULL
    then have "sdsnewlen junk init n = set_byte (hd (replicate (n + 1) 0)) n 0" unfolding unf m by (simp del: replicate_Suc upt_Suc)
    moreover have "xs = replicate n 0" using assms(2) Init_NULL by simp
    ultimately show ?thesis using fin [of "replicate (n + 1) 0"] by (simp del: replicate_Suc)
  next
    case SDS_NOINIT
    then show ?thesis using assms(2) by simp
  next
    case (Init u)
    then have u: "n \<le> length u" "xs = take n u" using assms(2) by simp_all
    define w where "w = (if n = 0 then map junk [0..<n + 1] else take n u @ drop n (map junk [0..<n + 1]))"
    have "length w = n + 1" "take n w = xs" "length xs = n" using u by (simp_all add: w_def del: upt_Suc)
    moreover have "sdsnewlen junk init n = set_byte (hd w) n 0"
      unfolding unf m Let_def w_def using Init u(1) by (auto simp: rd_def set_bytes_ok simp del: upt_Suc)
    ultimately show ?thesis using fin [of w] by simp
  qed
qed

lemma sdscatlen_ok:
  assumes rep: "sds_open s xs" and room: "length xs + length t < 2 ^ 62"
  shows "yields (sdscatlen junk s t) (xs @ t)"
proof -
  have core: "sds_core s (length xs)" and tk: "take (length xs) (sds_buf s) = xs" using rep by (simp_all add: sds_open_def)
  obtain s' where s': "sdsMakeRoomFor junk s (length t) = Some s'" "sds_core s' (length xs)" "length xs + length t \<le> sdsalloc s'"
      "take (length xs + 1) (sds_buf s') = take (length xs + 1) (sds_buf s)"
    using sdsMakeRoomFor_ok [OF core room] by auto
  have tk': "take (length xs) (sds_buf s') = xs"
    using arg_cong [OF s'(4), of "take (length xs)"] tk by (simp add: min_def)
  let ?m = "xs @ t @ drop (length xs + length t) (sds_buf s')"
  have b: "sdsalloc s' < length (sds_buf s')" using s'(2) by (simp add: sds_core_def)
  have "size_wrap (length xs + length t) = length (xs @ t)" using room by (simp add: size_wrap_def)
  moreover have "yields (set_byte (sdssetlen (s'\<lparr>sds_buf := ?m\<rparr>) (length (xs @ t))) (length (xs @ t)) 0) (xs @ t)"
    using s' b by (intro set_end [of _ "length xs"] sds_core_upd) simp_all
  ultimately show ?thesis
    using s'(1,3) b tk' sds_open_len [OF rep] by (simp add: sdscatlen_def set_bytes_ok Let_def)
qed

lemma sdscpylen_ok:
  assumes rep: "sds_open s xs" and room: "length xs + length t < 2 ^ 62"
  shows "yields (sdscpylen junk s t) t"
proof -
  have core: "sds_core s (length xs)" using rep by (simp add: sds_open_def)
  obtain s' where s': "(if sdsalloc s < length t then sdsMakeRoomFor junk s (size_wrap (length t + 2 ^ 64 - sdslen s)) else Some s) = Some s'"
      "sds_core s' (length xs)" "length t \<le> sdsalloc s'"
  proof (cases "sdsalloc s < length t")
    case True
    then have l: "length xs \<le> length t" "sdslen s = length xs" using core by (simp_all add: sds_core_def)
    have "size_wrap (length t + 2 ^ 64 - length xs) = length t - length xs"
      unfolding size_wrap_def using l room by (intro sub_mod) simp_all
    then show ?thesis using that True l sdsMakeRoomFor_ok [OF core, of "length t - length xs" junk] room by auto
  next
    case False
    then show ?thesis using that core by simp
  qed
  have b: "sdsalloc s' < length (sds_buf s')" using s'(2) by (simp add: sds_core_def)
  let ?m = "t @ drop (length t) (sds_buf s')"
  have "yields (set_byte (sdssetlen (s'\<lparr>sds_buf := ?m\<rparr>) (length t)) (length t) 0) t"
    using s' b by (intro set_end [of _ "length xs"] sds_core_upd) simp_all
  then show ?thesis
    using s'(1,3) b by (simp add: sdscpylen_def set_bytes_ok Let_def set_byte_setlen)
qed

lemma sdsgrowzero_ok:
  assumes rep: "sds_rep s xs" and room: "max (length xs) n < 2 ^ 62"
  shows "yields (sdsgrowzero junk s n) (xs @ replicate (n - length xs) 0)"
proof (cases "n \<le> length xs")
  case True
  then show ?thesis using rep sds_rep_len [OF rep] by (simp add: sdsgrowzero_def)
next
  case False
  let ?z = "replicate (n - length xs) 0"
  have core: "sds_core s (length xs)" using rep by (simp add: sds_rep_def)
  obtain s' where s': "sdsMakeRoomFor junk s (n - length xs) = Some s'" "sds_core s' (length xs)" "n \<le> sdsalloc s'"
      "take (length xs + 1) (sds_buf s') = xs @ [0]"
    using sdsMakeRoomFor_ok [OF core, of "n - length xs" junk] room False rep by (auto simp: sds_rep_def)
  have tk: "take (length xs) (sds_buf s') = xs"
    using arg_cong [OF s'(4), of "take (length xs)"] by (simp add: min_def)
  have b: "sdsalloc s' < length (sds_buf s')" using s'(2) by (simp add: sds_core_def)
  have z: "replicate (n - length xs + 1) 0 = ?z @ [0 :: byte]" by (simp add: replicate_append_same)
  have "sds_rep ((sdssetlen s' (length (xs @ ?z)))\<lparr>sds_buf := xs @ (?z @ [0]) @ drop (n + 1) (sds_buf s')\<rparr>) (xs @ ?z)"
    using s' b False by (intro sds_repI [of s' "length xs"]) simp_all
  then show ?thesis
    using s'(1,3) b tk False sds_rep_len [OF rep] z by (simp add: sdsgrowzero_def set_bytes_ok Let_def)
qed

lemma sdsclear_ok: "sds_open s xs \<Longrightarrow> yields (sdsclear s) []"
  using set_end [of s "length xs" "[]"] by (simp add: sds_open_def sdsclear_def)

lemma sdsempty_ok: "yields (sdsempty junk) []"
  by (simp add: sdsempty_def sdsnewlen_ok)

lemma cstr_take: "cstr t = take (length (cstr t)) t" "length (cstr t) \<le> length t"
  by (simp_all add: cstr_def takeWhile_eq_take [symmetric] length_takeWhile_le)

lemma sdsnew_ok:
  assumes "length (cstr t) < 2 ^ 62"
  shows "yields (sdsnew junk (Some t)) (cstr t)"
proof -
  have "yields (sdsnewlen junk (Init t) (length (cstr t))) (cstr t)"
    using assms cstr_take [of t] by (intro sdsnewlen_ok) simp_all
  then show ?thesis by (simp add: sdsnew_def)
qed

lemma sdsdup_ok: "sds_rep s xs \<Longrightarrow> length xs < 2 ^ 62 \<Longrightarrow> yields (sdsdup junk s) xs"
  using sds_rep_len [of s xs] sds_rep_open [of s xs]
  by (auto simp: sdsdup_def sds_open_def sds_core_def intro!: sdsnewlen_ok)

lemma sdscat_ok: "sds_rep s xs \<Longrightarrow> length xs + length (cstr t) < 2 ^ 62 \<Longrightarrow> yields (sdscat junk s t) (xs @ cstr t)"
  unfolding sdscat_def by (rule sdscatlen_ok [OF sds_rep_open])

lemma sdscatsds_ok:
  "sds_rep s xs \<Longrightarrow> sds_rep t ys \<Longrightarrow> length xs + length ys < 2 ^ 62 \<Longrightarrow> yields (sdscatsds junk s t) (xs @ ys)"
  using sds_rep_rd [of t ys] sds_rep_len [of t ys] sdscatlen_ok [of s xs ys junk]
  by (simp add: sdscatsds_def sds_rep_open)

subsection \<open>Shrinking and manual lengths\<close>

lemma sds_core_type5:
  assumes "n < 32" and "n < length m"
  shows "sds_core (sdssetlen (s\<lparr>sds_flags := 0, sds_buf := m\<rparr>) n) n" and "sds_type (sdssetlen (s\<lparr>sds_flags := 0, sds_buf := m\<rparr>) n) = 0"
  using assms type5_flags [of n]
  by (simp_all add: sds_core_def sds_valid_def sdslen_def sdsalloc_def sds_type_def sdssetlen_def mult.commute)

lemma sdsRemoveFreeSpace_ok:
  assumes rep: "sds_rep s xs" and room: "length xs < 2 ^ 62"
  shows "yields (sdsRemoveFreeSpace junk s) xs"
proof (cases "sdsavail s = 0")
  case True
  then show ?thesis using rep by (simp add: sdsRemoveFreeSpace_def)
next
  case av: False
  let ?n = "length xs" and ?t = "sds_type s"
  have core: "sds_core s ?n" and tk: "take (?n + 1) (sds_buf s) = xs @ [0]" using rep by (simp_all add: sds_rep_def)
  have ty: "?t \<noteq> 0" using av by (auto simp: sdsavail_def)
  then have t: "hdr_bits ?t \<noteq> 0" "?n < 2 ^ hdr_bits ?t" "sds_len s = ?n" "?n < length (sds_buf s)"
    using core by (auto simp: sds_core_def sds_valid_def sdslen_def sdsalloc_def)
  have hs: "sdsHdrSize u \<le> 17" for u by (simp add: sdsHdrSize_def Let_def)
  show ?thesis
  proof (cases "?t = sdsReqType ?n \<or> sdsReqType ?n > SDS_TYPE_8")
    case True
    let ?s = "s\<lparr>sds_buf := zrealloc junk (sds_buf s) (?n + 1)\<rparr>"
    have "zrealloc junk (sds_buf s) (?n + 1) = xs @ [0]" using t(4) tk by (simp add: zrealloc_shrink)
    then have "sds_rep (sdssetalloc ?s ?n) xs"
      using sds_core_realloc [of ?s ?t ?n ?n] sdssetalloc_ok [of ?s ?t ?n] t ty by (simp add: sds_rep_def)
    then show ?thesis
      using av True hs [of ?t] room sds_rep_len [OF rep] by (simp add: sdsRemoveFreeSpace_def s_realloc_def Let_def)
  next
    case False
    have rt: "sdsReqType ?n = 0 \<and> ?n < 32 \<or> sdsReqType ?n = 1 \<and> ?n < 256"
      using False by (auto simp: sdsReqType_def split: if_splits)
    let ?s = "sdssetlen (s\<lparr>sds_flags := sdsReqType ?n, sds_buf := xs @ [0]\<rparr>) ?n"
    have "sds_rep (sdssetalloc ?s ?n) xs"
      using rt
    proof
      assume "sdsReqType ?n = 0 \<and> ?n < 32"
      then show ?thesis using sds_core_type5 [of ?n "xs @ [0]" s] by (simp add: sds_rep_def sdssetalloc_def hdr_bits_def)
    next
      assume a: "sdsReqType ?n = 1 \<and> ?n < 256"
      then have "sds_type ?s = 1" "sds_len ?s = ?n" by (simp_all add: sds_type_def sdssetlen_def hdr_bits_def)
      then show ?thesis using a sds_core_realloc [of ?s 1 ?n ?n] sdssetalloc_ok [of ?s 1 ?n] by (simp add: sds_rep_def hdr_bits_def)
    qed
    moreover have "wr (map junk [0..<?n + 1]) 0 (xs @ [0]) = Some (xs @ [0])" by (simp add: wr_def)
    moreover have "rd (sds_buf s) 0 (?n + 1) = Some (xs @ [0])" using t(4) tk by (simp add: rd_def)
    ultimately show ?thesis
      using av False hs [of "sdsReqType ?n"] room sds_rep_len [OF rep]
      by (simp add: sdsRemoveFreeSpace_def s_malloc_def Let_def del: upt_Suc)
  qed
qed

text \<open>
  After \<^verbatim>\<open>sdsMakeRoomFor\<close> a caller may store \<open>bs\<close> behind the string itself and fix the length with
  \<^verbatim>\<open>sdsIncrLen\<close>; a negative increment drops bytes at the end.
\<close>

lemma sdsIncrLen_ok:
  assumes rep: "sds_open s xs" and new: "int (length ys) = int (length xs) + incr" "take (length ys) (sds_buf s) = ys"
    and room: "length ys \<le> sdsalloc s" "length xs < 2 ^ 31" "length ys < 2 ^ 31" and t5: "incr = 0 \<Longrightarrow> sds_type s \<noteq> SDS_TYPE_5"
  shows "yields (sdsIncrLen s incr) ys"
proof -
  have core: "sds_core s (length xs)" using rep by (simp add: sds_open_def)
  have b: "length xs \<le> sdsalloc s" "sdslen s = length xs" using core by (simp_all add: sds_core_def)
  have small: "incr < 0 \<Longrightarrow> (- incr) mod 2 ^ 32 = - incr \<and> (- incr) mod 2 ^ 64 = - incr"
    "0 \<le> incr \<Longrightarrow> incr mod 2 ^ 32 = incr \<and> incr mod 2 ^ 64 = incr" using new(1) room by simp_all
  note fin = set_end [OF core room(1) new(2)]
  show ?thesis
  proof (cases "sds_type s = SDS_TYPE_5")
    case True
    then have l: "length xs = type5_len (sds_flags s)" "length ys < 32"
      using b room(1) type5_len_less [of "sds_flags s"] by (simp_all add: sdsalloc_def sdslen_def)
    have inc: "incr < 0" using t5 True new(1) room(1) b l(1) by (cases "incr = 0") (simp_all add: sdsalloc_def)
    have e: "nat (int (length xs) + incr) = length ys" using new(1) by simp
    have "sdsIncrLen s incr = set_byte (sdssetlen s (length ys)) (length ys) 0"
      using True inc small(1) new(1) e by (simp add: sdsIncrLen_def Let_def l(1) [symmetric] sdssetlen_def)
    then show ?thesis using fin by simp
  next
    case False
    then have h: "hdr_bits (sds_type s) \<noteq> 0" "sds_len s = length xs" "length ys \<le> sds_alloc s" "length ys < 2 ^ hdr_bits (sds_type s)"
        "sds_alloc s < 2 ^ hdr_bits (sds_type s)" "length xs \<le> sds_alloc s"
      using core b room(1) by (auto simp: sds_core_def sds_valid_def sdslen_def sdsalloc_def)
    have e: "nat ((int (length xs) + incr) mod 2 ^ hdr_bits (sds_type s)) = length ys"
    proof -
      have "int (length ys) < 2 ^ hdr_bits (sds_type s)" using h(4) by (metis of_nat_less_iff of_nat_numeral of_nat_power)
      then show ?thesis unfolding new(1) [symmetric] by simp
    qed
    have m32: "sds_type s = SDS_TYPE_32 \<Longrightarrow> (int (sds_alloc s) - int (length xs)) mod 2 ^ 32 = int (sds_alloc s) - int (length xs)"
      using h(5,6) by (simp add: hdr_bits_def)
    have m64: "sds_type s = SDS_TYPE_64 \<Longrightarrow> (int (sds_alloc s) - int (length xs)) mod 2 ^ 64 = int (sds_alloc s) - int (length xs)"
      using h(5,6) by (simp add: hdr_bits_def)
    have "sds_type s = SDS_TYPE_8 \<or> sds_type s = SDS_TYPE_16 \<or> sds_type s = SDS_TYPE_32 \<or> sds_type s = SDS_TYPE_64"
      using h(1) by (auto simp: hdr_bits_def split: if_splits)
    then have "sdsIncrLen s incr = set_byte (sdssetlen s (length ys)) (length ys) 0"
      using False h new(1) small m32 m64 e by (cases "incr < 0") (auto simp: sdsIncrLen_def sdssetlen_def Let_def)
    then show ?thesis using fin by simp
  qed
qed

end
