(* ===== verification/Sds_Num.thy ===== *)
theory Sds_Num
  imports Sds_Rep
begin

text \<open>
  The number conversions of \<^verbatim>\<open>sds.c\<close> write the digits backwards and reverse them in place; they
  produce the same strings as \<^verbatim>\<open>ll2string\<close> of \<^verbatim>\<open>util.c\<close>.
\<close>

lemma wr_at: "p < length s \<Longrightarrow> wr s p [c] = Some (take p s @ c # drop (p + 1) s)"
  by (simp add: wr_def)

lemma last_digit: "48 + ucast (v mod 10) = digit (unat v mod 10)" for v :: u64
proof -
  have "digit (unat v mod 10) = digit (unat (v mod 10))" by (simp add: unat_mod)
  then show ?thesis by (simp add: digit_def)
qed

lemma rev_digits_ok:
  "p + length (nat_dec (unat v)) \<le> length s \<Longrightarrow>
    rev_digits s p v = Some (take p s @ rev (nat_dec (unat v)) @ drop (p + length (nat_dec (unat v))) s,
      p + length (nat_dec (unat v)))"
proof (induction s p v rule: rev_digits.induct)
  case (1 s p v)
  let ?n = "unat v"
  have p: "p < length s" using 1(2) nat_dec_ne(1) [of ?n] by (cases "nat_dec ?n") simp_all
  let ?s = "take p s @ digit (?n mod 10) # drop (p + 1) s"
  have w: "wr s p [48 + ucast (v mod 10)] = Some ?s" using p by (simp add: wr_at last_digit)
  have ud: "unat (v div 10) = ?n div 10" by (simp add: unat_div)
  show ?case
  proof (cases "?n < 10")
    case True
    then have "v div 10 = 0" using ud by (auto simp only: unat_eq_zero [symmetric])
    then show ?thesis using w True by (simp add: rev_digits.simps [of s] nat_dec_small)
  next
    case False
    then have z: "v div 10 \<noteq> 0" using ud by (auto simp only: unat_eq_zero [symmetric])
    have nd: "nat_dec ?n = nat_dec (?n div 10) @ [digit (?n mod 10)]" using False by (intro nat_dec_step) simp
    have "p + 1 + length (nat_dec (unat (v div 10))) \<le> length ?s" using 1(2) nd ud p by simp
    from 1(1) [OF w z this] show ?thesis
      using w z nd ud p by (simp add: rev_digits.simps [of s] add.commute)
  qed
qed

lemma swap_loop_ok:
  "a = length xs \<Longrightarrow> a + length ys = b + 1 \<Longrightarrow> swap_loop (xs @ ys @ zs) a b = Some (xs @ rev ys @ zs)"
proof (induction "length ys" arbitrary: xs ys zs a b rule: less_induct)
  case less
  show ?case
  proof (cases "a < b")
    case False
    then have "length ys \<le> 1" using less.prems by simp
    then have "rev ys = ys" by (cases ys) simp_all
    then show ?thesis using False by (simp add: swap_loop.simps)
  next
    case True
    then obtain y ys' where y: "ys = y # ys'" "ys' \<noteq> []" using less.prems by (cases ys) auto
    define mid where "mid = butlast ys'"
    have ys: "ys = y # mid @ [last ys']" using y by (simp add: mid_def)
    have b: "b = a + length mid + 1" using less.prems(2) ys by simp
    have "(xs @ ys @ zs)[a := (xs @ ys @ zs) ! b, b := (xs @ ys @ zs) ! a] = (xs @ [last ys']) @ mid @ (y # zs)"
      using less.prems(1) b unfolding ys by (simp add: nth_append list_update_append)
    moreover have "b < length (xs @ ys @ zs)" using less.prems(1) b ys by simp
    ultimately have "swap_loop (xs @ ys @ zs) a b = swap_loop ((xs @ [last ys']) @ mid @ (y # zs)) (a + 1) (b - 1)"
      by (simp only: swap_loop.simps [of "xs @ ys @ zs" a b] True if_True)
    also have "\<dots> = Some ((xs @ [last ys']) @ rev mid @ (y # zs))"
      using less.prems(1) b ys by (intro less.hyps) simp_all
    finally show ?thesis using ys by simp
  qed
qed

lemma sdsull2str_ok:
  assumes "length (nat_dec (unat v)) < length s"
  shows "sdsull2str s v = Some (nat_dec (unat v) @ 0 # drop (length (nat_dec (unat v)) + 1) s, length (nat_dec (unat v)))"
proof -
  let ?d = "nat_dec (unat v)"
  have "rev_digits s 0 v = Some (rev ?d @ drop (length ?d) s, length ?d)" using rev_digits_ok [of 0 v s] assms by simp
  moreover have "wr (rev ?d @ drop (length ?d) s) (length ?d) [0] = Some (rev ?d @ 0 # drop (length ?d + 1) s)"
    using assms by (simp add: wr_at)
  moreover have "swap_loop (rev ?d @ 0 # drop (length ?d + 1) s) 0 (length ?d - 1) = Some (?d @ 0 # drop (length ?d + 1) s)"
    using swap_loop_ok [of 0 "[]" "rev ?d" "length ?d - 1" "0 # drop (length ?d + 1) s"] by simp
  ultimately show ?thesis by (simp add: sdsull2str_def)
qed

lemma sdsll2str_ok:
  assumes v: "is_int64 v" and l: "length (int_dec v) < length s"
  shows "sdsll2str s v = Some (int_dec v @ 0 # drop (length (int_dec v) + 1) s, length (int_dec v))"
proof -
  define u where "u = (if v < 0 then word_of_int (- v) else word_of_int v :: u64)"
  have uu: "unat u = nat \<bar>v\<bar>"
  proof -
    have "u = word_of_int \<bar>v\<bar>" by (simp add: u_def abs_if)
    moreover have "0 \<le> \<bar>v\<bar>" "\<bar>v\<bar> < 2 ^ 64" using v by auto
    ultimately show ?thesis by (simp add: unat_eq_nat_uint uint_word_of_int)
  qed
  let ?d = "nat_dec (nat \<bar>v\<bar>)" and ?i = "int_dec v"
  have i: "?i = (if v < 0 then [MINUS] else []) @ ?d" by (simp add: int_dec_def)
  have r: "rev_digits s 0 u = Some (rev ?d @ drop (length ?d) s, length ?d)"
    using rev_digits_ok [of 0 u s] l i uu by simp
  have m: "wr (rev ?d @ drop (length ?d) s) (length ?d) [MINUS] = Some (rev ?d @ MINUS # drop (length ?d + 1) s)"
    using l i by (simp add: wr_at)
  have z: "wr (rev ?i @ drop (length ?i) s) (length ?i) [0] = Some (rev ?i @ 0 # drop (length ?i + 1) s)"
    using l by (simp add: wr_at)
  have sw: "swap_loop (rev ?i @ 0 # drop (length ?i + 1) s) 0 (length ?i - 1) = Some (?i @ 0 # drop (length ?i + 1) s)"
    using swap_loop_ok [of 0 "[]" "rev ?i" "length ?i - 1" "0 # drop (length ?i + 1) s"] by (simp add: int_dec_def)
  show ?thesis
    using r m z sw i unfolding sdsll2str_def u_def [symmetric] Let_def by (cases "v < 0") simp_all
qed

lemma sdsfromlonglong_ok:
  assumes "is_int64 v"
  shows "yields (sdsfromlonglong junk v) (int_dec v)"
proof -
  have l: "length (int_dec v) \<le> 20" using length_int_dec [OF assms] .
  then show ?thesis using sdsll2str_ok [OF assms, of "map junk [0..<21]"]
    by (simp add: sdsfromlonglong_def sdsnewlen_ok del: upt_Suc upt_rec_numeral)
qed

end
