(* ===== verification/Sds_Ops.thy ===== *)
theory Sds_Ops
  imports Sds_Text Sds_Num
begin

text \<open>
  The formatting, trimming, comparing and splitting operations of \<^verbatim>\<open>sds.c\<close> against functions on
  lists of bytes.
\<close>

subsection \<open>Formatting\<close>

lemma cstr_append: "0 \<in> set xs \<Longrightarrow> cstr (xs @ ys) = cstr xs"
  by (auto simp: cstr_def)

lemma cstr_zero: "cstr (xs @ 0 # ys) = cstr xs"
  by (induction xs) (simp_all add: cstr_def)

lemma vprintf_loop_ok: "2 \<le> length m \<Longrightarrow> \<exists>m'. vprintf_loop junk out m = Some m' \<and> cstr m' = cstr out"
proof (induction junk out m rule: vprintf_loop.induct)
  case (1 junk out m)
  define m1 where "m1 = take (length m - 2) m @ 0 # drop (length m - 2 + 1) m"
  define m2 where "m2 = (take (length m - 1) out @ [0]) @ drop (length (take (length m - 1) out @ [0])) m1"
  have l: "length m1 = length m" using 1(2) by (simp add: m1_def)
  have w1: "wr m (length m - 2) [0] = Some m1" using 1(2) by (simp add: wr_def m1_def)
  have w2: "wr m1 0 (take (length m1 - 1) out @ [0]) = Some m2" using 1(2) l by (simp add: wr_def m2_def)
  have unf: "vprintf_loop junk out m =
      (if m2 ! (length m - 2) \<noteq> 0 then vprintf_loop junk out (map junk [0..<length m * 2]) else Some m2)"
    using 1(2) w1 w2 by (simp add: vprintf_loop.simps [of junk out m] Let_def)
  show ?case
  proof (cases "m2 ! (length m - 2) \<noteq> 0")
    case True
    have "\<exists>m'. vprintf_loop junk out (map junk [0..<length m * 2]) = Some m' \<and> cstr m' = cstr out"
      using 1(2) by (intro 1(1) [OF refl _ w1 w2 True]) simp_all
    then show ?thesis using unf True by simp
  next
    case False
    have "cstr m2 = cstr out"
    proof (cases "length out \<le> length m - 1")
      case True
      then show ?thesis by (simp add: m2_def cstr_zero)
    next
      case long: False
      have i: "length m - 2 < length m - 1" using 1(2) by simp
      have "m2 ! (length m - 2) = take (length m - 1) out ! (length m - 2)"
        using long i by (simp add: m2_def nth_append)
      then have "0 \<in> set (take (length m - 1) out)"
        using False long i nth_mem [of "length m - 2" "take (length m - 1) out"] by simp
      then show ?thesis
        using cstr_append [of "take (length m - 1) out"] cstr_append [of "take (length m - 1) out" "drop (length m - 1) out"]
        by (simp add: m2_def)
    qed
    then show ?thesis using unf False by simp
  qed
qed

lemma sdscatvprintf_ok:
  assumes "sds_rep s xs" and "length xs + length (cstr out) < 2 ^ 62"
  shows "yields (sdscatvprintf junk s fmt out) (xs @ cstr out)"
proof -
  define m where "m = (if length (cstr fmt) * 2 > 1024 then map junk [0..<length (cstr fmt) * 2] else map junk [0..<1024])"
  have "2 \<le> length m" by (simp add: m_def del: upt_rec_numeral)
  then obtain m' where "vprintf_loop junk out m = Some m'" "cstr m' = cstr out" using vprintf_loop_ok by blast
  then show ?thesis using sdscat_ok [OF assms(1), of m' junk] assms(2)
    unfolding sdscatvprintf_def Let_def m_def [symmetric] by simp
qed

text \<open>The text that \<^verbatim>\<open>sdscatfmt\<close> should append.\<close>

definition arg_ok :: "fmt_arg \<Rightarrow> bool" where
  "arg_ok a = (case a of Arg_sds t \<Rightarrow> sds_rep t (take (sdslen t) (sds_buf t)) | Arg_int v \<Rightarrow> is_int64 v
                 | Arg_longlong v \<Rightarrow> is_int64 v | _ \<Rightarrow> True)"

definition arg_text :: "byte \<Rightarrow> fmt_arg \<Rightarrow> byte list option" where
  "arg_text nx a = (case a of
       Arg_cstr t \<Rightarrow> if nx = 115 then Some (cstr t) else None
     | Arg_sds t \<Rightarrow> if nx = 83 then Some (take (sdslen t) (sds_buf t)) else None
     | Arg_int v \<Rightarrow> if nx = 105 then Some (int_dec v) else None
     | Arg_longlong v \<Rightarrow> if nx = 73 then Some (int_dec v) else None
     | Arg_uint v \<Rightarrow> if nx = 117 then Some (nat_dec (unat v)) else None
     | Arg_ulonglong v \<Rightarrow> if nx = 85 then Some (nat_dec (unat v)) else None)"

fun fmt_text :: "byte list \<Rightarrow> fmt_arg list \<Rightarrow> byte list option" where
  "fmt_text [] ap = Some []"
| "fmt_text (c # f) ap =
     (if c \<noteq> 37 then map_option ((#) c) (fmt_text f ap)
      else case f of
             [] \<Rightarrow> None
           | nx # f' \<Rightarrow>
               if nx \<notin> {115, 83, 105, 73, 117, 85} then map_option ((#) nx) (fmt_text f' ap)
               else case ap of
                      [] \<Rightarrow> None
                    | a # ap' \<Rightarrow> do { bs \<leftarrow> arg_text nx a; map_option ((@) bs) (fmt_text f' ap') })"

lemma length_nat_dec_u64: "length (nat_dec (unat (v :: u64))) \<le> 20"
proof (cases "unat v < 10 ^ 19")
  case True
  then show ?thesis using length_nat_dec_bound [of "unat v" 19] by simp
next
  case False
  moreover have "unat v < 2 ^ 64" using unsigned_less [of v, where ?'a = nat] by simp
  ultimately show ?thesis using length_nat_dec_eq [of 19 "unat v"] by simp
qed

lemma fmt_arg_bytes_ok:
  assumes "arg_ok a"
  shows "fmt_arg_bytes junk nx a = arg_text nx a"
proof (cases a)
  case (Arg_sds t)
  then show ?thesis using assms by (simp add: arg_ok_def fmt_arg_bytes_def arg_text_def sds_rep_def sds_core_def rd_def)
next
  case (Arg_int v)
  then have "is_int64 v" using assms by (simp add: arg_ok_def)
  then show ?thesis using Arg_int sdsll2str_ok [of v "map junk [0..<21]"] length_int_dec [of v]
    by (simp add: fmt_arg_bytes_def arg_text_def rd_def del: upt_rec_numeral)
next
  case (Arg_longlong v)
  then have "is_int64 v" using assms by (simp add: arg_ok_def)
  then show ?thesis using Arg_longlong sdsll2str_ok [of v "map junk [0..<21]"] length_int_dec [of v]
    by (simp add: fmt_arg_bytes_def arg_text_def rd_def del: upt_rec_numeral)
next
  case (Arg_uint v)
  have "unat (ucast v :: u64) = unat v"
    using unsigned_less [of v, where ?'a = nat] by (simp add: unsigned_ucast_eq take_bit_nat_eq_self)
  then show ?thesis using Arg_uint sdsull2str_ok [of "ucast v" "map junk [0..<21]"] length_nat_dec_u64 [of "ucast v"]
    by (simp add: fmt_arg_bytes_def arg_text_def rd_def del: upt_rec_numeral)
next
  case (Arg_ulonglong v)
  then show ?thesis using sdsull2str_ok [of v "map junk [0..<21]"] length_nat_dec_u64 [of v]
    by (simp add: fmt_arg_bytes_def arg_text_def rd_def del: upt_rec_numeral)
qed (simp add: fmt_arg_bytes_def arg_text_def)

lemma sdsinclen_setlen:
  assumes "sds_core s n" and "n + k \<le> sdsalloc s"
  shows "sdsinclen s k = sdssetlen s (n + k)"
proof (cases "sds_type s = SDS_TYPE_5")
  case True
  then have "type5_len (sds_flags s) = n" "k = 0" "n < 32"
    using assms type5_len_less [of "sds_flags s"] by (auto simp: sds_core_def sdslen_def sdsalloc_def)
  then show ?thesis using True by (simp add: sdsinclen_def sdssetlen_def)
next
  case False
  then have "sds_len s = n" using assms by (auto simp: sds_core_def sds_valid_def sdslen_def)
  then show ?thesis using False by (simp add: sdsinclen_def sdssetlen_def)
qed

lemma sds_open_store:
  assumes op: "sds_open s xs" and room: "length xs + length bs \<le> sdsalloc s"
  shows "\<exists>s'. set_bytes s (length xs) bs = Some s' \<and> sds_open (sdsinclen s' (length bs)) (xs @ bs)"
proof -
  let ?m = "xs @ bs @ drop (length xs + length bs) (sds_buf s)"
  have core: "sds_core s (length xs)" "take (length xs) (sds_buf s) = xs" using op by (simp_all add: sds_open_def)
  have b: "sdsalloc s < length (sds_buf s)" using core(1) by (simp add: sds_core_def)
  have c: "sds_core (s\<lparr>sds_buf := ?m\<rparr>) (length xs)" using core(1) room b by (intro sds_core_upd) simp_all
  then have "sds_open (sdsinclen (s\<lparr>sds_buf := ?m\<rparr>) (length bs)) (xs @ bs)"
    using sdsinclen_setlen [OF c, of "length bs"] sdssetlen_ok [of s "length xs + length bs"] room b
    by (simp add: sds_open_def sds_core_def)
  then show ?thesis using set_bytes_ok [of "length xs" bs s] room b core(2) by simp
qed

lemma sds_open_room:
  assumes op: "sds_open s xs" and room: "length xs + k < 2 ^ 62"
  shows "\<exists>s'. (if sdsavail s < k then sdsMakeRoomFor junk s k else Some s) = Some s' \<and> sds_open s' xs \<and> length xs + k \<le> sdsalloc s'"
proof (cases "sdsavail s < k")
  case True
  have core: "sds_core s (length xs)" "take (length xs) (sds_buf s) = xs" using op by (simp_all add: sds_open_def)
  obtain s' where s': "sdsMakeRoomFor junk s k = Some s'" "sds_core s' (length xs)" "length xs + k \<le> sdsalloc s'"
      "take (length xs + 1) (sds_buf s') = take (length xs + 1) (sds_buf s)"
    using sdsMakeRoomFor_ok [OF core(1) room] by blast
  have "take (length xs) (sds_buf s') = xs"
    using arg_cong [OF s'(4), of "take (length xs)"] core(2) by (simp add: min_def)
  then show ?thesis using True s' by (simp add: sds_open_def)
next
  case False
  moreover have "length xs \<le> sdsalloc s" "sdsavail s = sdsalloc s - length xs"
    using op sdsavail_ok [of s "length xs"] by (simp_all add: sds_open_def sds_core_def)
  ultimately show ?thesis using op by simp
qed

lemma fmt_put_ok:
  assumes "sds_open s xs" and "length xs + length bs < 2 ^ 62"
  shows "\<exists>s'. fmt_put junk s (length xs) bs = Some (s', length (xs @ bs)) \<and> sds_open s' (xs @ bs)"
proof -
  obtain s1 where s1: "(if sdsavail s < length bs then sdsMakeRoomFor junk s (length bs) else Some s) = Some s1"
      "sds_open s1 xs" "length xs + length bs \<le> sdsalloc s1"
    using sds_open_room [OF assms] by blast
  obtain s2 where "set_bytes s1 (length xs) bs = Some s2" "sds_open (sdsinclen s2 (length bs)) (xs @ bs)"
    using sds_open_store [OF s1(2,3)] by blast
  then show ?thesis using s1(1) by (simp add: fmt_put_def Let_def)
qed

lemma fmt_char_ok:
  assumes "sds_open s xs" and "length xs + 1 \<le> sdsalloc s"
  shows "\<exists>s'. fmt_char s (length xs) c = Some (s', length (xs @ [c])) \<and> sds_open s' (xs @ [c])"
  using sds_open_store [of s xs "[c]"] assms by (auto simp: fmt_char_def set_byte_def set_bytes_def)

lemma catfmt_loop_ok:
  assumes "sds_open s xs" and "fmt_text f ap = Some out" and "\<forall>a \<in> set ap. arg_ok a" and "length xs + length out < 2 ^ 61"
  shows "\<exists>s'. catfmt_loop junk s (length xs) f ap = Some (s', length (xs @ out)) \<and> sds_open s' (xs @ out)"
  using assms
proof (induction f ap arbitrary: s xs out rule: fmt_text.induct)
  case (2 c f ap)
  obtain s1 where s1: "(if sdsavail s = 0 then sdsMakeRoomFor junk s 1 else Some s) = Some s1" "sds_open s1 xs" "length xs + 1 \<le> sdsalloc s1"
    using sds_open_room [OF "2.prems"(1), of 1 junk] "2.prems"(4) by (auto simp: less_Suc_eq_0_disj)
  show ?case
  proof (cases "c = 37")
    case False
    then obtain o1 where o1: "fmt_text f ap = Some o1" "out = c # o1" using "2.prems"(2) by auto
    obtain s2 where s2: "fmt_char s1 (length xs) c = Some (s2, length (xs @ [c]))" "sds_open s2 (xs @ [c])"
      using fmt_char_ok [OF s1(2,3)] by blast
    from "2.IH"(1) [OF False s2(2) o1(1) "2.prems"(3)] show ?thesis
      using False s1(1) s2(1) o1 "2.prems"(4) by auto
  next
    case True
    then obtain nx f' where f: "f = nx # f'" using "2.prems"(2) by (cases f) simp_all
    show ?thesis
    proof (cases "nx \<in> {115, 83, 105, 73, 117, 85}")
      case nx: False
      then obtain o1 where o1: "fmt_text f' ap = Some o1" "out = nx # o1" using "2.prems"(2) True f by auto
      obtain s2 where s2: "fmt_char s1 (length xs) nx = Some (s2, length (xs @ [nx]))" "sds_open s2 (xs @ [nx])"
        using fmt_char_ok [OF s1(2,3)] by blast
      from "2.IH"(2) [OF _ f nx s2(2) o1(1) "2.prems"(3)] show ?thesis
        using True f nx s1(1) s2(1) o1 "2.prems"(4) by auto
    next
      case nx: True
      then obtain a ap' bs o1 where o1: "ap = a # ap'" "arg_text nx a = Some bs" "fmt_text f' ap' = Some o1" "out = bs @ o1"
        using "2.prems"(2) True f by (cases ap) (auto simp: bind_eq_Some_conv)
      have b: "fmt_arg_bytes junk nx a = Some bs" using fmt_arg_bytes_ok [of a junk nx] o1(1,2) "2.prems"(3) by simp
      obtain s2 where s2: "fmt_put junk s1 (length xs) bs = Some (s2, length (xs @ bs))" "sds_open s2 (xs @ bs)"
        using fmt_put_ok [OF s1(2), of bs junk] o1(4) "2.prems"(4) by auto
      have "\<exists>s'. catfmt_loop junk s2 (length (xs @ bs)) f' ap' = Some (s', length ((xs @ bs) @ o1)) \<and> sds_open s' ((xs @ bs) @ o1)"
        using True f nx o1 "2.prems"(3,4) s2(2) by (intro "2.IH"(3)) simp_all
      then show ?thesis using True f nx s1(1) s2(1) o1 b by auto
    qed
  qed
qed simp

lemma sds_open_close:
  assumes "sds_open s xs"
  shows "yields (set_byte s (length xs) 0) xs"
proof -
  have c: "sds_core s (length xs)" "take (length xs) (sds_buf s) = xs" "length xs < length (sds_buf s)"
    using assms by (simp_all add: sds_open_def sds_core_def)
  then have "sds_rep (s\<lparr>sds_buf := xs @ 0 # drop (length xs + 1) (sds_buf s)\<rparr>) xs"
    unfolding sds_rep_def by (intro conjI sds_core_upd) simp_all
  then show ?thesis using c set_byte_ok [of "length xs" s 0] by simp
qed

lemma sdscatfmt_ok:
  assumes "sds_rep s xs" and "fmt_text (cstr fmt) ap = Some out" and "\<forall>a \<in> set ap. arg_ok a" and "length xs + length out < 2 ^ 61"
  shows "yields (sdscatfmt junk s fmt ap) (xs @ out)"
proof -
  obtain s' where "catfmt_loop junk s (length xs) (cstr fmt) ap = Some (s', length (xs @ out))" "sds_open s' (xs @ out)"
    using catfmt_loop_ok [OF sds_rep_open [OF assms(1)] assms(2-4), of junk] by blast
  then show ?thesis using sds_open_close [of s' "xs @ out"] sds_rep_len [OF assms(1)] by (simp add: sdscatfmt_def)
qed

subsection \<open>Trimming and ranges\<close>

definition trim :: "('a \<Rightarrow> bool) \<Rightarrow> 'a list \<Rightarrow> 'a list" where
  "trim P xs = rev (dropWhile P (rev (dropWhile P xs)))"

lemma trim_sp_ok:
  "k \<le> length xs \<Longrightarrow> take (length xs) m = xs \<Longrightarrow>
    trim_sp cset m (int k) (int (length xs) - 1) = int k + int (length (takeWhile (strchr cset) (drop k xs)))"
proof (induction "length xs - k" arbitrary: k)
  case 0
  then show ?case by (simp add: trim_sp.simps)
next
  case (Suc d)
  then have k: "k < length xs" by simp
  have m: "m ! k = xs ! k" using Suc.prems(2) k by (metis nth_take)
  have d: "drop k xs = xs ! k # drop (k + 1) xs" using k by (simp add: Cons_nth_drop_Suc)
  show ?case
  proof (cases "strchr cset (xs ! k)")
    case True
    have "trim_sp cset m (int (k + 1)) (int (length xs) - 1) = int (k + 1) + int (length (takeWhile (strchr cset) (drop (k + 1) xs)))"
      using Suc k by (intro Suc.hyps(1)) simp_all
    then show ?thesis using True k m d by (simp add: trim_sp.simps [of cset m "int k"] add.commute)
  next
    case False
    then show ?thesis using m d by (simp add: trim_sp.simps [of cset m "int k"])
  qed
qed

lemma trim_ep_ok:
  "k < length ys \<Longrightarrow> take (length ys) (drop sp m) = ys \<Longrightarrow> \<not> strchr cset (hd ys) \<Longrightarrow>
    trim_ep cset m (int sp) (int (sp + k)) =
      int sp + int (length (dropWhile (strchr cset) (rev (take (k + 1) ys)))) - 1"
proof (induction k)
  case 0
  then obtain y ys' where "ys = y # ys'" by (cases ys) simp_all
  then show ?case using 0 by (simp add: trim_ep.simps)
next
  case (Suc k)
  have "drop sp m ! (k + 1) = ys ! (k + 1)" using Suc.prems(1,2) by (metis Suc_eq_plus1 nth_take)
  moreover have "sp \<le> length m" using Suc.prems by (metis drop_eq_Nil less_zeroE list.size(3) nat_le_linear take_Nil)
  ultimately have m: "m ! (sp + (k + 1)) = ys ! (k + 1)" by simp
  have t: "rev (take (Suc k + 1) ys) = ys ! (k + 1) # rev (take (k + 1) ys)"
    using Suc.prems(1) by (simp add: take_Suc_conv_app_nth)
  show ?case
  proof (cases "strchr cset (ys ! (k + 1))")
    case True
    have "trim_ep cset m (int sp) (int (sp + Suc k)) = trim_ep cset m (int sp) (int (sp + k))"
      using True m by (subst trim_ep.simps) (simp add: nat_add_distrib)
    then show ?thesis using Suc t True by simp
  next
    case False
    have "trim_ep cset m (int sp) (int (sp + Suc k)) = int (sp + Suc k)"
      using False m by (subst trim_ep.simps) (simp add: nat_add_distrib)
    then show ?thesis using False t Suc.prems(1) by simp
  qed
qed

lemma sds_shrink:
  assumes op: "sds_open s xs" and len: "length ys \<le> length xs" "length m = length (sds_buf s)" "take (length ys) m = ys"
  shows "yields (do { s \<leftarrow> set_byte (s\<lparr>sds_buf := m\<rparr>) (length ys) 0; Some (sdssetlen s (length ys)) }) ys"
proof -
  have "sds_core (s\<lparr>sds_buf := m\<rparr>) (length xs)" using op len(2) by (simp add: sds_open_def sds_core_upd)
  moreover have "length ys \<le> sdsalloc (s\<lparr>sds_buf := m\<rparr>)" using op len(1) by (simp add: sds_open_def sds_core_def)
  ultimately show ?thesis unfolding set_byte_setlen using len(3) by (intro set_end) simp_all
qed

lemma memmove_front:
  assumes "a + n \<le> length xs" and "length xs \<le> length m" and "take (length xs) m = xs"
  shows "\<exists>m'. memmove m 0 a n = Some m' \<and> length m' = length m \<and> take n m' = take n (drop a xs)"
proof -
  have "n \<le> length xs - a" using assms(1) by simp
  then have "take n (drop a m) = take n (drop a xs)"
    using arg_cong [OF assms(3), of "\<lambda>l. take n (drop a l)"] by (simp add: drop_take min_def)
  then show ?thesis using assms(1,2) by (auto simp: memmove_def rd_def wr_def)
qed

lemma sdstrim_ok:
  assumes "sds_rep s xs"
  shows "yields (sdstrim s cset) (trim (strchr cset) xs)"
proof -
  let ?P = "strchr cset" and ?m = "sds_buf s"
  note op = sds_rep_open [OF assms]
  have m: "take (length xs) ?m = xs" "length xs \<le> length ?m" "sdslen s = length xs" using op by (simp_all add: sds_open_def sds_core_def)
  define ys where "ys = dropWhile ?P xs"
  define sp where "sp = length (takeWhile ?P xs)"
  define zs where "zs = trim ?P xs"
  have xs: "xs = takeWhile ?P xs @ ys" "drop sp xs = ys" "sp + length ys = length xs"
    by (simp_all add: ys_def sp_def dropWhile_eq_drop [symmetric]) (metis length_append takeWhile_dropWhile_id)
  have zs: "zs = take (length zs) ys" "length zs \<le> length ys"
  proof -
    have "rev ys = takeWhile ?P (rev ys) @ rev zs" by (simp add: zs_def trim_def ys_def)
    then have "ys = zs @ rev (takeWhile ?P (rev ys))" by (metis rev_append rev_rev_ident)
    then show "zs = take (length zs) ys" "length zs \<le> length ys" by (metis append_eq_conv_conj, metis length_append le_add1)
  qed
  have e1: "trim_sp cset ?m 0 (int (length xs) - 1) = int sp" using trim_sp_ok [of 0 xs ?m cset] m by (simp add: sp_def)
  have e2: "(if int sp > e then 0 else nat (e - int sp + 1)) = length zs" if "e = trim_ep cset ?m (int sp) (int (length xs) - 1)" for e
  proof (cases "ys = []")
    case True
    then have "zs = []" "int sp > int (length xs) - 1" using xs(3) by (simp_all add: zs_def trim_def ys_def [symmetric])
    then show ?thesis using that by (simp add: trim_ep.simps)
  next
    case False
    then obtain k where k: "length ys = Suc k" by (cases ys) simp_all
    have "int (length xs) - 1 = int (sp + k)" using xs(3) k by simp
    moreover have "take (length ys) (drop sp ?m) = ys"
    proof -
      have "length xs - sp = length ys" using xs(3) by simp
      then show ?thesis using arg_cong [OF m(1), of "drop sp"] xs(2) by (simp add: drop_take)
    qed
    moreover have "\<not> ?P (hd ys)" using False by (simp add: ys_def hd_dropWhile)
    ultimately have "e = int sp + int (length zs) - 1"
      using that trim_ep_ok [of k ys sp ?m cset] k by (simp add: zs_def trim_def ys_def [symmetric])
    moreover have "zs \<noteq> []"
      using False \<open>\<not> ?P (hd ys)\<close> hd_in_set [of ys] by (auto simp: zs_def trim_def ys_def [symmetric])
    ultimately show ?thesis by (cases zs) simp_all
  qed
  obtain m' where m': "(if sp \<noteq> 0 then memmove ?m 0 sp (length zs) else Some ?m) = Some m'" "length m' = length ?m" "take (length zs) m' = zs"
  proof (cases "sp = 0")
    case True
    then have "take (length zs) ?m = zs" using m(1) xs(2,3) zs by (metis drop_0 min.absorb1 take_take)
    then show ?thesis using that True by simp
  next
    case False
    then show ?thesis using that memmove_front [of sp "length zs" xs ?m] m xs zs by auto
  qed
  have "yields (do { s \<leftarrow> set_byte (s\<lparr>sds_buf := m'\<rparr>) (length zs) 0; Some (sdssetlen s (length zs)) }) zs"
    using m' xs(3) zs(2) by (intro sds_shrink [OF op]) simp_all
  then show ?thesis using m'(1) unfolding sdstrim_def Let_def zs_def [symmetric] m(3) e1 e2 [OF refl] by (cases "sp = 0") simp_all
qed

text \<open>The bytes from index \<open>start\<close> to \<open>en\<close>; negative indices count from the end.\<close>

definition range_text :: "byte list \<Rightarrow> int \<Rightarrow> int \<Rightarrow> byte list" where
  "range_text xs start en =
     (let n = int (length xs);
          a = (if start < 0 then max 0 (n + start) else start);
          e = (if en < 0 then max 0 (n + en) else en)
      in take (nat (e - a + 1)) (drop (nat a) xs))"

lemma sdsrange_ok:
  assumes rep: "sds_rep s xs" and b: "is_int64 start" "is_int64 en" "length xs < 2 ^ 62"
  shows "yields (sdsrange s start en) (range_text xs start en)"
proof (cases "xs = []")
  case True
  then show ?thesis using rep sds_rep_len [OF rep] by (simp add: sdsrange_def range_text_def Let_def)
next
  case False
  note op = sds_rep_open [OF rep]
  have m: "take (length xs) (sds_buf s) = xs" "length xs \<le> length (sds_buf s)" "sdslen s = length xs" using op by (simp_all add: sds_open_def sds_core_def)
  define n where "n = int (length xs)"
  have n: "0 < n" "n < 2 ^ 62" using False b(3) by (simp_all add: n_def)
  have ss: "ssize (n + v) = n + v" if "is_int64 v" "v < 0" for v
    using that n unfolding ssize_def by (intro signed_take_bit_int_eq_self) simp_all
  have sn: "ssize n = n" unfolding ssize_def using n by (intro signed_take_bit_int_eq_self) simp_all
  define a where "a = (if start < 0 then max 0 (n + start) else start)"
  define e where "e = (if en < 0 then max 0 (n + en) else en)"
  have ae: "0 \<le> a" "0 \<le> e" by (simp_all add: a_def e_def)
  define ys where "ys = range_text xs start en"
  have ys: "ys = take (nat (e - a + 1)) (drop (nat a) xs)" by (simp add: ys_def range_text_def a_def e_def n_def Let_def)
  define newlen where "newlen = (if a > e \<or> a \<ge> n then 0 else (if e \<ge> n then n - 1 else e) - a + 1)"
  have len: "nat newlen = length ys" "length ys \<le> length xs" "0 \<le> newlen"
    using ae by (auto simp: newlen_def ys n_def min_def)
  have tk: "take (length ys) (drop (nat a) xs) = ys"
    unfolding ys by (cases "nat (e - a + 1) \<le> length (drop (nat a) xs)") simp_all
  obtain m' where m': "(if a \<noteq> 0 \<and> newlen \<noteq> 0 then memmove (sds_buf s) 0 (nat a) (nat newlen) else Some (sds_buf s)) = Some m'"
      "length m' = length (sds_buf s)" "take (length ys) m' = ys"
  proof (cases "a \<noteq> 0 \<and> newlen \<noteq> 0")
    case True
    then have "nat a + nat newlen \<le> length xs" using ae by (auto simp: newlen_def n_def split: if_splits)
    then show ?thesis using that True memmove_front [of "nat a" "nat newlen" xs "sds_buf s"] m len(1) tk by auto
  next
    case False
    then have "take (length ys) xs = ys" using len(1) tk by auto
    then have "take (length ys) (sds_buf s) = ys" using m(1) len(2) by (metis min.absorb1 take_take)
    then show ?thesis using that False by auto
  qed
  have "yields (do { s \<leftarrow> set_byte (s\<lparr>sds_buf := m'\<rparr>) (length ys) 0; Some (sdssetlen s (length ys)) }) ys"
    using m' len(2) by (intro sds_shrink [OF op]) simp_all
  moreover have "sdsrange s start en =
      do { m \<leftarrow> (if a \<noteq> 0 \<and> newlen \<noteq> 0 then memmove (sds_buf s) 0 (nat a) (nat newlen) else Some (sds_buf s));
           s \<leftarrow> set_byte (s\<lparr>sds_buf := m\<rparr>) (nat newlen) 0;
           Some (sdssetlen s (nat newlen)) }"
  proof -
    have ea: "(if start < 0 then max 0 (ssize (n + start)) else start) = a" "(if en < 0 then max 0 (ssize (n + en)) else en) = e"
      using ss b(1,2) by (simp_all add: a_def e_def)
    have t: "(if (if a > e then 0 else e - a + 1) \<noteq> 0
        then if a \<ge> n then (a, 0) else if e \<ge> n then (a, if a > n - 1 then 0 else n - 1 - a + 1) else (a, if a > e then 0 else e - a + 1)
        else (0, if a > e then 0 else e - a + 1)) = (if a > e then 0 else a, newlen)"
      using ae by (auto simp: newlen_def)
    have "newlen = 0" if "a > e" using that by (simp add: newlen_def)
    then show ?thesis
      using False unfolding sdsrange_def Let_def m(3) n_def [symmetric] ea sn t prod.case by auto
  qed
  ultimately show ?thesis using m'(1) len(1) unfolding ys_def [symmetric] by simp
qed

subsection \<open>Mapping and comparing\<close>

lemma map_bytes_ok:
  assumes "sds_rep s xs"
  shows "yields (map_bytes f s) (map f xs)"
proof -
  note op = sds_rep_open [OF assms]
  have c: "sds_core s (length xs)" "take (length xs + 1) (sds_buf s) = xs @ [0]" "length xs < length (sds_buf s)"
    using assms by (simp_all add: sds_rep_def sds_core_def)
  have "drop (length xs) (sds_buf s) = sds_buf s ! length xs # drop (length xs + 1) (sds_buf s)"
    using c(3) by (simp add: Cons_nth_drop_Suc)
  moreover have "sds_buf s ! length xs = 0" using c(2,3) by (simp add: take_Suc_conv_app_nth)
  ultimately have "sds_rep (s\<lparr>sds_buf := map f xs @ drop (length xs) (sds_buf s)\<rparr>) (map f xs)"
    unfolding sds_rep_def using c(1,3) by (auto intro!: sds_core_upd)
  then show ?thesis
    using sds_rep_rd [OF op] sds_rep_len [OF assms] c(3) by (simp add: map_bytes_def set_bytes_ok)
qed

lemma memcmp_take: "memcmp (take k xs) (take k ys) = 0 \<longleftrightarrow> take k xs = take k ys" if "k \<le> length xs" "k \<le> length ys"
  using that
proof (induction k arbitrary: xs ys)
  case (Suc k)
  then show ?case by (cases xs; cases ys) (auto simp: word_uint_eq_iff)
qed simp

lemma memcmp_lex:
  "memcmp (take (min (length xs) (length ys)) xs) (take (min (length xs) (length ys)) ys) \<noteq> 0 \<Longrightarrow>
    (memcmp (take (min (length xs) (length ys)) xs) (take (min (length xs) (length ys)) ys) < 0 \<longleftrightarrow> ord_class.lexordp xs ys)"
proof (induction xs arbitrary: ys)
  case (Cons x xs)
  then obtain y ys' where y: "ys = y # ys'" by (cases ys) simp_all
  have "x \<noteq> y \<Longrightarrow> uint x - uint y < 0 \<longleftrightarrow> x < y" by (auto simp: word_less_def)
  then show ?case using Cons.prems Cons.IH [of ys'] y by (cases "x = y") (auto simp: word_less_def)
qed simp

lemma lexordp_prefix: "take (length xs) ys = xs \<Longrightarrow> ord_class.lexordp xs ys \<longleftrightarrow> length xs < length (ys :: 'a :: preorder list)"
proof (induction xs arbitrary: ys)
  case Nil
  then show ?case by (cases ys) simp_all
next
  case (Cons x xs)
  then show ?case by (cases ys) auto
qed

lemma sds_rd_prefix:
  assumes "sds_open s xs" and "k \<le> length xs"
  shows "rd (sds_buf s) 0 k = Some (take k xs)"
proof -
  have "take k (take (length xs) (sds_buf s)) = take k xs" using assms(1) by (simp add: sds_open_def)
  then show ?thesis using assms by (simp add: rd_def sds_open_def sds_core_def min_def)
qed

lemma sdscmp_ok:
  assumes "sds_rep s xs" and "sds_rep t ys"
  shows "\<exists>c. sdscmp s t = Some c \<and> (c < 0 \<longleftrightarrow> ord_class.lexordp xs ys) \<and> (c = 0 \<longleftrightarrow> xs = ys)"
proof -
  let ?k = "min (length xs) (length ys)"
  have k: "(if length xs < length ys then length xs else length ys) = ?k" by simp
  have r: "rd (sds_buf s) 0 ?k = Some (take ?k xs)" "rd (sds_buf t) 0 ?k = Some (take ?k ys)"
    by (simp_all add: sds_rd_prefix [OF sds_rep_open [OF assms(1)]] sds_rd_prefix [OF sds_rep_open [OF assms(2)]])
  let ?c = "memcmp (take ?k xs) (take ?k ys)"
  have e: "sdscmp s t = Some (if ?c = 0 then (if length xs > length ys then 1 else if length xs < length ys then -1 else 0) else ?c)"
    using r sds_rep_len [OF assms(1)] sds_rep_len [OF assms(2)] unfolding sdscmp_def Let_def by (simp only: k) simp
  show ?thesis
  proof (cases "?c = 0")
    case False
    then have "xs \<noteq> ys" using memcmp_take [of ?k xs ys] by auto
    then show ?thesis using e False memcmp_lex [OF False] by simp
  next
    case True
    then have eq: "take ?k xs = take ?k ys" by (simp add: memcmp_take)
    have e0: "sdscmp s t = Some (if length xs > length ys then 1 else if length xs < length ys then -1 else 0)"
      unfolding e True by simp
    show ?thesis
    proof (cases "length xs \<le> length ys")
      case le: True
      then have t: "take (length xs) ys = xs" using eq by (simp add: min_def)
      then have "xs = ys \<longleftrightarrow> length xs = length ys" by (metis order_refl take_all)
      then show ?thesis unfolding e0 using le lexordp_prefix [OF t] by simp
    next
      case gt: False
      then have t: "take (length ys) xs = ys" using eq by (simp add: min_def)
      then have "ord_class.lexordp ys xs" using gt lexordp_prefix [of ys xs] by simp
      then have "\<not> ord_class.lexordp xs ys" using lexordp_antisym by blast
      then show ?thesis unfolding e0 using gt by auto
    qed
  qed
qed

end
