(* ===== verification/Sds_Args.thy ===== *)
theory Sds_Args
  imports Sds_Text
begin

text \<open>
  Quoted strings: \<^verbatim>\<open>sdscatrepr\<close>, which prints a string between quotes, and \<^verbatim>\<open>sdssplitargs\<close>, which splits
  a line into arguments and undoes the quoting.
\<close>

abbreviation (input) QUOTE :: byte where "QUOTE \<equiv> 34"
abbreviation (input) SQUOTE :: byte where "SQUOTE \<equiv> 39"

definition isprint :: "byte \<Rightarrow> bool" where
  "isprint c \<longleftrightarrow> 32 \<le> c \<and> c \<le> 126"

definition isspace :: "byte \<Rightarrow> bool" where
  "isspace c \<longleftrightarrow> c = 32 \<or> 9 \<le> c \<and> c \<le> 13"

text \<open>A digit of the conversion \<^verbatim>\<open>%02x\<close>.\<close>

definition hex_char :: "nat \<Rightarrow> byte" where
  "hex_char k = (if k < 10 then of_nat (48 + k) else of_nat (87 + k))"

definition sdscatprintf :: "(nat \<Rightarrow> byte) \<Rightarrow> sds \<Rightarrow> byte list \<Rightarrow> byte list \<Rightarrow> sds option" where
  "sdscatprintf junk s fmt out = sdscatvprintf junk s fmt out"

definition repr_char :: "(nat \<Rightarrow> byte) \<Rightarrow> sds \<Rightarrow> byte \<Rightarrow> sds option" where
  "repr_char junk s c =
     (if c = BACKSLASH \<or> c = QUOTE then sdscatprintf junk s (bytes [CHR 0x5C, CHR ''%'', CHR ''c'']) [BACKSLASH, c]
      else if c = 10 then sdscatlen junk s [BACKSLASH, 110]
      else if c = 13 then sdscatlen junk s [BACKSLASH, 114]
      else if c = 9 then sdscatlen junk s [BACKSLASH, 116]
      else if c = 7 then sdscatlen junk s [BACKSLASH, 97]
      else if c = 8 then sdscatlen junk s [BACKSLASH, 98]
      else if isprint c then sdscatprintf junk s (bytes ''%c'') [c]
      else sdscatprintf junk s (bytes (CHR 0x5C # ''x%02x''))
             [BACKSLASH, 120, hex_char (unat c div 16), hex_char (unat c mod 16)])"

fun repr_loop :: "(nat \<Rightarrow> byte) \<Rightarrow> sds \<Rightarrow> byte list \<Rightarrow> sds option" where
  "repr_loop junk s [] = Some s"
| "repr_loop junk s (c # p) = do { s \<leftarrow> repr_char junk s c; repr_loop junk s p }"

definition sdscatrepr :: "(nat \<Rightarrow> byte) \<Rightarrow> sds \<Rightarrow> byte list \<Rightarrow> sds option" where
  "sdscatrepr junk s p =
     do { s \<leftarrow> sdscatlen junk s [QUOTE]; s \<leftarrow> repr_loop junk s p; sdscatlen junk s [QUOTE] }"

definition is_hex_digit :: "byte \<Rightarrow> bool" where
  "is_hex_digit c \<longleftrightarrow> 48 \<le> c \<and> c \<le> 57 \<or> 97 \<le> c \<and> c \<le> 102 \<or> 65 \<le> c \<and> c \<le> 70"

definition hex_digit_to_int :: "byte \<Rightarrow> nat" where
  "hex_digit_to_int c =
     (if 48 \<le> c \<and> c \<le> 57 then unat c - 48
      else if 97 \<le> c \<and> c \<le> 102 then unat c - 87
      else if 65 \<le> c \<and> c \<le> 70 then unat c - 55
      else 0)"

definition unescape :: "byte \<Rightarrow> byte" where
  "unescape c = (if c = 110 then 10 else if c = 114 then 13 else if c = 116 then 9
                 else if c = 98 then 8 else if c = 97 then 7 else c)"

text \<open>
  One round of the loop that reads a token, from the flags \<^verbatim>\<open>inq\<close> and \<^verbatim>\<open>insq\<close>: a jump to \<^verbatim>\<open>err\<close>, the end
  of the token, or the new flags and the bytes that are appended; with the number of bytes
  of the line that are used.
\<close>

datatype tok_step = Tok_err | Tok_done nat | Tok_next bool bool "byte list" nat

definition closing :: "byte list \<Rightarrow> tok_step" where
  "closing p = (if char_at p 1 \<noteq> 0 \<and> \<not> isspace (char_at p 1) then Tok_err else Tok_done 1)"

definition token_step :: "bool \<Rightarrow> bool \<Rightarrow> byte list \<Rightarrow> tok_step" where
  "token_step inq insq p =
     (let c = char_at p 0 in
      if inq then
        if c = BACKSLASH \<and> char_at p 1 = 120 \<and> is_hex_digit (char_at p 2) \<and> is_hex_digit (char_at p 3) then
          Tok_next inq insq [of_nat (hex_digit_to_int (char_at p 2) * 16 + hex_digit_to_int (char_at p 3))] 4
        else if c = BACKSLASH \<and> char_at p 1 \<noteq> 0 then Tok_next inq insq [unescape (char_at p 1)] 2
        else if c = QUOTE then closing p
        else if c = 0 then Tok_err
        else Tok_next inq insq [c] 1
      else if insq then
        if c = BACKSLASH \<and> char_at p 1 = SQUOTE then Tok_next inq insq [SQUOTE] 2
        else if c = SQUOTE then closing p
        else if c = 0 then Tok_err
        else Tok_next inq insq [c] 1
      else if c = 32 \<or> c = 10 \<or> c = 13 \<or> c = 9 then Tok_done 1
      else if c = 0 then Tok_done 0
      else if c = QUOTE then Tok_next True insq [] 1
      else if c = SQUOTE then Tok_next inq True [] 1
      else Tok_next inq insq [c] 1)"

lemma token_step_next: "token_step inq insq p = Tok_next a b bs k \<Longrightarrow> 0 < k \<and> p \<noteq> []"
  by (auto simp: token_step_def closing_def char_at_def Let_def split: if_splits)

lemma token_step_done: "token_step inq insq p = Tok_done k \<Longrightarrow> char_at p 0 \<noteq> 0 \<Longrightarrow> 0 < k \<and> p \<noteq> []"
  by (auto simp: token_step_def closing_def char_at_def Let_def split: if_splits)

text \<open>The token and the rest of the line; the inner \<open>None\<close> is the jump to \<^verbatim>\<open>err\<close>.\<close>

function split_token :: "(nat \<Rightarrow> byte) \<Rightarrow> bool \<Rightarrow> bool \<Rightarrow> sds \<Rightarrow> byte list \<Rightarrow> (sds \<times> byte list) option option" where
  "split_token junk inq insq current p =
     (case token_step inq insq p of
        Tok_err \<Rightarrow> Some None
      | Tok_done k \<Rightarrow> Some (Some (current, drop k p))
      | Tok_next inq insq bs k \<Rightarrow>
          do { current \<leftarrow> (if bs = [] then Some current else sdscatlen junk current bs);
               split_token junk inq insq current (drop k p) })"
  by pat_completeness auto
termination
proof (relation "measure (\<lambda>(junk, inq, insq, current, p). length p)", goal_cases)
  case (2 junk inq insq current p a b bs k x)
  then show ?case using token_step_next [of inq insq p a b bs k] by simp
qed simp

declare split_token.simps [simp del]

lemma split_token_length:
  "split_token junk inq insq current p = Some (Some (t, rest)) \<Longrightarrow>
     length rest \<le> length p \<and> (char_at p 0 \<noteq> 0 \<longrightarrow> length rest < length p)"
proof (induction junk inq insq current p rule: split_token.induct)
  case (1 junk inq insq current p)
  note eq = 1(2) [unfolded split_token.simps [of junk inq insq current p]]
  show ?case
  proof (cases "token_step inq insq p")
    case (Tok_next a b bs k)
    with eq obtain s where s: "(if bs = [] then Some current else sdscatlen junk current bs) = Some s"
        "split_token junk a b s (drop k p) = Some (Some (t, rest))" by auto
    have "length rest \<le> length p - k" using 1(1) [OF Tok_next s] by simp
    then show ?thesis using token_step_next [OF Tok_next] by (cases p) auto
  qed (use eq token_step_done [of inq insq p] in auto)
qed

function args_loop :: "(nat \<Rightarrow> byte) \<Rightarrow> byte list \<Rightarrow> sds list \<Rightarrow> sds list option option" where
  "args_loop junk p vector =
     (let p = dropWhile isspace p
      in if char_at p 0 \<noteq> 0 then
           do { current \<leftarrow> sdsempty junk;
                r \<leftarrow> split_token junk False False current p;
                case r of None \<Rightarrow> Some None | Some (current, p) \<Rightarrow> args_loop junk p (vector @ [current]) }
         else Some (Some vector))"
  by pat_completeness auto
termination
proof (relation "measure (\<lambda>(junk, p, vector). length p)", goal_cases)
  case (2 junk p vector q c r y t rest)
  have "length q \<le> length p" using 2(1) by (simp add: length_dropWhile_le)
  moreover have "length rest < length q" using 2 split_token_length [of junk False False c q t rest] by simp
  ultimately show ?case by simp
qed simp

declare args_loop.simps [simp del]

text \<open>\<open>Some None\<close> is the result \<^verbatim>\<open>NULL\<close>.\<close>

definition sdssplitargs :: "(nat \<Rightarrow> byte) \<Rightarrow> byte list \<Rightarrow> sds list option option" where
  "sdssplitargs junk line = args_loop junk (cstr line) []"

end
