(* ===== verification/Sds_Split.thy ===== *)
theory Sds_Split
  imports Sds_Ops Sds_Args
begin

text \<open>
  Splitting and joining: \<^verbatim>\<open>sdssplitlen\<close> against a reference, its inverse \<^verbatim>\<open>sdsjoinsds\<close>, and the
  parser of quoted arguments.
\<close>

subsection \<open>Joining\<close>

fun join_text :: "'a list \<Rightarrow> 'a list list \<Rightarrow> 'a list" where
  "join_text sep [] = []"
| "join_text sep [a] = a"
| "join_text sep (a # as) = a @ sep @ join_text sep as"

text \<open>
  A loop that appends the items of a list with a separator, for any way of appending an item
  and a separator that keeps the representation.
\<close>

locale appending =
  fixes cat :: "sds \<Rightarrow> 'a \<Rightarrow> sds option" and cat_sep :: "sds \<Rightarrow> sds option"
    and item :: "'a \<Rightarrow> byte list \<Rightarrow> bool" and sep :: "byte list"
  assumes cat: "sds_rep s xs \<Longrightarrow> item a bs \<Longrightarrow> length xs + length bs < 2 ^ 62 \<Longrightarrow> yields (cat s a) (xs @ bs)"
    and cat_sep: "sds_rep s xs \<Longrightarrow> length xs + length sep < 2 ^ 62 \<Longrightarrow> yields (cat_sep s) (xs @ sep)"
begin

lemma join_ok:
  "sds_rep s xs \<Longrightarrow> list_all2 item as bss \<Longrightarrow> length xs + length (join_text sep bss) < 2 ^ 62 \<Longrightarrow>
    yields (join_loop cat cat_sep s as) (xs @ join_text sep bss)"
proof (induction as arbitrary: s xs bss rule: induct_list012)
  case (2 a)
  then obtain bs where "bss = [bs]" "item a bs" by (auto simp: list_all2_Cons1)
  then show ?case using 2 cat [of s xs a bs] by simp
next
  case (3 a b as)
  then obtain bs cs css where b: "bss = bs # cs # css" "item a bs" "list_all2 item (b # as) (cs # css)"
    by (auto simp: list_all2_Cons1)
  have len: "length xs + length bs + length sep + length (join_text sep (cs # css)) < 2 ^ 62" using "3.prems"(3) b(1) by simp
  obtain s1 where s1: "cat s a = Some s1" "sds_rep s1 (xs @ bs)"
    using cat [OF "3.prems"(1) b(2)] len by (auto simp: yields_def)
  obtain s2 where s2: "cat_sep s1 = Some s2" "sds_rep s2 ((xs @ bs) @ sep)"
    using cat_sep [OF s1(2)] len by (auto simp: yields_def)
  have "yields (join_loop cat cat_sep s2 (b # as)) (((xs @ bs) @ sep) @ join_text sep (cs # css))"
    using len by (intro "3.IH"(2) [OF s2(2) b(3)]) simp
  then show ?case using s1(1) s2(1) b(1) by simp
qed simp

end

interpretation sds_items: appending "sdscatsds junk" "\<lambda>s. sdscatlen junk s sep" sds_rep sep
  by unfold_locales (auto intro: sdscatsds_ok sdscatlen_ok sds_rep_open)

interpretation c_items: appending "sdscat junk" "\<lambda>s. sdscat junk s sep" "\<lambda>t bs. bs = cstr t" "cstr sep"
  by unfold_locales (auto intro: sdscat_ok)

lemma sdsjoinsds_ok:
  assumes "list_all2 sds_rep as bss" and "length (join_text sep bss) < 2 ^ 62"
  shows "yields (sdsjoinsds junk as sep) (join_text sep bss)"
  unfolding sdsjoinsds_def using sds_items.join_ok [of _ "[]" as bss] assms
  by (intro yields_bind [OF sdsempty_ok]) simp

lemma sdsjoin_ok:
  assumes "length (join_text (cstr sep) (map cstr as)) < 2 ^ 62"
  shows "yields (sdsjoin junk as sep) (join_text (cstr sep) (map cstr as))"
  unfolding sdsjoin_def using c_items.join_ok [of _ "[]" as "map cstr as"] assms
  by (intro yields_bind [OF sdsempty_ok]) (simp add: list_all2_map2 list_all2_same)

subsection \<open>Splitting\<close>

text \<open>Split at the leftmost occurrences of the separator; \<open>acc\<close> is the token that is being read.\<close>

function split_text :: "byte list \<Rightarrow> byte list \<Rightarrow> byte list \<Rightarrow> byte list list" where
  "split_text sep acc xs =
     (if xs = [] \<or> sep = [] then [acc @ xs]
      else if take (length sep) xs = sep then acc # split_text sep [] (drop (length sep) xs)
      else split_text sep (acc @ [hd xs]) (tl xs))"
  by pat_completeness auto
termination by (relation "measure (\<lambda>(sep, acc, xs). length xs)") auto

declare split_text.simps [simp del]

lemma split_text_ne: "split_text sep acc xs \<noteq> []"
  by (induction sep acc xs rule: split_text.induct) (subst split_text.simps, simp)

lemma join_text_Cons: "as \<noteq> [] \<Longrightarrow> join_text sep (a # as) = a @ sep @ join_text sep as"
  by (cases as) simp_all

lemma join_split_text: "join_text sep (split_text sep acc xs) = acc @ xs"
proof (induction sep acc xs rule: split_text.induct)
  case (1 sep acc xs)
  show ?case
  proof (cases "xs = [] \<or> sep = []")
    case True
    then show ?thesis by (subst split_text.simps) simp
  next
    case False
    moreover have "take (length sep) xs = sep \<Longrightarrow> sep @ drop (length sep) xs = xs" by (metis append_take_drop_id)
    ultimately show ?thesis using 1 by (subst split_text.simps) (auto simp: join_text_Cons split_text_ne)
  qed
qed

lemma split_text_short:
  "length xs < length sep \<Longrightarrow> split_text sep acc xs = [acc @ xs]"
proof (induction xs arbitrary: acc)
  case (Cons x xs)
  then have "take (length sep) (x # xs) \<noteq> sep" by (metis length_take min_less_iff_conj nat_neq_iff)
  then show ?case using Cons by (subst split_text.simps) auto
qed (simp add: split_text.simps)

lemma memcmp_eq: "length a = length b \<Longrightarrow> memcmp a b = 0 \<longleftrightarrow> a = b"
  using memcmp_take [of "length a" a b] by simp

text \<open>The numbers of slots that the code reaches; the next doubling overflows.\<close>

definition slots_ok :: "nat \<Rightarrow> bool" where
  "slots_ok slots \<longleftrightarrow> (\<exists>k \<le> 28. slots = 5 * 2 ^ k)"

lemma more_slots_ok:
  assumes "slots_ok slots" and "n + 1 < 5 * 2 ^ 28" and "n < slots"
  shows "\<exists>slots'. more_slots slots n = Some slots' \<and> slots_ok slots' \<and> n + 1 < slots'"
proof (cases "slots < n + 2")
  case True
  obtain k where k: "k \<le> 28" "slots = 5 * 2 ^ k" using assms(1) by (auto simp: slots_ok_def)
  have "(2 :: nat) ^ k < 2 ^ 28" using True assms(2) k(2) by simp
  then have "k < 28" by (rule power_less_imp_less_exp [rotated]) simp
  then have "k + 1 \<le> 28" "slots * 2 = 5 * 2 ^ (k + 1)" using k(2) by simp_all
  then have "slots_ok (slots * 2)" unfolding slots_ok_def by blast
  moreover have "slots * 2 \<le> 5 * 2 ^ 28" using \<open>slots * 2 = 5 * 2 ^ (k + 1)\<close> \<open>k + 1 \<le> 28\<close> power_increasing [of "k + 1" 28 "2 :: nat"] by simp
  ultimately show ?thesis using True assms by (simp add: more_slots_def)
qed (use assms in \<open>simp add: more_slots_def\<close>)

lemma split_loop_ok:
  assumes "start \<le> j" and "j \<le> length s" and "list_all2 sds_rep tokens us" and "length tokens < slots"
    and "sep \<noteq> []" and "length s < 2 ^ 62" and "slots_ok slots"
    and "length us + length (split_text sep (take (j - start) (drop start s)) (drop j s)) < 5 * 2 ^ 28"
  shows "\<exists>start' slots' tokens' us'. split_loop junk s sep start j slots tokens = Some (start', slots', tokens') \<and>
    start' \<le> length s \<and> list_all2 sds_rep tokens' us' \<and> length tokens' < slots' \<and>
    us' @ [drop start' s] = us @ split_text sep (take (j - start) (drop start s)) (drop j s)"
  using assms
proof (induction "length s - j" arbitrary: start j slots tokens us rule: less_induct)
  case less
  let ?acc = "take (j - start) (drop start s)"
  have "length tokens + 1 < 5 * 2 ^ 28"
    using less.prems(3,8) split_text_ne [of sep ?acc "drop j s"] list_all2_lengthD [OF less.prems(3)]
    by (cases "split_text sep ?acc (drop j s)") simp_all
  then obtain slots2 where slots2: "more_slots slots (length tokens) = Some slots2" "slots_ok slots2" and sl: "length tokens + 1 < slots2"
    using more_slots_ok [OF less.prems(7) _ less.prems(4)] by blast
  have acc: "?acc @ drop j s = drop start s" using less.prems(1) by (metis append_take_drop_id drop_drop le_add_diff_inverse2)
  show ?case
  proof (cases "j + length sep \<le> length s")
    case False
    then have "split_text sep ?acc (drop j s) = [drop start s]"
      using split_text_short [of "drop j s" sep ?acc] acc less.prems(2) by simp
    moreover have "split_loop junk s sep start j slots tokens = Some (start, slots, tokens)"
      using False less.prems(5) by (simp add: split_loop.simps [of junk s sep start j])
    ultimately show ?thesis using less.prems by auto
  next
    case True
    have in_loop: "int j < int (length s) - (int (length sep) - 1)" using True less.prems(5) by linarith
    have jl: "j < length s" using True less.prems(5) by (cases sep) simp_all
    then have dj: "drop j s \<noteq> []" "hd (drop j s) = s ! j" "tl (drop j s) = drop (j + 1) s"
      by (simp_all add: hd_drop_conv_nth tl_drop drop_Suc)
    have test: "(length sep = 1 \<and> s ! j = sep ! 0 \<or> memcmp (take (length sep) (drop j s)) sep = 0) \<longleftrightarrow> take (length sep) (drop j s) = sep"
      using True dj memcmp_eq [of "take (length sep) (drop j s)" sep] jl by (cases sep) (auto simp: take_Suc)
    show ?thesis
    proof (cases "take (length sep) (drop j s) = sep")
      case eq: True
      have "j - start < 2 ^ 62" "j - start \<le> length s - start" using less.prems(2,6) by simp_all
      then obtain t where t: "sdsnewlen junk (Init (drop start s)) (j - start) = Some t" "sds_rep t ?acc"
        using sdsnewlen_ok [of "j - start" ?acc "Init (drop start s)" junk] by (auto simp: yields_def)
      have step: "split_loop junk s sep start j slots tokens = split_loop junk s sep (j + length sep) (j + length sep) slots2 (tokens @ [t])"
      proof -
        have je: "j + (length sep - 1) + 1 = j + length sep" using less.prems(5) by (cases sep) simp_all
        show ?thesis
          unfolding split_loop.simps [of junk s sep start j] test je
          using in_loop eq t(1) sl slots2(1) by (simp add: add_token_def)
      qed
      have st: "split_text sep ?acc (drop j s) = ?acc # split_text sep [] (drop (j + length sep) s)"
        using eq dj less.prems(5) by (subst split_text.simps) (simp add: add.commute)
      have "\<exists>start' slots' tokens' us'. split_loop junk s sep (j + length sep) (j + length sep) slots2 (tokens @ [t]) = Some (start', slots', tokens') \<and>
          start' \<le> length s \<and> list_all2 sds_rep tokens' us' \<and> length tokens' < slots' \<and>
          us' @ [drop start' s] = (us @ [?acc]) @ split_text sep (take ((j + length sep) - (j + length sep)) (drop (j + length sep) s)) (drop (j + length sep) s)"
        using True jl less.prems(3,5,6,8) t(2) sl slots2(2) st
        by (intro less.hyps) (auto intro: list_all2_appendI diff_less_mono2 simp flip: length_greater_0_conv)
      then show ?thesis using step st by simp
    next
      case ne: False
      have step: "split_loop junk s sep start j slots tokens = split_loop junk s sep start (j + 1) slots2 tokens"
        unfolding split_loop.simps [of junk s sep start j] test
        using in_loop ne slots2(1) by simp
      have "take (j + 1 - start) (drop start s) = ?acc @ [s ! j]"
        using less.prems(1) jl by (simp add: Suc_diff_le take_Suc_conv_app_nth)
      then have st: "split_text sep ?acc (drop j s) = split_text sep (take (j + 1 - start) (drop start s)) (drop (j + 1) s)"
        using ne dj less.prems(5) by (subst split_text.simps) simp
      moreover have "\<exists>start' slots' tokens' us'. split_loop junk s sep start (j + 1) slots2 tokens = Some (start', slots', tokens') \<and>
          start' \<le> length s \<and> list_all2 sds_rep tokens' us' \<and> length tokens' < slots' \<and>
          us' @ [drop start' s] = us @ split_text sep (take (j + 1 - start) (drop start s)) (drop (j + 1) s)"
        using jl less.prems sl slots2(2) st by (intro less.hyps) (auto simp: Suc_leI)
      ultimately show ?thesis using step by simp
    qed
  qed
qed

lemma sdssplitlen_ok:
  assumes "sep \<noteq> []" and "s \<noteq> []" and "length s < 2 ^ 62" and "length (split_text sep [] s) < 5 * 2 ^ 28"
  shows "\<exists>tokens. sdssplitlen junk s sep = Some (Some tokens) \<and> list_all2 sds_rep tokens (split_text sep [] s)"
proof -
  obtain start slots tokens us where l: "split_loop junk s sep 0 0 5 [] = Some (start, slots, tokens)" "start \<le> length s"
      "list_all2 sds_rep tokens us" "length tokens < slots" "us @ [drop start s] = split_text sep [] s"
    using split_loop_ok [of 0 0 s "[]" "[]" 5 sep junk] assms by (auto simp: slots_ok_def intro: exI [of _ 0])
  have "length s - start < 2 ^ 62" using assms(3) by simp
  then obtain t where t: "sdsnewlen junk (Init (drop start s)) (length s - start) = Some t" "sds_rep t (drop start s)"
    using sdsnewlen_ok [of "length s - start" "drop start s" "Init (drop start s)" junk] by (auto simp: yields_def)
  have "list_all2 sds_rep (tokens @ [t]) (us @ [drop start s])" using l(3) t(2) by (auto intro: list_all2_appendI)
  then show ?thesis using l t(1) assms by (cases sep) (auto simp: sdssplitlen_def add_token_def)
qed

end
