(* ===== verification/Sds_Quote.thy ===== *)
theory Sds_Quote
  imports Sds_Split
begin

text \<open>
  The quoting of \<^verbatim>\<open>sdscatrepr\<close> and the parser of \<^verbatim>\<open>sdssplitargs\<close>, as functions on lists of bytes, and that
  the parser undoes the quoting.
\<close>

subsection \<open>Quoting\<close>

definition repr_text :: "byte \<Rightarrow> byte list" where
  "repr_text c =
     (if c = BACKSLASH \<or> c = QUOTE then [BACKSLASH, c]
      else if c = 10 then [BACKSLASH, 110] else if c = 13 then [BACKSLASH, 114] else if c = 9 then [BACKSLASH, 116]
      else if c = 7 then [BACKSLASH, 97] else if c = 8 then [BACKSLASH, 98]
      else if isprint c then [c]
      else [BACKSLASH, 120, hex_char (unat c div 16), hex_char (unat c mod 16)])"

definition quote_text :: "byte list \<Rightarrow> byte list" where
  "quote_text p = QUOTE # concat (map repr_text p) @ [QUOTE]"

lemma hex_nonzero: "k < 16 \<Longrightarrow> hex_char k \<noteq> 0"
  by (auto simp: hex_char_def word_unat_eq_iff unat_of_nat simp del: of_nat_add)

lemma byte_halves: "unat (c :: byte) div 16 < 16" "unat c mod 16 < 16"
  using unsigned_less [of c, where ?'a = nat] by (simp_all add: less_mult_imp_div_less)

lemma cstr_nonzero: "0 \<notin> set xs \<Longrightarrow> cstr xs = xs"
  by (simp add: cstr_def takeWhile_eq_all_conv) metis

lemma repr_text_nonzero: "0 \<notin> set (repr_text c)"
  using hex_nonzero [OF byte_halves(1), of c] hex_nonzero [OF byte_halves(2), of c]
  by (auto simp: repr_text_def isprint_def)

lemma repr_char_ok:
  assumes "sds_rep s xs" and "length xs + length (repr_text c) < 2 ^ 62"
  shows "yields (repr_char junk s c) (xs @ repr_text c)"
  using assms sdscatvprintf_ok [OF assms(1), of "repr_text c" junk] cstr_nonzero [OF repr_text_nonzero [of c]]
    sdscatlen_ok [OF sds_rep_open [OF assms(1)], of "repr_text c" junk]
  by (auto simp: repr_char_def repr_text_def sdscatprintf_def)

lemma repr_loop_ok:
  "sds_rep s xs \<Longrightarrow> length xs + length (concat (map repr_text p)) < 2 ^ 62 \<Longrightarrow>
    yields (repr_loop junk s p) (xs @ concat (map repr_text p))"
proof (induction p arbitrary: s xs)
  case (Cons c p)
  have "yields (repr_loop junk s1 p) ((xs @ repr_text c) @ concat (map repr_text p))" if "sds_rep s1 (xs @ repr_text c)" for s1
    using Cons.prems(2) by (intro Cons.IH [OF that]) simp
  then show ?case using yields_bind [OF repr_char_ok [OF Cons.prems(1), of c junk]] Cons.prems(2) by simp
qed simp

lemma sdscatrepr_ok:
  assumes "sds_rep s xs" and "length xs + length (quote_text p) < 2 ^ 62"
  shows "yields (sdscatrepr junk s p) (xs @ quote_text p)"
proof -
  let ?r = "concat (map repr_text p)"
  have len: "length xs + length ?r + 2 < 2 ^ 62" using assms(2) by (simp add: quote_text_def)
  have "yields (sdscatlen junk s2 [QUOTE]) (xs @ quote_text p)" if "sds_rep s2 ((xs @ [QUOTE]) @ ?r)" for s2
    using sdscatlen_ok [OF sds_rep_open [OF that], of "[QUOTE]" junk] len by (simp add: quote_text_def)
  then have "yields (do { s \<leftarrow> repr_loop junk s1 p; sdscatlen junk s [QUOTE] }) (xs @ quote_text p)" if "sds_rep s1 (xs @ [QUOTE])" for s1
    using yields_bind [OF repr_loop_ok [OF that, of p junk]] len by simp
  then show ?thesis
    using yields_bind [OF sdscatlen_ok [OF sds_rep_open [OF assms(1)], of "[QUOTE]" junk]] len by (simp add: sdscatrepr_def)
qed

subsection \<open>Parsing\<close>

function token_text :: "bool \<Rightarrow> bool \<Rightarrow> byte list \<Rightarrow> byte list \<Rightarrow> (byte list \<times> byte list) option" where
  "token_text inq insq cur p =
     (case token_step inq insq p of
        Tok_err \<Rightarrow> None
      | Tok_done k \<Rightarrow> Some (cur, drop k p)
      | Tok_next inq insq bs k \<Rightarrow> token_text inq insq (cur @ bs) (drop k p))"
  by pat_completeness auto
termination
proof (relation "measure (\<lambda>(inq, insq, cur, p). length p)", goal_cases)
  case (2 inq insq cur p a b bs k)
  then show ?case using token_step_next [of inq insq p a b bs k] by simp
qed simp

declare token_text.simps [simp del]

text \<open>The string version computes the same token, unless it exceeds the memory.\<close>

lemma token_step_short: "token_step inq insq p = Tok_next a b bs k \<Longrightarrow> length bs \<le> 1"
  by (auto simp: token_step_def closing_def Let_def split: if_splits)

lemma split_token_ok:
  assumes "sds_rep s cur" and "length cur + length p < 2 ^ 62"
  shows "case token_text inq insq cur p of
      None \<Rightarrow> split_token junk inq insq s p = Some None
    | Some (t, rest) \<Rightarrow> \<exists>s'. split_token junk inq insq s p = Some (Some (s', rest)) \<and> sds_rep s' t"
  using assms
proof (induction inq insq cur p arbitrary: s rule: token_text.induct)
  case (1 inq insq cur p)
  show ?case
  proof (cases "token_step inq insq p")
    case (Tok_next a b bs k)
    have k: "0 < k" "p \<noteq> []" "length bs \<le> 1" using token_step_next [OF Tok_next] token_step_short [OF Tok_next] by simp_all
    have l: "length (cur @ bs) + length (drop k p) < 2 ^ 62" using k "1.prems"(2) by (cases p) auto
    obtain s1 where s1: "(if bs = [] then Some s else sdscatlen junk s bs) = Some s1" "sds_rep s1 (cur @ bs)"
    proof (cases "bs = []")
      case False
      have "yields (sdscatlen junk s bs) (cur @ bs)"
        using l by (intro sdscatlen_ok sds_rep_open "1.prems"(1)) simp
      then show ?thesis using that False by (auto simp: yields_def)
    qed (use that "1.prems"(1) in auto)
    have e1: "split_token junk inq insq s p = split_token junk a b s1 (drop k p)"
      unfolding split_token.simps [of junk inq insq s p] Tok_next tok_step.case s1(1) by simp
    have e2: "token_text inq insq cur p = token_text a b (cur @ bs) (drop k p)"
      using Tok_next by (simp add: token_text.simps [of inq insq cur p])
    show ?thesis unfolding e1 e2 by (rule "1.IH" [OF Tok_next s1(2) l])
  qed (use "1.prems"(1) in \<open>simp_all add: token_text.simps [of inq insq cur p] split_token.simps [of junk inq insq s p]\<close>)
qed

lemma token_text_length:
  "token_text inq insq cur p = Some (t, rest) \<Longrightarrow> length rest \<le> length p \<and> (char_at p 0 \<noteq> 0 \<longrightarrow> length rest < length p)"
proof (induction inq insq cur p rule: token_text.induct)
  case (1 inq insq cur p)
  note eq = 1(2) [unfolded token_text.simps [of inq insq cur p]]
  show ?case
  proof (cases "token_step inq insq p")
    case (Tok_next a b bs k)
    have "length rest \<le> length p - k" using 1(1) [OF Tok_next] eq Tok_next by simp
    then show ?thesis using token_step_next [OF Tok_next] by (cases p) auto
  qed (use eq token_step_done [of inq insq p] in auto)
qed

function args_text :: "byte list \<Rightarrow> byte list list option" where
  "args_text p =
     (let p = dropWhile isspace p
      in if char_at p 0 \<noteq> 0 then
           case token_text False False [] p of
             None \<Rightarrow> None
           | Some (t, rest) \<Rightarrow> map_option ((#) t) (args_text rest)
         else Some [])"
  by pat_completeness auto
termination
proof (relation "measure length", goal_cases)
  case (2 p q y t rest)
  have "length q \<le> length p" using 2(1) by (simp add: length_dropWhile_le)
  moreover have "length rest < length q" using 2 token_text_length [of False False "[]" q t rest] by simp
  ultimately show ?case by simp
qed simp

declare args_text.simps [simp del]

lemma args_loop_ok:
  assumes "length p < 2 ^ 62" and "list_all2 sds_rep vector vs"
  shows "case args_text p of
      None \<Rightarrow> args_loop junk p vector = Some None
    | Some ts \<Rightarrow> \<exists>toks. args_loop junk p vector = Some (Some toks) \<and> list_all2 sds_rep toks (vs @ ts)"
  using assms
proof (induction p arbitrary: vector vs rule: args_text.induct)
  case (1 p)
  define q where "q = dropWhile isspace p"
  have lq: "length q < 2 ^ 62" using "1.prems"(1) length_dropWhile_le [of isspace p] by (simp add: q_def)
  obtain e where e: "sdsempty junk = Some e" "sds_rep e []" using sdsempty_ok [of junk] by (auto simp: yields_def)
  note unf = args_text.simps [of p, folded q_def] args_loop.simps [of junk p vector, folded q_def]
  show ?case
  proof (cases "char_at q 0 \<noteq> 0")
    case False
    then show ?thesis using "1.prems"(2) by (simp add: unf q_def [symmetric])
  next
    case True
    show ?thesis
    proof (cases "token_text False False [] q")
      case None
      then have "split_token junk False False e q = Some None"
        using split_token_ok [OF e(2), of q junk False False] lq by simp
      then show ?thesis using True None e(1) by (simp add: unf q_def [symmetric])
    next
      case (Some r)
      obtain t rest where r: "r = (t, rest)" by (cases r)
      obtain s' where s': "split_token junk False False e q = Some (Some (s', rest))" "sds_rep s' t"
        using split_token_ok [OF e(2), of q junk False False] lq Some r by auto
      have "length rest < 2 ^ 62" using token_text_length [of False False "[]" q t rest] Some r lq by simp
      moreover have "list_all2 sds_rep (vector @ [s']) (vs @ [t])" using "1.prems"(2) s'(2) by (auto intro: list_all2_appendI)
      ultimately have "case args_text rest of None \<Rightarrow> args_loop junk rest (vector @ [s']) = Some None
        | Some ts \<Rightarrow> \<exists>toks. args_loop junk rest (vector @ [s']) = Some (Some toks) \<and> list_all2 sds_rep toks ((vs @ [t]) @ ts)"
        using "1.IH" [OF q_def True Some r [symmetric]] by blast
      then show ?thesis using True Some r e(1) s'(1) by (simp add: unf q_def [symmetric] split: option.splits)
    qed
  qed
qed

subsection \<open>The parser undoes the quoting\<close>

lemma hex_char_back: "k < 16 \<Longrightarrow> is_hex_digit (hex_char k) \<and> hex_digit_to_int (hex_char k) = k"
  by (auto simp: hex_char_def is_hex_digit_def hex_digit_to_int_def word_le_nat_alt unat_of_nat simp del: of_nat_add)

lemma token_step_repr: "token_step True False (repr_text c @ q) = Tok_next True False [c] (length (repr_text c))"
proof -
  have "of_nat (unat c div 16 * 16 + unat c mod 16) = c" by simp
  then show ?thesis
    using hex_char_back [OF byte_halves(1), of c] hex_char_back [OF byte_halves(2), of c]
    by (auto simp: repr_text_def token_step_def char_at_def unescape_def isprint_def Let_def simp del: of_nat_add of_nat_mult)
qed

lemma token_text_quote:
  assumes "rest = [] \<or> isspace (hd rest)"
  shows "token_text True False cur (concat (map repr_text xs) @ QUOTE # rest) = Some (cur @ xs, rest)"
proof (induction xs arbitrary: cur)
  case Nil
  have "token_step True False (QUOTE # rest) = Tok_done 1"
    using assms by (cases rest) (auto simp: token_step_def closing_def char_at_def isspace_def Let_def)
  then show ?case by (simp add: token_text.simps)
next
  case (Cons c xs)
  then show ?case
    using token_step_repr [of c "concat (map repr_text xs) @ QUOTE # rest"]
    by (simp add: token_text.simps [of True False cur "repr_text c @ _"])
qed

lemma args_text_quote:
  assumes "rest = [] \<or> isspace (hd rest)"
  shows "args_text (quote_text xs @ rest) = map_option ((#) xs) (args_text rest)"
proof -
  have "token_step False False (QUOTE # concat (map repr_text xs) @ QUOTE # rest) = Tok_next True False [] 1"
    by (simp add: token_step_def char_at_def Let_def)
  then have "token_text False False [] (quote_text xs @ rest) = Some (xs, rest)"
    using token_text_quote [OF assms, of "[]" xs] by (simp add: token_text.simps [of False False] quote_text_def)
  moreover have "dropWhile isspace (quote_text xs @ rest) = quote_text xs @ rest" "char_at (quote_text xs @ rest) 0 \<noteq> 0"
    by (simp_all add: quote_text_def isspace_def char_at_def)
  ultimately show ?thesis by (simp add: args_text.simps [of "quote_text xs @ rest"] Let_def)
qed

lemma args_text_space: "args_text (32 # p) = args_text p"
  by (subst (1 2) args_text.simps) (simp add: isspace_def)

lemma args_text_line: "args_text (join_text [32] (map quote_text ps)) = Some ps"
proof (induction ps rule: induct_list012)
  case 1
  show ?case by (simp add: args_text.simps char_at_def)
next
  case (2 x)
  show ?case using args_text_quote [of "[]" x] by (simp add: args_text.simps [of "[]"] char_at_def)
next
  case (3 x y zs)
  then show ?case
    using args_text_quote [of "32 # join_text [32] (map quote_text (y # zs))" x] by (simp add: args_text_space isspace_def)
qed

lemma quote_text_nonzero: "0 \<notin> set (quote_text xs)"
  using repr_text_nonzero by (auto simp: quote_text_def)

lemma line_nonzero: "0 \<notin> set (join_text [32] (map quote_text ps))"
  by (induction ps rule: induct_list012) (simp_all add: quote_text_nonzero)

text \<open>A line of quoted strings, separated by spaces.\<close>

definition quote_line :: "(nat \<Rightarrow> byte) \<Rightarrow> byte list list \<Rightarrow> sds option" where
  "quote_line junk ps =
     do { s \<leftarrow> sdsempty junk; join_loop (sdscatrepr junk) (\<lambda>s. sdscatlen junk s [32]) s ps }"

interpretation quoted_items: appending "sdscatrepr junk" "\<lambda>s. sdscatlen junk s [32]" "\<lambda>p bs. bs = quote_text p" "[32]"
  by unfold_locales (auto intro: sdscatrepr_ok sdscatlen_ok sds_rep_open)

lemma quote_line_ok:
  assumes "length (join_text [32] (map quote_text ps)) < 2 ^ 62"
  shows "yields (quote_line junk ps) (join_text [32] (map quote_text ps))"
  unfolding quote_line_def using quoted_items.join_ok [of _ "[]" ps "map quote_text ps"] assms
  by (intro yields_bind [OF sdsempty_ok]) (simp add: list_all2_map2 list_all2_same)

end
