(* ===== verification/Sds_Spec.thy ===== *)
theory Sds_Spec
  imports Refine Sds_Quote
begin

text \<open>
  The string operations as a component: any sequence of them behaves like the corresponding
  functions on lists of bytes. Then the properties of \<^verbatim>\<open>sds.c\<close>.
\<close>

datatype sds_op =
  Op_cat "byte list" | Op_cpy "byte list" | Op_clear | Op_growzero nat | Op_free_space | Op_trim "byte list"
| Op_range int int | Op_lower | Op_upper | Op_mapchars "byte list" "byte list" nat | Op_room nat | Op_read "byte list"
| Op_printf "byte list" "byte list" | Op_repr "byte list" | Op_updatelen

text \<open>
  \<open>Op_read\<close> is the idiom of the network code: make room, let \<^verbatim>\<open>read\<close> store bytes behind the string,
  and add them with \<^verbatim>\<open>sdsIncrLen\<close>.
\<close>

fun sds_step :: "(nat \<Rightarrow> byte) \<Rightarrow> sds_op \<Rightarrow> sds \<Rightarrow> sds option" where
  "sds_step junk (Op_cat t) s = sdscatlen junk s t"
| "sds_step junk (Op_cpy t) s = sdscpylen junk s t"
| "sds_step junk Op_clear s = sdsclear s"
| "sds_step junk (Op_growzero n) s = sdsgrowzero junk s n"
| "sds_step junk Op_free_space s = sdsRemoveFreeSpace junk s"
| "sds_step junk (Op_trim cset) s = sdstrim s cset"
| "sds_step junk (Op_range a e) s = sdsrange s a e"
| "sds_step junk Op_lower s = sdstolower s"
| "sds_step junk Op_upper s = sdstoupper s"
| "sds_step junk (Op_mapchars from to n) s = sdsmapchars s from to n"
| "sds_step junk (Op_room n) s = sdsMakeRoomFor junk s n"
| "sds_step junk (Op_read bs) s =
     do { s \<leftarrow> sdsMakeRoomFor junk s (length bs);
          s \<leftarrow> set_bytes s (sdslen s) bs;
          sdsIncrLen s (int (length bs)) }"
| "sds_step junk (Op_printf fmt out) s = sdscatvprintf junk s fmt out"
| "sds_step junk (Op_repr p) s = sdscatrepr junk s p"
| "sds_step junk Op_updatelen s = sdsupdatelen s"

fun sds_text :: "sds_op \<Rightarrow> byte list \<Rightarrow> byte list" where
  "sds_text (Op_cat t) xs = xs @ t"
| "sds_text (Op_cpy t) xs = t"
| "sds_text Op_clear xs = []"
| "sds_text (Op_growzero n) xs = xs @ replicate (n - length xs) 0"
| "sds_text Op_free_space xs = xs"
| "sds_text (Op_trim cset) xs = trim (strchr cset) xs"
| "sds_text (Op_range a e) xs = range_text xs a e"
| "sds_text Op_lower xs = map (\<lambda>c. word_of_int (tolower (sint c))) xs"
| "sds_text Op_upper xs = map (\<lambda>c. word_of_int (toupper (sint c))) xs"
| "sds_text (Op_mapchars from to n) xs = map (mapchar (take n from) (take n to)) xs"
| "sds_text (Op_room n) xs = xs"
| "sds_text (Op_read bs) xs = xs @ bs"
| "sds_text (Op_printf fmt out) xs = xs @ cstr out"
| "sds_text (Op_repr p) xs = xs @ quote_text p"
| "sds_text Op_updatelen xs = cstr xs"

text \<open>The strings stay below the limits of the machine.\<close>

fun sds_fits :: "sds_op \<Rightarrow> byte list \<Rightarrow> bool" where
  "sds_fits (Op_cpy t) xs \<longleftrightarrow> length xs + length t < 2 ^ 62"
| "sds_fits (Op_range a e) xs \<longleftrightarrow> is_int64 a \<and> is_int64 e \<and> length xs < 2 ^ 62"
| "sds_fits (Op_room n) xs \<longleftrightarrow> length xs + n < 2 ^ 62"
| "sds_fits (Op_read bs) xs \<longleftrightarrow> bs \<noteq> [] \<and> length xs + length bs < 2 ^ 31"
| "sds_fits x xs \<longleftrightarrow> length xs < 2 ^ 62 \<and> length (sds_text x xs) < 2 ^ 62"

lemma sds_read_ok:
  assumes rep: "sds_rep s xs" and bs: "bs \<noteq> []" "length xs + length bs < 2 ^ 31"
  shows "yields (sds_step junk (Op_read bs) s) (xs @ bs)"
proof -
  have core: "sds_core s (length xs)" "take (length xs) (sds_buf s) = xs" using sds_rep_open [OF rep] by (simp_all add: sds_open_def)
  have room: "length xs + length bs < 2 ^ 62" using bs(2) by simp
  obtain s1 where s1: "sdsMakeRoomFor junk s (length bs) = Some s1" "sds_core s1 (length xs)" "length xs + length bs \<le> sdsalloc s1"
      "take (length xs + 1) (sds_buf s1) = take (length xs + 1) (sds_buf s)"
    using sdsMakeRoomFor_ok [OF core(1) room] by blast
  have tk: "take (length xs) (sds_buf s1) = xs"
    using arg_cong [OF s1(4), of "take (length xs)"] core(2) by (simp add: min_def)
  have l1: "sdslen s1 = length xs" "sdsalloc s1 < length (sds_buf s1)" using s1(2) by (simp_all add: sds_core_def)
  let ?m = "xs @ bs @ drop (length xs + length bs) (sds_buf s1)"
  let ?s = "s1\<lparr>sds_buf := ?m\<rparr>"
  have st: "set_bytes s1 (length xs) bs = Some ?s" using set_bytes_ok [of "length xs" bs s1] s1(3) l1(2) tk by simp
  have "sds_open ?s xs" using s1(2,3) l1(2) by (auto simp: sds_open_def intro!: sds_core_upd)
  then have "yields (sdsIncrLen ?s (int (length bs))) (xs @ bs)"
    using bs s1(3) by (intro sdsIncrLen_ok) (simp_all, linarith)
  then show ?thesis using s1(1) st l1(1) by simp
qed

lemma sds_room_ok:
  assumes rep: "sds_rep s xs" and "length xs + n < 2 ^ 62"
  shows "yields (sdsMakeRoomFor junk s n) xs"
  using sdsMakeRoomFor_ok [of s "length xs" n junk] assms by (auto simp: sds_rep_def yields_def)

lemma sds_rep_cstr:
  assumes "sds_rep s xs"
  shows "cstr (sds_buf s) = cstr xs"
proof -
  have "sds_buf s = (xs @ [0]) @ drop (length xs + 1) (sds_buf s)" using assms by (metis append_take_drop_id sds_rep_def)
  then show ?thesis using cstr_zero [of xs "drop (length xs + 1) (sds_buf s)"] by simp
qed

lemma sdsupdatelen_ok:
  assumes rep: "sds_rep s xs"
  shows "yields (sdsupdatelen s) (cstr xs)"
proof -
  have b: "take (length xs + 1) (sds_buf s) = xs @ [0]" "sds_core s (length xs)" using rep by (simp_all add: sds_rep_def)
  then have e: "sds_buf s = (xs @ [0]) @ drop (length xs + 1) (sds_buf s)" by (metis append_take_drop_id)
  have c: "cstr (sds_buf s) = cstr xs" by (rule sds_rep_cstr [OF rep])
  let ?k = "length (cstr xs)"
  have k: "?k \<le> length xs" by (rule cstr_take(2))
  have "(xs @ [0]) ! ?k = 0" using nth_length_takeWhile [of "\<lambda>c. c \<noteq> 0" xs] k by (cases "?k = length xs") (auto simp: nth_append cstr_def)
  moreover have "take (?k + 1) (xs @ [0]) = take ?k (xs @ [0]) @ [(xs @ [0]) ! ?k]"
    using k take_Suc_conv_app_nth [of ?k "xs @ [0]"] by (simp del: take_append)
  moreover have "take ?k (xs @ [0]) = cstr xs" using k cstr_take(1) [of xs] by simp
  ultimately have "take (?k + 1) (xs @ [0]) = cstr xs @ [0]" by simp
  moreover have "take (?k + 1) (sds_buf s) = take (?k + 1) (xs @ [0])" using b(1) k by (metis add_le_mono1 min.absorb1 take_take)
  ultimately have "sds_rep ((sdssetlen s ?k)\<lparr>sds_buf := sds_buf s\<rparr>) (cstr xs)"
    using b(2) k by (intro sds_repI [of s "length xs"]) (simp_all add: sds_core_def)
  moreover have "0 \<in> set (sds_buf s)" using e by (metis Un_iff list.set_intros(1) set_append)
  moreover have "(sdssetlen s ?k)\<lparr>sds_buf := sds_buf s\<rparr> = sdssetlen s ?k" by (simp add: sdssetlen_def)
  ultimately show ?thesis using c by (simp add: sdsupdatelen_def)
qed

lemma sds_step_ok:
  assumes "sds_rep s xs" and "sds_fits x xs"
  shows "yields (sds_step junk x s) (sds_text x xs)"
  using assms
proof (cases x)
  case (Op_mapchars fr t n)
  then show ?thesis using assms map_bytes_ok by (simp add: sdsmapchars_def)
qed (auto simp: sdstolower_def sdstoupper_def
      intro: sdscatlen_ok sdscpylen_ok sdsclear_ok sdsgrowzero_ok sdsRemoveFreeSpace_ok sdstrim_ok sdsrange_ok map_bytes_ok
        sds_room_ok sdscatvprintf_ok sdscatrepr_ok sdsupdatelen_ok sds_rep_open sds_read_ok [simplified])

interpretation sds_ops: stepwise sds_rep "sds_step junk" sds_text sds_fits
  by unfold_locales (use sds_step_ok in \<open>auto simp: yields_def\<close>)

subsection \<open>Properties\<close>

text \<open>
  C16. Any sequence of string operations on a new string (appending, copying, clearing, growing,
  trimming, taking a range, changing case, formatting, quoting, shrinking, reserving room and
  reading into it) stays inside the allocation, passes every assertion, and gives the string
  that the same operations on lists of bytes give, with a zero byte behind it. The strings
  must stay below the limits of the machine.
\<close>

theorem sds_run_refines:
  assumes "run_pre sds_fits sds_text ops []"
  shows "\<exists>s0 s. sdsempty junk = Some s0 \<and> run_steps (sds_step junk) ops s0 = Some s \<and> sds_rep s (run_text sds_text ops [])"
proof -
  obtain s0 where "sdsempty junk = Some s0" "sds_rep s0 []" using sdsempty_ok [of junk] by (auto simp: yields_def)
  then show ?thesis using sds_ops.run_sim [OF _ assms, of s0 junk] by blast
qed

theorem sds_run_refines_witness:
  "\<exists>s0 s. sdsempty (\<lambda>_. 170) = Some s0 \<and>
    run_steps (sds_step (\<lambda>_. 170)) [Op_cat [65, 66, 67], Op_read [68], Op_range 1 (-1), Op_growzero 4, Op_trim [66]] s0 = Some s \<and>
    sds_rep s [67, 68]"
proof -
  let ?ops = "[Op_cat [65, 66, 67], Op_read [68], Op_range 1 (-1), Op_growzero 4, Op_trim [66]]"
  have "run_text sds_text ?ops [] = [67, 68]" "run_pre sds_fits sds_text ?ops []"
    by (simp_all add: range_text_def trim_def strchr_def cstr_def)
  then show ?thesis using sds_run_refines [of ?ops "\<lambda>_. 170"] by simp
qed

text \<open>
  C17. \<^verbatim>\<open>sdssplitargs\<close> undoes \<^verbatim>\<open>sdscatrepr\<close>: a line of quoted strings with spaces between them is split into
  exactly these strings, whatever bytes they have.
\<close>

theorem sdssplitargs_sdscatrepr:
  assumes "length (join_text [32] (map quote_text ps)) < 2 ^ 62"
  shows "\<exists>s line tokens. quote_line junk ps = Some s \<and> sds_rep s line \<and>
    sdssplitargs junk (sds_buf s) = Some (Some tokens) \<and> list_all2 sds_rep tokens ps"
proof -
  let ?l = "join_text [32] (map quote_text ps)"
  obtain s where s: "quote_line junk ps = Some s" "sds_rep s ?l" using quote_line_ok [OF assms, of junk] by (auto simp: yields_def)
  have "cstr (sds_buf s) = ?l"
    using sds_rep_cstr [OF s(2)] cstr_nonzero [OF line_nonzero [of ps]] by simp
  then show ?thesis using s args_loop_ok [of ?l "[]" "[]" junk] assms by (auto simp: sdssplitargs_def args_text_line)
qed

theorem sdssplitargs_sdscatrepr_witness:
  "\<exists>s line tokens. quote_line (\<lambda>_. 170) [[0, 34, 10], [200, 92]] = Some s \<and> sds_rep s line \<and>
    sdssplitargs (\<lambda>_. 170) (sds_buf s) = Some (Some tokens) \<and> list_all2 sds_rep tokens [[0, 34, 10], [200, 92]]"
  by (rule sdssplitargs_sdscatrepr) (simp add: quote_text_def repr_text_def isprint_def)

text \<open>
  C18. \<^verbatim>\<open>sdssplitlen\<close> cuts a string at the leftmost occurrences of the separator, within the array of
  tokens that it grows, and \<^verbatim>\<open>sdsjoinsds\<close> with the same separator gives the string back. The bound on the number of tokens is the one
  from which on the \<^verbatim>\<open>int\<close> number of slots may overflow.
\<close>

theorem sdssplitlen_sdsjoinsds:
  assumes "sep \<noteq> []" and "length sep < 2 ^ 31" and "s \<noteq> []" and "length s < 2 ^ 62" and "length (split_text sep [] s) < 5 * 2 ^ 28"
  shows "\<exists>tokens. sdssplitlen junk s sep = Some (Some tokens) \<and> list_all2 sds_rep tokens (split_text sep [] s) \<and>
    yields (sdsjoinsds junk tokens sep) s"
proof -
  obtain tokens where t: "sdssplitlen junk s sep = Some (Some tokens)" "list_all2 sds_rep tokens (split_text sep [] s)"
    using sdssplitlen_ok [OF assms(1,3-5)] by blast
  then show ?thesis using sdsjoinsds_ok [OF t(2), of sep junk] assms(4) by (auto simp: join_split_text)
qed

theorem sdssplitlen_sdsjoinsds_witness:
  "\<exists>tokens. sdssplitlen (\<lambda>_. 170) [65, 44, 44, 66, 44, 67] [44] = Some (Some tokens) \<and> yields (sdsjoinsds (\<lambda>_. 170) tokens [44]) [65, 44, 44, 66, 44, 67]"
  using sdssplitlen_sdsjoinsds [of "[44]" "[65, 44, 44, 66, 44, 67]" "\<lambda>_. 170"] by (auto simp: split_text.simps)

text \<open>
  C19. \<^verbatim>\<open>sdscatfmt\<close> appends the format with its conversions replaced by the arguments, integers in
  decimal, and stays inside the allocation while it grows the string.
\<close>

theorem sdscatfmt_appends:
  assumes "sds_rep s xs" and "fmt_text (cstr fmt) ap = Some out" and "\<forall>a \<in> set ap. arg_ok a" and "length xs + length out < 2 ^ 61"
  shows "yields (sdscatfmt junk s fmt ap) (xs @ out)"
  using assms by (rule sdscatfmt_ok)

theorem sdscatfmt_appends_witness:
  "\<exists>s. sdsempty (\<lambda>_. 170) = Some s \<and>
    yields (sdscatfmt (\<lambda>_. 170) s (bytes ''n=%I%%'') [Arg_longlong (-12)]) (bytes ''n=-12%'')"
proof -
  obtain s where s: "sdsempty (\<lambda>_. 170) = Some s" "sds_rep s []" using sdsempty_ok [of "\<lambda>_. 170"] by (auto simp: yields_def)
  have f: "fmt_text (cstr (bytes ''n=%I%%'')) [Arg_longlong (-12)] = Some (bytes ''n=-12%'')"
    by (simp add: bytes_def cstr_def arg_text_def int_dec_def nat_dec_step nat_dec_small digit_def)
  have "yields (sdscatfmt (\<lambda>_. 170) s (bytes ''n=%I%%'') [Arg_longlong (-12)]) ([] @ bytes ''n=-12%'')"
    by (rule sdscatfmt_appends [OF s(2) f]) (simp_all add: arg_ok_def bytes_def)
  then show ?thesis using s(1) by (simp only: append_Nil) blast
qed

text \<open>
  C20. \<^verbatim>\<open>sdscmp\<close> is the lexicographic order of the strings as sequences of unsigned bytes: negative
  below, zero exactly for equal strings, and a prefix comes first.
\<close>

theorem sdscmp_lexicographic:
  assumes "sds_rep s xs" and "sds_rep t ys"
  shows "\<exists>c. sdscmp s t = Some c \<and> (c < 0 \<longleftrightarrow> ord_class.lexordp xs ys) \<and> (c = 0 \<longleftrightarrow> xs = ys)"
  using assms by (rule sdscmp_ok)

theorem sdscmp_lexicographic_witness:
  "\<exists>s t c. sdsnewlen (\<lambda>_. 170) (Init [1, 200]) 2 = Some s \<and> sdsnewlen (\<lambda>_. 170) (Init [1, 3, 9]) 3 = Some t \<and> sdscmp s t = Some c \<and> \<not> c < 0"
proof -
  obtain s where s: "sdsnewlen (\<lambda>_. 170) (Init [1, 200]) 2 = Some s" "sds_rep s [1, 200]"
    using sdsnewlen_ok [of 2 "[1, 200]" "Init [1, 200]" "\<lambda>_. 170"] by (auto simp: yields_def)
  obtain t where t: "sdsnewlen (\<lambda>_. 170) (Init [1, 3, 9]) 3 = Some t" "sds_rep t [1, 3, 9]"
    using sdsnewlen_ok [of 3 "[1, 3, 9]" "Init [1, 3, 9]" "\<lambda>_. 170"] by (auto simp: yields_def)
  obtain c where c: "sdscmp s t = Some c" "c < 0 \<longleftrightarrow> ord_class.lexordp [1, 200] [1, 3, 9 :: byte]"
    using sdscmp_lexicographic [OF s(2) t(2)] by blast
  then have "\<not> c < 0" by (simp add: word_less_nat_alt)
  then show ?thesis using s(1) t(1) c(1) by blast
qed

end
