(* ===== verification/Adlist.thy ===== *)
theory Adlist
  imports Prelude
begin

text \<open>
  The doubly linked lists of \<^verbatim>\<open>adlist.c\<close>, on an explicit heap of nodes.

  A pointer is an address or \<open>None\<close> for \<^verbatim>\<open>NULL\<close>. The heap maps the addresses of the allocated nodes to
  their contents; reading or writing through \<^verbatim>\<open>NULL\<close> or to a node that is not allocated gives
  \<open>None\<close>. The address that \<^verbatim>\<open>zmalloc\<close> returns is a function \<open>alloc\<close> of the heap, a parameter of the
  operations that allocate. Calls of the \<^verbatim>\<open>free\<close> method of a list are returned as the list of the
  values it is called with.
\<close>

type_synonym ptr = "nat option"

record 'v listNode =
  ln_prev :: ptr
  ln_next :: ptr
  ln_value :: 'v

type_synonym 'v node_heap = "nat \<Rightarrow> 'v listNode option"

record 'v adlist =
  al_head :: ptr
  al_tail :: ptr
  al_dup :: "('v \<Rightarrow> 'v option) option"
  al_free :: bool
  al_match :: "('v \<Rightarrow> 'v \<Rightarrow> bool) option"
  al_len :: nat

record listIter =
  li_next :: ptr
  li_direction :: int

abbreviation (input) AL_START_HEAD :: int where "AL_START_HEAD \<equiv> 0"
abbreviation (input) AL_START_TAIL :: int where "AL_START_TAIL \<equiv> 1"

subsection \<open>Access to nodes\<close>

definition node_at :: "'v node_heap \<Rightarrow> ptr \<Rightarrow> 'v listNode option" where
  "node_at h p = Option.bind p h"

definition upd_node :: "'v node_heap \<Rightarrow> ptr \<Rightarrow> ('v listNode \<Rightarrow> 'v listNode) \<Rightarrow> 'v node_heap option" where
  "upd_node h p f = do { a \<leftarrow> p; n \<leftarrow> h a; Some (h(a \<mapsto> f n)) }"

definition set_prev :: "'v node_heap \<Rightarrow> ptr \<Rightarrow> ptr \<Rightarrow> 'v node_heap option" where
  "set_prev h p q = upd_node h p (\<lambda>n. n\<lparr>ln_prev := q\<rparr>)"

definition set_next :: "'v node_heap \<Rightarrow> ptr \<Rightarrow> ptr \<Rightarrow> 'v node_heap option" where
  "set_next h p q = upd_node h p (\<lambda>n. n\<lparr>ln_next := q\<rparr>)"

definition zfree_node :: "'v node_heap \<Rightarrow> ptr \<Rightarrow> 'v node_heap option" where
  "zfree_node h p = do { a \<leftarrow> p; n \<leftarrow> h a; Some (h(a := None)) }"

subsection \<open>Operations\<close>

definition listCreate :: "'v adlist" where
  "listCreate = \<lparr>al_head = None, al_tail = None, al_dup = None, al_free = False, al_match = None, al_len = 0\<rparr>"

definition freed_value :: "'v adlist \<Rightarrow> 'v \<Rightarrow> 'v list" where
  "freed_value l v = (if al_free l then [v] else [])"

primrec listEmpty_loop :: "'v adlist \<Rightarrow> nat \<Rightarrow> 'v node_heap \<Rightarrow> ptr \<Rightarrow> ('v node_heap \<times> 'v list) option" where
  "listEmpty_loop l 0 h current = Some (h, [])"
| "listEmpty_loop l (Suc len) h current =
     do { n \<leftarrow> node_at h current;
          h \<leftarrow> zfree_node h current;
          (h, freed) \<leftarrow> listEmpty_loop l len h (ln_next n);
          Some (h, freed_value l (ln_value n) @ freed) }"

definition listEmpty :: "'v node_heap \<Rightarrow> 'v adlist \<Rightarrow> ('v node_heap \<times> 'v adlist \<times> 'v list) option" where
  "listEmpty h l =
     do { (h, freed) \<leftarrow> listEmpty_loop l (al_len l) h (al_head l);
          Some (h, l\<lparr>al_head := None, al_tail := None, al_len := 0\<rparr>, freed) }"

definition listRelease :: "'v node_heap \<Rightarrow> 'v adlist \<Rightarrow> ('v node_heap \<times> 'v list) option" where
  "listRelease h l = do { (h, l, freed) \<leftarrow> listEmpty h l; Some (h, freed) }"

definition listAddNodeHead ::
  "('v node_heap \<Rightarrow> nat) \<Rightarrow> 'v node_heap \<Rightarrow> 'v adlist \<Rightarrow> 'v \<Rightarrow> ('v node_heap \<times> 'v adlist) option" where
  "listAddNodeHead alloc h l v =
     (let a = alloc h
      in do {
        (h, l) \<leftarrow>
          (if al_len l = 0 then
             Some (h(a \<mapsto> \<lparr>ln_prev = None, ln_next = None, ln_value = v\<rparr>), l\<lparr>al_head := Some a, al_tail := Some a\<rparr>)
           else
             do { let h = h(a \<mapsto> \<lparr>ln_prev = None, ln_next = al_head l, ln_value = v\<rparr>);
                  h \<leftarrow> set_prev h (al_head l) (Some a);
                  Some (h, l\<lparr>al_head := Some a\<rparr>) });
        Some (h, l\<lparr>al_len := al_len l + 1\<rparr>) })"

definition listAddNodeTail ::
  "('v node_heap \<Rightarrow> nat) \<Rightarrow> 'v node_heap \<Rightarrow> 'v adlist \<Rightarrow> 'v \<Rightarrow> ('v node_heap \<times> 'v adlist) option" where
  "listAddNodeTail alloc h l v =
     (let a = alloc h
      in do {
        (h, l) \<leftarrow>
          (if al_len l = 0 then
             Some (h(a \<mapsto> \<lparr>ln_prev = None, ln_next = None, ln_value = v\<rparr>), l\<lparr>al_head := Some a, al_tail := Some a\<rparr>)
           else
             do { let h = h(a \<mapsto> \<lparr>ln_prev = al_tail l, ln_next = None, ln_value = v\<rparr>);
                  h \<leftarrow> set_next h (al_tail l) (Some a);
                  Some (h, l\<lparr>al_tail := Some a\<rparr>) });
        Some (h, l\<lparr>al_len := al_len l + 1\<rparr>) })"

definition listInsertNode ::
  "('v node_heap \<Rightarrow> nat) \<Rightarrow> 'v node_heap \<Rightarrow> 'v adlist \<Rightarrow> ptr \<Rightarrow> 'v \<Rightarrow> bool \<Rightarrow> ('v node_heap \<times> 'v adlist) option" where
  "listInsertNode alloc h l old_node v after =
     (let a = alloc h
      in do {
        n \<leftarrow> node_at h old_node;
        let p = (if after then old_node else ln_prev n);
        let q = (if after then ln_next n else old_node);
        let l = (if after then if al_tail l = old_node then l\<lparr>al_tail := Some a\<rparr> else l
                 else if al_head l = old_node then l\<lparr>al_head := Some a\<rparr> else l);
        let h = h(a \<mapsto> \<lparr>ln_prev = p, ln_next = q, ln_value = v\<rparr>);
        h \<leftarrow> (if p \<noteq> None then set_next h p (Some a) else Some h);
        h \<leftarrow> (if q \<noteq> None then set_prev h q (Some a) else Some h);
        Some (h, l\<lparr>al_len := al_len l + 1\<rparr>) })"

definition listDelNode :: "'v node_heap \<Rightarrow> 'v adlist \<Rightarrow> ptr \<Rightarrow> ('v node_heap \<times> 'v adlist \<times> 'v list) option" where
  "listDelNode h l node =
     do { n \<leftarrow> node_at h node;
          (h, l) \<leftarrow> (if ln_prev n \<noteq> None then do { h \<leftarrow> set_next h (ln_prev n) (ln_next n); Some (h, l) }
                     else Some (h, l\<lparr>al_head := ln_next n\<rparr>));
          (h, l) \<leftarrow> (if ln_next n \<noteq> None then do { h \<leftarrow> set_prev h (ln_next n) (ln_prev n); Some (h, l) }
                     else Some (h, l\<lparr>al_tail := ln_prev n\<rparr>));
          h \<leftarrow> zfree_node h node;
          Some (h, l\<lparr>al_len := al_len l - 1\<rparr>, freed_value l (ln_value n)) }"

definition listGetIterator :: "'v adlist \<Rightarrow> int \<Rightarrow> listIter" where
  "listGetIterator l direction =
     \<lparr>li_next = (if direction = AL_START_HEAD then al_head l else al_tail l), li_direction = direction\<rparr>"

definition listRewind :: "'v adlist \<Rightarrow> listIter" where
  "listRewind l = \<lparr>li_next = al_head l, li_direction = AL_START_HEAD\<rparr>"

definition listRewindTail :: "'v adlist \<Rightarrow> listIter" where
  "listRewindTail l = \<lparr>li_next = al_tail l, li_direction = AL_START_TAIL\<rparr>"

text \<open>The node that is returned, and the iterator behind it.\<close>

definition listNext :: "'v node_heap \<Rightarrow> listIter \<Rightarrow> (ptr \<times> listIter) option" where
  "listNext h iter =
     (if li_next iter = None then Some (None, iter)
      else do { n \<leftarrow> node_at h (li_next iter);
                Some (li_next iter,
                      iter\<lparr>li_next := if li_direction iter = AL_START_HEAD then ln_next n else ln_prev n\<rparr>) })"

text \<open>
  The loops over an iterator do not end on a list that is not well formed, so they are partial.
  The inner option of \<open>listDup\<close> is the result: \<open>None\<close> is \<^verbatim>\<open>NULL\<close>.
\<close>

partial_function (option) listDup_loop ::
  "('v node_heap \<Rightarrow> nat) \<Rightarrow> 'v node_heap \<Rightarrow> listIter \<Rightarrow> 'v adlist \<Rightarrow> ('v node_heap \<times> 'v adlist option \<times> 'v list) option" where
  "listDup_loop alloc h iter cpy =
     do { (node, iter) \<leftarrow> listNext h iter;
          if node = None then Some (h, Some cpy, [])
          else do {
            n \<leftarrow> node_at h node;
            case (case al_dup cpy of None \<Rightarrow> Some (ln_value n) | Some dup \<Rightarrow> dup (ln_value n)) of
              None \<Rightarrow> do { (h, freed) \<leftarrow> listRelease h cpy; Some (h, None, freed) }
            | Some v \<Rightarrow> do { (h, cpy) \<leftarrow> listAddNodeTail alloc h cpy v; listDup_loop alloc h iter cpy } } }"

definition listDup ::
  "('v node_heap \<Rightarrow> nat) \<Rightarrow> 'v node_heap \<Rightarrow> 'v adlist \<Rightarrow> ('v node_heap \<times> 'v adlist option \<times> 'v list) option" where
  "listDup alloc h orig =
     (let cpy = listCreate\<lparr>al_dup := al_dup orig, al_free := al_free orig, al_match := al_match orig\<rparr>
      in listDup_loop alloc h (listRewind orig) cpy)"

partial_function (option) listSearchKey_loop :: "'v node_heap \<Rightarrow> 'v adlist \<Rightarrow> 'v \<Rightarrow> listIter \<Rightarrow> ptr option" where
  "listSearchKey_loop h l key iter =
     do { (node, iter) \<leftarrow> listNext h iter;
          if node = None then Some None
          else do {
            n \<leftarrow> node_at h node;
            if (case al_match l of None \<Rightarrow> key = ln_value n | Some m \<Rightarrow> m (ln_value n) key) then Some node
            else listSearchKey_loop h l key iter } }"

definition listSearchKey :: "'v node_heap \<Rightarrow> 'v adlist \<Rightarrow> 'v \<Rightarrow> ptr option" where
  "listSearchKey h l key = listSearchKey_loop h l key (listRewind l)"

declare listDup_loop.simps [code] listSearchKey_loop.simps [code]

primrec index_loop :: "('v listNode \<Rightarrow> ptr) \<Rightarrow> 'v node_heap \<Rightarrow> nat \<Rightarrow> ptr \<Rightarrow> ptr option" where
  "index_loop nx h 0 n = Some n"
| "index_loop nx h (Suc index) n =
     (if n = None then Some n else do { nd \<leftarrow> node_at h n; index_loop nx h index (nx nd) })"

text \<open>The index is a \<^verbatim>\<open>long\<close>; for the least one the code wraps around twice, to the value that is written here.\<close>

definition listIndex :: "'v node_heap \<Rightarrow> 'v adlist \<Rightarrow> int \<Rightarrow> ptr option" where
  "listIndex h l index =
     (if index < 0 then index_loop ln_prev h (nat (- index - 1)) (al_tail l)
      else index_loop ln_next h (nat index) (al_head l))"

definition listRotate :: "'v node_heap \<Rightarrow> 'v adlist \<Rightarrow> ('v node_heap \<times> 'v adlist) option" where
  "listRotate h l =
     (let tail = al_tail l
      in if al_len l \<le> 1 then Some (h, l)
         else do {
           n \<leftarrow> node_at h tail;
           let l = l\<lparr>al_tail := ln_prev n\<rparr>;
           h \<leftarrow> set_next h (al_tail l) None;
           h \<leftarrow> set_prev h tail None;
           h \<leftarrow> set_next h tail (al_head l);
           h \<leftarrow> set_prev h (al_head l) tail;
           Some (h, l\<lparr>al_head := tail\<rparr>) })"

definition listJoin :: "'v node_heap \<Rightarrow> 'v adlist \<Rightarrow> 'v adlist \<Rightarrow> ('v node_heap \<times> 'v adlist \<times> 'v adlist) option" where
  "listJoin h l q =
     do { h \<leftarrow> (if al_head q \<noteq> None then set_prev h (al_head q) (al_tail l) else Some h);
          (h, l) \<leftarrow> (if al_tail l \<noteq> None then do { h \<leftarrow> set_next h (al_tail l) (al_head q); Some (h, l) }
                     else Some (h, l\<lparr>al_head := al_head q\<rparr>));
          let l = (if al_tail q \<noteq> None then l\<lparr>al_tail := al_tail q\<rparr> else l);
          Some (h, l\<lparr>al_len := al_len l + al_len q\<rparr>, q\<lparr>al_head := None, al_tail := None, al_len := 0\<rparr>) }"

end
