(* ===== verification/Adlist_Rep.thy ===== *)
theory Adlist_Rep
  imports Adlist Refine
begin

text \<open>
  What a linked list represents: a chain of distinct nodes whose pointers agree in both directions.
\<close>

subsection \<open>Chains\<close>

definition firstp :: "nat list \<Rightarrow> ptr \<Rightarrow> ptr" where
  "firstp as q = (case as of [] \<Rightarrow> q | a # _ \<Rightarrow> Some a)"

definition lastp :: "ptr \<Rightarrow> nat list \<Rightarrow> ptr" where
  "lastp p as = (if as = [] then p else Some (last as))"

lemma firstp_simps [simp]: "firstp [] q = q" "firstp (a # as) q = Some a" "firstp (as @ bs) q = firstp as (firstp bs q)"
  by (auto simp: firstp_def split: list.split)

lemma lastp_simps [simp]: "lastp p [] = p" "lastp p (as @ [a]) = Some a" "lastp p (a # as) = lastp (Some a) as"
  "lastp p (as @ bs) = lastp (lastp p as) bs"
  by (auto simp: lastp_def)

text \<open>The nodes \<open>as\<close> with the values \<open>vs\<close>, between the pointers \<open>p\<close> and \<open>q\<close>.\<close>

fun chain :: "'v node_heap \<Rightarrow> ptr \<Rightarrow> nat list \<Rightarrow> 'v list \<Rightarrow> ptr \<Rightarrow> bool" where
  "chain h p [] [] q \<longleftrightarrow> True"
| "chain h p (a # as) (v # vs) q \<longleftrightarrow>
     h a = Some \<lparr>ln_prev = p, ln_next = firstp as q, ln_value = v\<rparr> \<and> chain h (Some a) as vs q"
| "chain h p _ _ q \<longleftrightarrow> False"

lemma chain_length: "chain h p as vs q \<Longrightarrow> length as = length vs"
  by (induction h p as vs q rule: chain.induct) auto

lemma chain_append:
  "length as = length vs \<Longrightarrow>
    chain h p (as @ bs) (vs @ ws) q \<longleftrightarrow> chain h p as vs (firstp bs q) \<and> chain h (lastp p as) bs ws q"
  by (induction as vs arbitrary: p rule: list_induct2) auto

lemma chain_frame: "a \<notin> set as \<Longrightarrow> chain (h(a := x)) p as vs q = chain h p as vs q"
  by (induction h p as vs q rule: chain.induct) auto

lemma chain_mem: "chain h p as vs q \<Longrightarrow> a \<in> set as \<Longrightarrow> h a \<noteq> None"
  by (induction h p as vs q rule: chain.induct) auto

text \<open>Redirecting the outer pointers of a chain.\<close>

lemma chain_set_next:
  assumes "chain h p as vs q" and "distinct as" and "as \<noteq> []"
  shows "\<exists>h'. set_next h (lastp p as) q' = Some h' \<and> chain h' p as vs q' \<and> (\<forall>b. b \<notin> set as \<longrightarrow> h' b = h b)"
proof -
  obtain bs a where as: "as = bs @ [a]" using assms(3) by (cases as rule: rev_cases) auto
  obtain ws v where vs: "vs = ws @ [v]" "length ws = length bs"
    using chain_length [OF assms(1)] as by (cases vs rule: rev_cases) auto
  have c: "chain h p bs ws (Some a)" "h a = Some \<lparr>ln_prev = lastp p bs, ln_next = q, ln_value = v\<rparr>"
    using assms(1) as vs by (simp_all add: chain_append)
  let ?h = "h(a \<mapsto> \<lparr>ln_prev = lastp p bs, ln_next = q', ln_value = v\<rparr>)"
  have "set_next h (lastp p as) q' = Some ?h" using c(2) as by (simp add: set_next_def upd_node_def)
  moreover have "chain ?h p as vs q'" using c assms(2) as vs by (simp add: chain_append chain_frame)
  ultimately show ?thesis using as by auto
qed

lemma chain_set_prev:
  assumes "chain h p as vs q" and "distinct as" and "as \<noteq> []"
  shows "\<exists>h'. set_prev h (firstp as q) p' = Some h' \<and> chain h' p' as vs q \<and> (\<forall>b. b \<notin> set as \<longrightarrow> h' b = h b)"
proof -
  obtain a bs where as: "as = a # bs" using assms(3) by (cases as) auto
  obtain v ws where vs: "vs = v # ws" using chain_length [OF assms(1)] as by (cases vs) auto
  let ?h = "h(a \<mapsto> \<lparr>ln_prev = p', ln_next = firstp bs q, ln_value = v\<rparr>)"
  have "set_prev h (firstp as q) p' = Some ?h" using assms(1) as vs by (simp add: set_prev_def upd_node_def)
  moreover have "chain ?h p' as vs q" using assms(1,2) as vs by (simp add: chain_frame)
  ultimately show ?thesis using as by auto
qed

lemma chain_cong: "(\<And>a. a \<in> set as \<Longrightarrow> h' a = h a) \<Longrightarrow> chain h' p as vs q = chain h p as vs q"
  by (induction h p as vs q rule: chain.induct) auto

subsection \<open>Lists\<close>

definition list_at :: "'v node_heap \<Rightarrow> 'v adlist \<Rightarrow> nat list \<Rightarrow> 'v list \<Rightarrow> bool" where
  "list_at h l as vs \<longleftrightarrow> distinct as \<and> chain h None as vs None \<and>
     al_head l = firstp as None \<and> al_tail l = lastp None as \<and> al_len l = length as"

lemma list_atD:
  assumes "list_at h l as vs"
  shows "distinct as" "chain h None as vs None" "al_head l = firstp as None" "al_tail l = lastp None as" "al_len l = length as"
    "length vs = length as"
  using assms chain_length [of h None as vs None] by (simp_all add: list_at_def)

lemma list_at_frame: "list_at h l as vs \<Longrightarrow> (\<And>a. a \<in> set as \<Longrightarrow> h' a = h a) \<Longrightarrow> list_at h' l as vs"
  unfolding list_at_def using chain_cong [of as h' h None vs None] by blast

lemma listCreate_at: "list_at h listCreate [] []"
  by (simp add: list_at_def listCreate_def)

lemma listAddNodeHead_at:
  assumes l: "list_at h l as vs" and new: "h (alloc h) = None"
  shows "\<exists>h' l'. listAddNodeHead alloc h l v = Some (h', l') \<and> list_at h' l' (alloc h # as) (v # vs) \<and>
    (\<forall>b. b \<notin> set (alloc h # as) \<longrightarrow> h' b = h b)"
proof -
  note d = list_atD [OF l]
  let ?a = "alloc h"
  have na: "?a \<notin> set as" using chain_mem [OF d(2), of ?a] new by auto
  show ?thesis
  proof (cases "as = []")
    case True
    then have "vs = []" using d(6) by simp
    then show ?thesis using True d by (auto simp: listAddNodeHead_def list_at_def Let_def)
  next
    case False
    let ?h = "h(?a \<mapsto> \<lparr>ln_prev = None, ln_next = al_head l, ln_value = v\<rparr>)"
    have "chain ?h None as vs None" using d(2) na by (simp add: chain_frame)
    then obtain h' where h': "set_prev ?h (firstp as None) (Some ?a) = Some h'" "chain h' (Some ?a) as vs None"
        "\<forall>b. b \<notin> set as \<longrightarrow> h' b = ?h b"
      using chain_set_prev [of ?h None as vs None "Some ?a"] d(1) False by blast
    have "h' ?a = ?h ?a" using h'(3) na by blast
    then have "list_at h' (l\<lparr>al_head := Some ?a, al_len := al_len l + 1\<rparr>) (?a # as) (v # vs)"
      using h'(2) d na False by (simp add: list_at_def lastp_def)
    moreover have "\<forall>b. b \<notin> set (?a # as) \<longrightarrow> h' b = h b" using h'(3) by simp
    ultimately show ?thesis using h'(1) d False by (auto simp: listAddNodeHead_def Let_def)
  qed
qed

lemma listAddNodeTail_at:
  assumes l: "list_at h l as vs" and new: "h (alloc h) = None"
  shows "\<exists>h' l'. listAddNodeTail alloc h l v = Some (h', l') \<and> list_at h' l' (as @ [alloc h]) (vs @ [v]) \<and>
    (\<forall>b. b \<notin> set (alloc h # as) \<longrightarrow> h' b = h b) \<and> al_dup l' = al_dup l \<and> al_free l' = al_free l"
proof -
  note d = list_atD [OF l]
  let ?a = "alloc h"
  have na: "?a \<notin> set as" using chain_mem [OF d(2), of ?a] new by auto
  show ?thesis
  proof (cases "as = []")
    case True
    then have "vs = []" using d(6) by simp
    then show ?thesis using True d by (auto simp: listAddNodeTail_def list_at_def Let_def)
  next
    case False
    let ?h = "h(?a \<mapsto> \<lparr>ln_prev = al_tail l, ln_next = None, ln_value = v\<rparr>)"
    have "chain ?h None as vs None" using d(2) na by (simp add: chain_frame)
    then obtain h' where h': "set_next ?h (lastp None as) (Some ?a) = Some h'" "chain h' None as vs (Some ?a)"
        "\<forall>b. b \<notin> set as \<longrightarrow> h' b = ?h b"
      using chain_set_next [of ?h None as vs None "Some ?a"] d(1) False by blast
    have "h' ?a = ?h ?a" using h'(3) na by blast
    moreover have "firstp as (Some ?a) = firstp as None" using False by (cases as) simp_all
    ultimately have "list_at h' (l\<lparr>al_tail := Some ?a, al_len := al_len l + 1\<rparr>) (as @ [?a]) (vs @ [v])"
      using h'(2) d na by (simp add: list_at_def chain_append)
    moreover have "\<forall>b. b \<notin> set (?a # as) \<longrightarrow> h' b = h b" using h'(3) by simp
    ultimately show ?thesis using h'(1) d False by (auto simp: listAddNodeTail_def Let_def)
  qed
qed

text \<open>An inner node and its neighbours.\<close>

lemma chain_split:
  assumes "chain h p (as @ a # bs) (vs @ v # ws) q" and "length as = length vs"
  shows "chain h p as vs (Some a)" "h a = Some \<lparr>ln_prev = lastp p as, ln_next = firstp bs q, ln_value = v\<rparr>" "chain h (Some a) bs ws q"
  using assms by (simp_all add: chain_append)

lemma set_next_last:
  assumes "chain h None as vs q" and "distinct as"
  shows "\<exists>h'. (if lastp None as \<noteq> None then set_next h (lastp None as) q' else Some h) = Some h' \<and> chain h' None as vs q' \<and>
    (\<forall>b. b \<notin> set as \<longrightarrow> h' b = h b)"
  using chain_set_next [OF assms, of q'] assms(1) by (cases as; cases vs) (auto simp: lastp_def split: if_splits)

lemma set_prev_first:
  assumes "chain h p as vs None" and "distinct as"
  shows "\<exists>h'. (if firstp as None \<noteq> None then set_prev h (firstp as None) p' else Some h) = Some h' \<and> chain h' p' as vs None \<and>
    (\<forall>b. b \<notin> set as \<longrightarrow> h' b = h b)"
  using chain_set_prev [OF assms, of p'] assms(1) by (cases as; cases vs) auto

lemma link_node:
  assumes "chain h None as vs q" and "chain h p bs ws None" and "distinct (as @ a # bs)"
    and "h a = Some \<lparr>ln_prev = lastp None as, ln_next = firstp bs None, ln_value = v\<rparr>" and "length as = length vs"
  shows "\<exists>h1 h2. (if lastp None as \<noteq> None then set_next h (lastp None as) (Some a) else Some h) = Some h1 \<and>
    (if firstp bs None \<noteq> None then set_prev h1 (firstp bs None) (Some a) else Some h1) = Some h2 \<and>
    chain h2 None (as @ a # bs) (vs @ v # ws) None \<and> (\<forall>b. b \<notin> set (as @ bs) \<longrightarrow> h2 b = h b)"
proof -
  obtain h1 where h1: "(if lastp None as \<noteq> None then set_next h (lastp None as) (Some a) else Some h) = Some h1"
      "chain h1 None as vs (Some a)" "\<forall>b. b \<notin> set as \<longrightarrow> h1 b = h b"
    using set_next_last [OF assms(1), of "Some a"] assms(3) by auto
  have "chain h1 p bs ws None" using assms(2,3) h1(3) chain_cong [of bs h1 h p ws None] by auto
  then obtain h2 where h2: "(if firstp bs None \<noteq> None then set_prev h1 (firstp bs None) (Some a) else Some h1) = Some h2"
      "chain h2 (Some a) bs ws None" "\<forall>b. b \<notin> set bs \<longrightarrow> h2 b = h1 b"
    using set_prev_first [of h1 p bs ws "Some a"] assms(3) by auto
  have "chain h2 None as vs (Some a)" using h1(2) h2(3) assms(3) chain_cong [of as h2 h1 None vs "Some a"] by auto
  moreover have "h2 a = h a" using h1(3) h2(3) assms(3) by simp
  ultimately have "chain h2 None (as @ a # bs) (vs @ v # ws) None" using h2(2) assms(4,5) by (simp add: chain_append)
  then show ?thesis using h1(1,3) h2(1,3) by auto
qed

lemma listInsertNode_at:
  assumes l: "list_at h l (as @ bs) (vs @ ws)" and len: "length as = length vs" and new: "h (alloc h) = None"
    and old: "if after then as \<noteq> [] \<and> old = lastp None as else bs \<noteq> [] \<and> old = firstp bs None"
  shows "\<exists>h' l'. listInsertNode alloc h l old v after = Some (h', l') \<and> list_at h' l' (as @ alloc h # bs) (vs @ v # ws) \<and>
    (\<forall>b. b \<notin> set (as @ alloc h # bs) \<longrightarrow> h' b = h b)"
proof -
  note d = list_atD [OF l]
  let ?a = "alloc h"
  define h0 where "h0 = h(?a \<mapsto> \<lparr>ln_prev = lastp None as, ln_next = firstp bs None, ln_value = v\<rparr>)"
  have na: "?a \<notin> set (as @ bs)" using chain_mem [OF d(2), of ?a] new by auto
  have c: "chain h None as vs (firstp bs None)" "chain h (lastp None as) bs ws None" using d(2) len by (simp_all add: chain_append)
  have c0: "chain h0 None as vs (firstp bs None)" "chain h0 (lastp None as) bs ws None" using c na by (simp_all add: h0_def chain_frame)
  obtain h1 h2 where h: "(if lastp None as \<noteq> None then set_next h0 (lastp None as) (Some ?a) else Some h0) = Some h1"
      "(if firstp bs None \<noteq> None then set_prev h1 (firstp bs None) (Some ?a) else Some h1) = Some h2"
      "chain h2 None (as @ ?a # bs) (vs @ v # ws) None" "\<forall>b. b \<notin> set (as @ bs) \<longrightarrow> h2 b = h0 b"
    using link_node [OF c0, of ?a v] na d(1) len by (auto simp: h0_def)
  obtain n where n: "node_at h old = Some n" "(if after then old else ln_prev n) = lastp None as" "(if after then ln_next n else old) = firstp bs None"
  proof (cases after)
    case True
    then obtain as' b where "as = as' @ [b]" "old = Some b" using old by (cases as rule: rev_cases) auto
    moreover from this obtain vs' w where "vs = vs' @ [w]" "length as' = length vs'" using len by (cases vs rule: rev_cases) auto
    ultimately show ?thesis using that c(1) True by (auto simp: chain_append node_at_def)
  next
    case False
    then obtain b bs' where "bs = b # bs'" "old = Some b" using old by (cases bs) auto
    moreover from this obtain w ws' where "ws = w # ws'" using chain_length [OF c(2)] by (cases ws) auto
    ultimately show ?thesis using that c(2) False by (auto simp: node_at_def)
  qed
  define l' where "l' = (if after then if al_tail l = old then l\<lparr>al_tail := Some ?a\<rparr> else l
                 else if al_head l = old then l\<lparr>al_head := Some ?a\<rparr> else l)"
  have ends: "al_head l' = firstp as (Some ?a)" "al_tail l' = lastp (Some ?a) bs" "al_len l' = al_len l"
    using d(1,3,4) old by (cases as rule: rev_cases; cases bs rule: rev_cases; auto simp: l'_def lastp_def firstp_def split: if_splits list.splits)+
  have "list_at h2 (l'\<lparr>al_len := al_len l' + 1\<rparr>) (as @ ?a # bs) (vs @ v # ws)"
    using h(3) ends d(1,5) na by (simp add: list_at_def)
  moreover have "listInsertNode alloc h l old v after = Some (h2, l'\<lparr>al_len := al_len l' + 1\<rparr>)"
    unfolding listInsertNode_def Let_def n(1) bind.bind_lunit n(2,3) l'_def [symmetric] h0_def [symmetric] using h(1,2) by simp
  ultimately show ?thesis using h(4) by (auto simp: h0_def)
qed

end
