(* ===== verification/Adlist_Ops.thy ===== *)
theory Adlist_Ops
  imports Adlist_Rep
begin

text \<open>
  The remaining operations of \<^verbatim>\<open>adlist.c\<close> against the chain of nodes, and the properties.
\<close>

subsection \<open>Deletion\<close>

lemma unlink_node:
  assumes "chain h None as vs q" and "chain h p bs ws None" and "distinct (as @ bs)" and "length as = length vs"
  shows "\<exists>h1 h2. (if lastp None as \<noteq> None then set_next h (lastp None as) (firstp bs None) else Some h) = Some h1 \<and>
    (if firstp bs None \<noteq> None then set_prev h1 (firstp bs None) (lastp None as) else Some h1) = Some h2 \<and>
    chain h2 None (as @ bs) (vs @ ws) None \<and> (\<forall>b. b \<notin> set (as @ bs) \<longrightarrow> h2 b = h b)"
proof -
  obtain h1 where h1: "(if lastp None as \<noteq> None then set_next h (lastp None as) (firstp bs None) else Some h) = Some h1"
      "chain h1 None as vs (firstp bs None)" "\<forall>b. b \<notin> set as \<longrightarrow> h1 b = h b"
    using set_next_last [OF assms(1), of "firstp bs None"] assms(3) by auto
  have "chain h1 p bs ws None" using assms(2,3) h1(3) chain_cong [of bs h1 h p ws None] by auto
  then obtain h2 where h2: "(if firstp bs None \<noteq> None then set_prev h1 (firstp bs None) (lastp None as) else Some h1) = Some h2"
      "chain h2 (lastp None as) bs ws None" "\<forall>b. b \<notin> set bs \<longrightarrow> h2 b = h1 b"
    using set_prev_first [of h1 p bs ws "lastp None as"] assms(3) by auto
  have "chain h2 None as vs (firstp bs None)" using h1(2) h2(3) assms(3) chain_cong [of as h2 h1 None vs "firstp bs None"] by auto
  then have "chain h2 None (as @ bs) (vs @ ws) None" using h2(2) assms(4) by (simp add: chain_append)
  then show ?thesis using h1(1,3) h2(1,3) by auto
qed

lemma listDelNode_at:
  assumes l: "list_at h l (as @ a # bs) (vs @ v # ws)" and len: "length as = length vs"
  shows "\<exists>h' l'. listDelNode h l (Some a) = Some (h', l', freed_value l v) \<and> list_at h' l' (as @ bs) (vs @ ws) \<and>
    h' a = None \<and> (\<forall>b. b \<notin> set (as @ a # bs) \<longrightarrow> h' b = h b)"
proof -
  note d = list_atD [OF l]
  have c: "chain h None as vs (Some a)" "chain h (Some a) bs ws None"
    "h a = Some \<lparr>ln_prev = lastp None as, ln_next = firstp bs None, ln_value = v\<rparr>"
    using d(2) len by (simp_all add: chain_append)
  obtain h1 h2 where h: "(if lastp None as \<noteq> None then set_next h (lastp None as) (firstp bs None) else Some h) = Some h1"
      "(if firstp bs None \<noteq> None then set_prev h1 (firstp bs None) (lastp None as) else Some h1) = Some h2"
      "chain h2 None (as @ bs) (vs @ ws) None" "\<forall>b. b \<notin> set (as @ bs) \<longrightarrow> h2 b = h b"
    using unlink_node [OF c(1,2)] d(1) len by auto
  define l1 where "l1 = (if lastp None as \<noteq> None then l else l\<lparr>al_head := firstp bs None\<rparr>)"
  define l2 where "l2 = (if firstp bs None \<noteq> None then l1 else l1\<lparr>al_tail := lastp None as\<rparr>)"
  have s1: "(if lastp None as \<noteq> None then do { h \<leftarrow> set_next h (lastp None as) (firstp bs None); Some (h, l) }
      else Some (h, l\<lparr>al_head := firstp bs None\<rparr>)) = Some (h1, l1)" using h(1) by (simp add: l1_def split: if_splits)
  have s2: "(if firstp bs None \<noteq> None then do { h \<leftarrow> set_prev h1 (firstp bs None) (lastp None as); Some (h, l1) }
      else Some (h1, l1\<lparr>al_tail := lastp None as\<rparr>)) = Some (h2, l2)" using h(2) by (simp add: l2_def split: if_splits)
  have na: "a \<notin> set (as @ bs)" using d(1) by auto
  have "h2 a = h a" using h(4) na by blast
  then have fr: "zfree_node h2 (Some a) = Some (h2(a := None))" using c(3) by (simp add: zfree_node_def)
  have ends: "al_head l2 = firstp as (firstp bs None)" "al_tail l2 = lastp (lastp None as) bs" "al_len l2 = al_len l" "al_free l2 = al_free l"
    using d(3,4) by (auto simp: l2_def l1_def lastp_def firstp_def split: if_splits list.splits)
  have "list_at (h2(a := None)) (l2\<lparr>al_len := al_len l2 - 1\<rparr>) (as @ bs) (vs @ ws)"
    using h(3) ends d(1,5) na by (simp add: list_at_def chain_frame)
  moreover have "listDelNode h l (Some a) = Some (h2(a := None), l2\<lparr>al_len := al_len l2 - 1\<rparr>, freed_value l v)"
    unfolding listDelNode_def node_at_def bind.bind_lunit c(3) listNode.select_convs s1 s2 prod.case fr
    using ends(4) by (simp add: freed_value_def)
  ultimately show ?thesis using h(4) by auto
qed

lemma listEmpty_loop_at:
  "chain h p as vs q \<Longrightarrow> distinct as \<Longrightarrow>
    \<exists>h'. listEmpty_loop l (length as) h (firstp as q) = Some (h', if al_free l then vs else []) \<and>
      (\<forall>b. h' b = (if b \<in> set as then None else h b))"
proof (induction as arbitrary: h p vs)
  case Nil
  then show ?case by (cases vs) auto
next
  case (Cons a as)
  then obtain v ws where vs: "vs = v # ws" by (cases vs) auto
  have c: "chain (h(a := None)) (Some a) as ws q" and d: "distinct as" using Cons.prems vs by (simp_all add: chain_frame)
  obtain h' where h': "listEmpty_loop l (length as) (h(a := None)) (firstp as q) = Some (h', if al_free l then ws else [])"
      "\<forall>b. h' b = (if b \<in> set as then None else (h(a := None)) b)"
    using Cons.IH [OF c d] by blast
  then show ?case using Cons.prems(1) vs by (auto simp: node_at_def zfree_node_def freed_value_def)
qed

lemma listEmpty_at:
  assumes "list_at h l as vs"
  shows "\<exists>h' l'. listEmpty h l = Some (h', l', if al_free l then vs else []) \<and> list_at h' l' [] [] \<and>
    (\<forall>b. h' b = (if b \<in> set as then None else h b))"
  using listEmpty_loop_at [of h None as vs None l] list_atD [OF assms] by (auto simp: listEmpty_def list_at_def)

subsection \<open>Rotation and joining\<close>

lemma listRotate_at:
  assumes l: "list_at h l as vs"
  shows "\<exists>h' l' as'. listRotate h l = Some (h', l') \<and> set as' = set as \<and>
    list_at h' l' as' (if vs = [] then [] else last vs # butlast vs) \<and> (\<forall>b. b \<notin> set as \<longrightarrow> h' b = h b)"
proof (cases "length as \<le> 1")
  case True
  then have "vs = [] \<or> (\<exists>v. vs = [v])" using list_atD(6) [OF l] by (cases vs; cases "tl vs") auto
  then show ?thesis using True l list_atD(5) [OF l] by (auto simp: listRotate_def)
next
  case False
  note d = list_atD [OF l]
  obtain bs t where as: "as = bs @ [t]" "bs \<noteq> []" using False by (cases as rule: rev_cases) auto
  obtain ws v where vs: "vs = ws @ [v]" "length bs = length ws" using d(6) as by (cases vs rule: rev_cases) auto
  have c: "chain h None bs ws (Some t)" "h t = Some \<lparr>ln_prev = lastp None bs, ln_next = None, ln_value = v\<rparr>"
    using d(2) as vs by (simp_all add: chain_append)
  have nt: "t \<notin> set bs" "distinct bs" using d(1) as by auto
  obtain h1 where h1: "set_next h (lastp None bs) None = Some h1" "chain h1 None bs ws None" "\<forall>b. b \<notin> set bs \<longrightarrow> h1 b = h b"
    using chain_set_next [OF c(1) nt(2) as(2), of None] by auto
  define h3 where "h3 = h1(t \<mapsto> \<lparr>ln_prev = None, ln_next = firstp bs None, ln_value = v\<rparr>)"
  have "h1 t = h t" using h1(3) nt(1) by blast
  then have s23: "do { h \<leftarrow> set_prev h1 (Some t) None; set_next h (Some t) (firstp bs None) } = Some h3"
    using c(2) by (simp add: set_prev_def set_next_def upd_node_def h3_def)
  have "chain h3 None bs ws None" using h1(2) nt(1) by (simp add: h3_def chain_frame)
  then obtain h4 where h4: "set_prev h3 (firstp bs None) (Some t) = Some h4" "chain h4 (Some t) bs ws None" "\<forall>b. b \<notin> set bs \<longrightarrow> h4 b = h3 b"
    using chain_set_prev [of h3 None bs ws None "Some t"] nt(2) as(2) by auto
  have hd: "al_head l = firstp bs None" using d(3) as by (cases bs) simp_all
  have "h4 t = h3 t" using h4(3) nt(1) by blast
  then have "list_at h4 (l\<lparr>al_tail := lastp None bs, al_head := Some t\<rparr>) (t # bs) (v # ws)"
    using h4(2) nt d(5) as by (simp add: list_at_def h3_def lastp_def)
  moreover have "listRotate h l = Some (h4, l\<lparr>al_tail := lastp None bs, al_head := Some t\<rparr>)"
    using d(4,5) False as c(2) h1(1) s23 h4(1) hd by (auto simp: listRotate_def node_at_def Let_def)
  moreover have "\<forall>b. b \<notin> set as \<longrightarrow> h4 b = h b" using h4(3) h1(3) as by (auto simp: h3_def)
  ultimately show ?thesis using as vs by (intro exI [of _ h4] exI [of _ "l\<lparr>al_tail := lastp None bs, al_head := Some t\<rparr>"] exI [of _ "t # bs"]) auto
qed

lemma listJoin_at:
  assumes l: "list_at h l as vs" and q: "list_at h q bs ws" and dis: "set as \<inter> set bs = {}"
  shows "\<exists>h' l' q'. listJoin h l q = Some (h', l', q') \<and> list_at h' l' (as @ bs) (vs @ ws) \<and> list_at h' q' [] []"
proof -
  note d = list_atD [OF l] and e = list_atD [OF q]
  obtain h1 where h1: "(if firstp bs None \<noteq> None then set_prev h (firstp bs None) (lastp None as) else Some h) = Some h1"
      "chain h1 (lastp None as) bs ws None" "\<forall>b. b \<notin> set bs \<longrightarrow> h1 b = h b"
    using set_prev_first [OF e(2,1), of "lastp None as"] by blast
  have "chain h1 None as vs None" using d(2) h1(3) dis chain_cong [of as h1 h None vs None] by auto
  then obtain h2 where h2: "(if lastp None as \<noteq> None then set_next h1 (lastp None as) (firstp bs None) else Some h1) = Some h2"
      "chain h2 None as vs (firstp bs None)" "\<forall>b. b \<notin> set as \<longrightarrow> h2 b = h1 b"
    using set_next_last [of h1 as vs None "firstp bs None"] d(1) by blast
  have "chain h2 (lastp None as) bs ws None" using h1(2) h2(3) dis chain_cong [of bs h2 h1 "lastp None as" ws None] by auto
  then have c: "chain h2 None (as @ bs) (vs @ ws) None" using h2(2) d(6) by (simp add: chain_append)
  define l1 where "l1 = (if lastp None as \<noteq> None then l else l\<lparr>al_head := firstp bs None\<rparr>)"
  define l2 where "l2 = (if lastp None bs \<noteq> None then l1\<lparr>al_tail := lastp None bs\<rparr> else l1)"
  have s: "(if lastp None as \<noteq> None then do { h \<leftarrow> set_next h1 (lastp None as) (firstp bs None); Some (h, l) }
      else Some (h1, l\<lparr>al_head := firstp bs None\<rparr>)) = Some (h2, l1)" using h2(1) by (simp add: l1_def split: if_splits)
  have ends: "al_head l2 = firstp as (firstp bs None)" "al_tail l2 = lastp (lastp None as) bs" "al_len l2 = al_len l"
    using d(3,4) by (auto simp: l2_def l1_def lastp_def firstp_def split: if_splits list.splits)
  have "list_at h2 (l2\<lparr>al_len := al_len l2 + al_len q\<rparr>) (as @ bs) (vs @ ws)"
    using c ends d(1,5) e(1,5) dis by (simp add: list_at_def)
  moreover have "listJoin h l q = Some (h2, l2\<lparr>al_len := al_len l2 + al_len q\<rparr>, q\<lparr>al_head := None, al_tail := None, al_len := 0\<rparr>)"
    unfolding listJoin_def d(4) e(3,4) h1(1) bind.bind_lunit s prod.case l2_def [symmetric] Let_def by simp
  ultimately show ?thesis by (auto simp: list_at_def)
qed

end
