(* ===== verification/Adlist_Iter.thy ===== *)
theory Adlist_Iter
  imports Adlist_Ops
begin

text \<open>
  Traversals of \<^verbatim>\<open>adlist.c\<close>: the iterator in both directions, the search, the access by index and the copy.
\<close>

subsection \<open>The iterator\<close>

text \<open>The loop \<^verbatim>\<open>while ((node = listNext(&iter)) != NULL)\<close> of the clients, with the values that it sees.\<close>

partial_function (option) list_walk :: "'v node_heap \<Rightarrow> listIter \<Rightarrow> 'v list option" where
  "list_walk h iter =
     do { (node, iter) \<leftarrow> listNext h iter;
          if node = None then Some []
          else do { n \<leftarrow> node_at h node; vs \<leftarrow> list_walk h iter; Some (ln_value n # vs) } }"

declare list_walk.simps [code]

lemma list_walk_forward:
  "chain h p as vs None \<Longrightarrow> list_walk h \<lparr>li_next = firstp as None, li_direction = AL_START_HEAD\<rparr> = Some vs"
proof (induction as arbitrary: p vs)
  case Nil
  then show ?case by (cases vs) (simp_all add: list_walk.simps [of h] listNext_def)
next
  case (Cons a as)
  then obtain v ws where "vs = v # ws" by (cases vs) auto
  then show ?case using Cons.prems Cons.IH [of "Some a" ws] by (subst list_walk.simps) (simp add: listNext_def node_at_def)
qed

lemma list_walk_backward:
  "chain h None as vs q \<Longrightarrow> d \<noteq> AL_START_HEAD \<Longrightarrow> list_walk h \<lparr>li_next = lastp None as, li_direction = d\<rparr> = Some (rev vs)"
proof (induction as arbitrary: q vs rule: rev_induct)
  case Nil
  then show ?case by (cases vs) (simp_all add: list_walk.simps [of h] listNext_def)
next
  case (snoc a as)
  then obtain ws v where "vs = ws @ [v]" "length as = length ws" using chain_length [OF snoc.prems(1)] by (cases vs rule: rev_cases) auto
  then show ?case using snoc.prems snoc.IH [of ws "Some a"]
    by (subst list_walk.simps) (simp add: listNext_def node_at_def chain_append)
qed

subsection \<open>Search\<close>

definition key_matches :: "'v adlist \<Rightarrow> 'v \<Rightarrow> 'v \<Rightarrow> bool" where
  "key_matches l key v = (case al_match l of None \<Rightarrow> key = v | Some m \<Rightarrow> m v key)"

text \<open>The node of the first value that satisfies a predicate.\<close>

primrec first_node :: "('v \<Rightarrow> bool) \<Rightarrow> nat list \<Rightarrow> 'v list \<Rightarrow> ptr" where
  "first_node P as [] = None"
| "first_node P as (v # vs) = (if P v then Some (hd as) else first_node P (tl as) vs)"

lemma listSearchKey_loop_at:
  "chain h p as vs None \<Longrightarrow> listSearchKey_loop h l key \<lparr>li_next = firstp as None, li_direction = AL_START_HEAD\<rparr> =
    Some (first_node (key_matches l key) as vs)"
proof (induction as arbitrary: p vs)
  case Nil
  then show ?case by (cases vs) (simp_all add: listSearchKey_loop.simps [of h] listNext_def)
next
  case (Cons a as)
  then obtain v ws where "vs = v # ws" by (cases vs) auto
  then show ?case using Cons.prems Cons.IH [of "Some a" ws]
    by (subst listSearchKey_loop.simps) (simp add: listNext_def node_at_def key_matches_def [symmetric])
qed

lemma first_node_None: "first_node P as vs = None \<longleftrightarrow> (\<forall>v \<in> set vs. \<not> P v)"
  by (induction vs arbitrary: as) auto

lemma first_node_Some:
  "length as = length vs \<Longrightarrow>
    first_node P as vs = Some a \<Longrightarrow> \<exists>i < length vs. as ! i = a \<and> P (vs ! i) \<and> (\<forall>j < i. \<not> P (vs ! j))"
proof (induction as vs rule: list_induct2)
  case (Cons a' as v vs)
  show ?case
  proof (cases "P v")
    case False
    then obtain i where "i < length vs" "as ! i = a" "P (vs ! i)" "\<forall>j < i. \<not> P (vs ! j)" using Cons by auto
    then show ?thesis using False by (intro exI [of _ "Suc i"]) (auto simp: less_Suc_eq_0_disj)
  qed (use Cons in auto)
qed simp

subsection \<open>Access by index\<close>

lemma index_loop_next:
  "chain h p as vs None \<Longrightarrow> index_loop ln_next h i (firstp as None) = Some (if i < length as then Some (as ! i) else None)"
proof (induction as arbitrary: p vs i)
  case Nil
  then show ?case by (cases i) simp_all
next
  case (Cons a as)
  then obtain v ws where "vs = v # ws" by (cases vs) auto
  then show ?case using Cons.prems Cons.IH [of "Some a" ws] by (cases i) (simp_all add: node_at_def)
qed

lemma index_loop_prev:
  "chain h None as vs q \<Longrightarrow> index_loop ln_prev h i (lastp None as) = Some (if i < length as then Some (rev as ! i) else None)"
proof (induction as arbitrary: q vs i rule: rev_induct)
  case Nil
  then show ?case by (cases i) simp_all
next
  case (snoc a as)
  then obtain ws v where "vs = ws @ [v]" "length as = length ws" using chain_length [OF snoc.prems(1)] by (cases vs rule: rev_cases) auto
  then show ?case using snoc.prems snoc.IH [of ws "Some a"] by (cases i) (simp_all add: node_at_def chain_append)
qed

lemma listIndex_at:
  assumes "list_at h l as vs"
  shows "listIndex h l i = Some (if - int (length vs) \<le> i \<and> i < int (length vs) then Some (as ! nat (i mod int (length vs))) else None)"
proof -
  note d = list_atD [OF assms]
  show ?thesis
  proof (cases "i < 0")
    case True
    have "rev as ! nat (- i - 1) = as ! nat (i mod int (length vs))" if "- int (length vs) \<le> i"
    proof -
      have "i mod int (length vs) = i + int (length vs)" using that True mod_pos_pos_trivial [of "i + int (length vs)" "int (length vs)"] by simp
      then have "nat (i mod int (length vs)) = length as - Suc (nat (- i - 1))" using that True d(6) by simp
      then show ?thesis using that True d(6) by (simp add: rev_nth)
    qed
    then show ?thesis using True index_loop_prev [OF d(2), of "nat (- i - 1)"] d(4,6) by (auto simp: listIndex_def)
  next
    case False
    then show ?thesis using index_loop_next [OF d(2), of "nat i"] d(3,6) by (auto simp: listIndex_def)
  qed
qed

subsection \<open>Copy\<close>

definition fresh_alloc :: "('v node_heap \<Rightarrow> nat) \<Rightarrow> bool" where
  "fresh_alloc alloc \<longleftrightarrow> (\<forall>h. finite (dom h) \<longrightarrow> h (alloc h) = None)"

definition dup_value :: "'v adlist \<Rightarrow> 'v \<Rightarrow> 'v option" where
  "dup_value l v = (case al_dup l of None \<Rightarrow> Some v | Some dup \<Rightarrow> dup v)"

text \<open>
  The copy of the values \<open>vs\<close> behind a list with the nodes \<open>bs\<close> and the values \<open>ws\<close>: either all of them are
  copied to new nodes, or the first value that cannot be copied makes the loop free what it has built.
\<close>

definition dup_post ::
  "'v node_heap \<Rightarrow> 'v adlist \<Rightarrow> nat list \<Rightarrow> 'v list \<Rightarrow> 'v list \<Rightarrow> 'v node_heap \<Rightarrow> 'v adlist option \<Rightarrow> 'v list \<Rightarrow> bool" where
  "dup_post h cpy bs ws vs h' r freed \<longleftrightarrow>
     (case r of
       Some l' \<Rightarrow> \<exists>bs' us. list_at h' l' (bs @ bs') (ws @ us) \<and> map (dup_value cpy) vs = map Some us \<and> freed = [] \<and>
         (\<forall>b \<in> set bs'. h b = None) \<and> (\<forall>b. b \<notin> set (bs @ bs') \<longrightarrow> h' b = h b)
     | None \<Rightarrow> (\<exists>n us. n < length vs \<and> dup_value cpy (vs ! n) = None \<and> map (dup_value cpy) (take n vs) = map Some us \<and>
         freed = (if al_free cpy then ws @ us else [])) \<and> (\<forall>b. h' b = (if b \<in> set bs then None else h b)))"

lemma dup_post_step:
  assumes "dup_post h1 cpy1 (bs @ [a]) (ws @ [w]) vs h' r freed" and "dup_value cpy v = Some w" and "h a = None"
    and "\<forall>b. b \<notin> set (a # bs) \<longrightarrow> h1 b = h b" and "al_dup cpy1 = al_dup cpy" and "al_free cpy1 = al_free cpy"
  shows "dup_post h cpy bs ws (v # vs) h' r freed"
proof (cases r)
  case None
  have dv: "dup_value cpy1 = dup_value cpy" using assms(5) by (simp add: dup_value_def fun_eq_iff)
  obtain n us where "n < length vs" "dup_value cpy (vs ! n) = None" "map (dup_value cpy) (take n vs) = map Some us"
      "freed = (if al_free cpy then (ws @ [w]) @ us else [])" "\<forall>b. h' b = (if b \<in> set (bs @ [a]) then None else h1 b)"
    using assms(1,6) dv None by (auto simp: dup_post_def)
  then have "\<exists>n us. n < length (v # vs) \<and> dup_value cpy ((v # vs) ! n) = None \<and> map (dup_value cpy) (take n (v # vs)) = map Some us \<and>
      freed = (if al_free cpy then ws @ us else [])" using assms(2) by (intro exI [of _ "Suc n"] exI [of _ "w # us"]) simp
  moreover have "\<forall>b. h' b = (if b \<in> set bs then None else h b)"
    using \<open>\<forall>b. h' b = _ b\<close> assms(3,4) by auto
  ultimately show ?thesis using None by (simp add: dup_post_def)
next
  case (Some l')
  have dv: "dup_value cpy1 = dup_value cpy" using assms(5) by (simp add: dup_value_def fun_eq_iff)
  obtain bs' us where u: "list_at h' l' ((bs @ [a]) @ bs') ((ws @ [w]) @ us)" "map (dup_value cpy) vs = map Some us" "freed = []"
      "\<forall>b \<in> set bs'. h1 b = None" "\<forall>b. b \<notin> set ((bs @ [a]) @ bs') \<longrightarrow> h' b = h1 b"
    using assms(1) dv Some by (auto simp: dup_post_def)
  have "\<forall>b \<in> set (a # bs'). h b = None" using u(4) assms(3,4) list_atD(1) [OF u(1)] by auto
  then show ?thesis unfolding dup_post_def Some option.case
    using u assms(2,4) by (intro exI [of _ "a # bs'"] exI [of _ "w # us"]) auto
qed

lemma listDup_loop_at:
  assumes "fresh_alloc alloc"
  shows "finite (dom h) \<Longrightarrow> chain h p as vs None \<Longrightarrow> list_at h cpy bs ws \<Longrightarrow> set as \<inter> set bs = {} \<Longrightarrow>
    \<exists>h' r freed. listDup_loop alloc h \<lparr>li_next = firstp as None, li_direction = AL_START_HEAD\<rparr> cpy = Some (h', r, freed) \<and>
      dup_post h cpy bs ws vs h' r freed"
proof (induction as arbitrary: h p vs cpy bs ws)
  case Nil
  then have "vs = []" by (cases vs) auto
  then show ?case using Nil by (subst listDup_loop.simps) (auto simp: listNext_def dup_post_def intro!: exI [of _ "[]"])
next
  case (Cons a as)
  then obtain v vs' where vs: "vs = v # vs'" by (cases vs) auto
  let ?it = "\<lambda>as. \<lparr>li_next = firstp as None, li_direction = AL_START_HEAD\<rparr>"
  have ha: "h a = Some \<lparr>ln_prev = p, ln_next = firstp as None, ln_value = v\<rparr>" "chain h (Some a) as vs' None" using Cons.prems(2) vs by simp_all
  have eq: "listDup_loop alloc h (?it (a # as)) cpy = (case dup_value cpy v of
      None \<Rightarrow> do { (h, freed) \<leftarrow> listRelease h cpy; Some (h, None, freed) }
    | Some v \<Rightarrow> do { (h, cpy) \<leftarrow> listAddNodeTail alloc h cpy v; listDup_loop alloc h (?it as) cpy })"
    using ha(1) by (subst listDup_loop.simps) (simp add: listNext_def node_at_def dup_value_def cong: option.case_cong)
  show ?case
  proof (cases "dup_value cpy v")
    case None
    obtain h' l' where "listEmpty h cpy = Some (h', l', if al_free cpy then ws else [])" "\<forall>b. h' b = (if b \<in> set bs then None else h b)"
      using listEmpty_at [OF Cons.prems(3)] by blast
    then show ?thesis using None vs unfolding eq by (simp add: listRelease_def dup_post_def) (auto intro!: exI [of _ 0])
  next
    case (Some w)
    have new: "h (alloc h) = None" using assms Cons.prems(1) by (simp add: fresh_alloc_def)
    obtain h1 cpy1 where h1: "listAddNodeTail alloc h cpy w = Some (h1, cpy1)" "list_at h1 cpy1 (bs @ [alloc h]) (ws @ [w])"
        "\<forall>b. b \<notin> set (alloc h # bs) \<longrightarrow> h1 b = h b" "al_dup cpy1 = al_dup cpy" "al_free cpy1 = al_free cpy"
      using listAddNodeTail_at [where alloc = alloc, OF Cons.prems(3) new, of w] by blast
    have "dom h1 \<subseteq> dom h \<union> set (alloc h # bs)" using h1(3) by (metis UnCI domIff subsetI)
    then have f: "finite (dom h1)" using Cons.prems(1) by (meson finite_UnI finite_set finite_subset)
    have na: "alloc h \<notin> set as" using chain_mem [OF ha(2), of "alloc h"] new by auto
    have "b \<notin> set (alloc h # bs)" if "b \<in> set as" for b using that na Cons.prems(4) by auto
    then have "\<And>b. b \<in> set as \<Longrightarrow> h1 b = h b" using h1(3) by blast
    then have "chain h1 (Some a) as vs' None" using ha(2) chain_cong [of as h1 h "Some a" vs' None] by blast
    from Cons.IH [OF f this h1(2)] na Cons.prems(4) obtain h' r freed where
      "listDup_loop alloc h1 (?it as) cpy1 = Some (h', r, freed)" "dup_post h1 cpy1 (bs @ [alloc h]) (ws @ [w]) vs' h' r freed" by auto
    then show ?thesis using dup_post_step [OF _ Some new h1(3,4,5)] h1(1) Some vs unfolding eq by auto
  qed
qed

end
