(* ===== verification/Adlist_Spec.thy ===== *)
theory Adlist_Spec
  imports Adlist_Iter
begin

text \<open>
  The list as a component: any sequence of its operations keeps a well-formed doubly linked list and
  behaves like the corresponding functions on Isabelle lists. Then the properties of \<^verbatim>\<open>adlist.c\<close>.
\<close>

subsection \<open>Sequences of operations\<close>

datatype 'v list_op = Add_head 'v | Add_tail 'v | Insert_at int 'v bool | Del_at int | Rotate | Clear

text \<open>
  \<open>Insert_at\<close> and \<open>Del_at\<close> are the idioms of the clients that find the node with \<^verbatim>\<open>listIndex\<close>. The state is the allocator, the heap and the list header.
\<close>

type_synonym 'v list_state = "('v node_heap \<Rightarrow> nat) \<times> 'v node_heap \<times> 'v adlist"

fun list_step :: "'v list_op \<Rightarrow> 'v list_state \<Rightarrow> 'v list_state option" where
  "list_step (Add_head v) (al, h, l) = do { (h, l) \<leftarrow> listAddNodeHead al h l v; Some (al, h, l) }"
| "list_step (Add_tail v) (al, h, l) = do { (h, l) \<leftarrow> listAddNodeTail al h l v; Some (al, h, l) }"
| "list_step (Insert_at i v after) (al, h, l) =
     do { node \<leftarrow> listIndex h l i; (h, l) \<leftarrow> listInsertNode al h l node v after; Some (al, h, l) }"
| "list_step (Del_at i) (al, h, l) =
     do { node \<leftarrow> listIndex h l i; (h, l, _) \<leftarrow> listDelNode h l node; Some (al, h, l) }"
| "list_step Rotate (al, h, l) = do { (h, l) \<leftarrow> listRotate h l; Some (al, h, l) }"
| "list_step Clear (al, h, l) = do { (h, l, _) \<leftarrow> listEmpty h l; Some (al, h, l) }"

fun list_vals :: "'v list_op \<Rightarrow> 'v list \<Rightarrow> 'v list" where
  "list_vals (Add_head v) vs = v # vs"
| "list_vals (Add_tail v) vs = vs @ [v]"
| "list_vals (Insert_at i v after) vs =
     (let k = nat (i mod int (length vs)) + (if after then 1 else 0) in take k vs @ v # drop k vs)"
| "list_vals (Del_at i) vs = (let k = nat (i mod int (length vs)) in take k vs @ drop (Suc k) vs)"
| "list_vals Rotate vs = (if vs = [] then [] else last vs # butlast vs)"
| "list_vals Clear vs = []"

definition index_valid :: "int \<Rightarrow> 'v list \<Rightarrow> bool" where
  "index_valid i vs \<longleftrightarrow> - int (length vs) \<le> i \<and> i < int (length vs)"

fun list_pre :: "'v list_op \<Rightarrow> 'v list \<Rightarrow> bool" where
  "list_pre (Insert_at i v after) vs \<longleftrightarrow> index_valid i vs"
| "list_pre (Del_at i) vs \<longleftrightarrow> index_valid i vs"
| "list_pre _ vs \<longleftrightarrow> True"

fun list_ok :: "'v list_state \<Rightarrow> 'v list \<Rightarrow> bool" where
  "list_ok (al, h, l) vs \<longleftrightarrow> fresh_alloc al \<and> finite (dom h) \<and> (\<exists>as. list_at h l as vs)"

lemma list_okI:
  assumes "list_ok (al, h, l) vs" and "list_at h' l' as' vs'" and "\<forall>b. b \<notin> set bs \<longrightarrow> h' b = h b"
  shows "list_ok (al, h', l') vs'"
proof -
  have "dom h' \<subseteq> dom h \<union> set bs" using assms(3) by (metis UnCI domIff subsetI)
  then have "finite (dom h')" using assms(1) by (auto intro: finite_subset)
  then show ?thesis using assms(1,2) by (auto simp del: split_paired_Ex)
qed

lemma index_valid_split:
  assumes "index_valid i vs" and "list_at h l as vs"
  defines "k \<equiv> nat (i mod int (length vs))"
  shows "listIndex h l i = Some (Some (as ! k))" "k < length vs" "as = take k as @ as ! k # drop (Suc k) as" "vs = take k vs @ vs ! k # drop (Suc k) vs"
    "length (take k as) = length (take k vs)"
proof -
  note d = list_atD [OF assms(2)]
  have "vs \<noteq> []" using assms(1) by (auto simp: index_valid_def)
  then show k: "k < length vs" by (simp add: k_def nat_less_iff)
  show "listIndex h l i = Some (Some (as ! k))" using listIndex_at [OF assms(2), of i] assms(1) by (simp add: index_valid_def k_def)
  show "as = take k as @ as ! k # drop (Suc k) as" "vs = take k vs @ vs ! k # drop (Suc k) vs"
    "length (take k as) = length (take k vs)" using k d(6) id_take_nth_drop [of k as] id_take_nth_drop [of k vs] by simp_all
qed

lemma list_step_sim:
  assumes ok: "list_ok s vs" and pre: "list_pre x vs"
  shows "\<exists>s'. list_step x s = Some s' \<and> list_ok s' (list_vals x vs)"
proof -
  obtain al h l where s: "s = (al, h, l)" by (cases s) auto
  obtain as where l: "list_at h l as vs" using ok s by auto
  have new: "h (al h) = None" using ok s by (simp add: fresh_alloc_def)
  note I = list_okI [OF ok [unfolded s]]
  show ?thesis
  proof (cases x)
    case (Add_head v)
    obtain h' l' where "listAddNodeHead al h l v = Some (h', l')" "list_at h' l' (al h # as) (v # vs)"
        "\<forall>b. b \<notin> set (al h # as) \<longrightarrow> h' b = h b" using listAddNodeHead_at [where alloc = al and v = v, OF l new] by blast
    from I [OF this(2,3)] this(1) show ?thesis using Add_head s by simp
  next
    case (Add_tail v)
    obtain h' l' where "listAddNodeTail al h l v = Some (h', l')" "list_at h' l' (as @ [al h]) (vs @ [v])"
        "\<forall>b. b \<notin> set (al h # as) \<longrightarrow> h' b = h b" using listAddNodeTail_at [where alloc = al and v = v, OF l new] by blast
    from I [OF this(2,3)] this(1) show ?thesis using Add_tail s by simp
  next
    case (Insert_at i v after)
    then have "index_valid i vs" using pre by simp
    note k = index_valid_split [OF this l]
    let ?k = "nat (i mod int (length vs))"
    let ?j = "?k + (if after then 1 else 0)"
    have old: "if after then take ?j as \<noteq> [] \<and> Some (as ! ?k) = lastp None (take ?j as) else drop ?j as \<noteq> [] \<and> Some (as ! ?k) = firstp (drop ?j as) None"
      using k(2) list_atD(6) [OF l] by (auto simp: lastp_def take_Suc_conv_app_nth Cons_nth_drop_Suc [symmetric])
    have l2: "list_at h l (take ?j as @ drop ?j as) (take ?j vs @ drop ?j vs)" "length (take ?j as) = length (take ?j vs)"
      using l list_atD(6) [OF l] by simp_all
    obtain h' l' where "listInsertNode al h l (Some (as ! ?k)) v after = Some (h', l')"
        "list_at h' l' (take ?j as @ al h # drop ?j as) (take ?j vs @ v # drop ?j vs)"
        "\<forall>b. b \<notin> set (take ?j as @ al h # drop ?j as) \<longrightarrow> h' b = h b"
      using listInsertNode_at [where alloc = al and v = v, OF l2 new old] by blast
    from I [OF this(2,3)] this(1) show ?thesis using Insert_at s k(1) by (simp add: Let_def)
  next
    case (Del_at i)
    then have "index_valid i vs" using pre by simp
    note k = index_valid_split [OF this l]
    let ?k = "nat (i mod int (length vs))"
    have "list_at h l (take ?k as @ as ! ?k # drop (Suc ?k) as) (take ?k vs @ vs ! ?k # drop (Suc ?k) vs)" using l k(3,4) by simp
    from listDelNode_at [OF this k(5)] obtain h' l' where "listDelNode h l (Some (as ! ?k)) = Some (h', l', freed_value l (vs ! ?k))"
        "list_at h' l' (take ?k as @ drop (Suc ?k) as) (take ?k vs @ drop (Suc ?k) vs)"
        "\<forall>b. b \<notin> set (take ?k as @ as ! ?k # drop (Suc ?k) as) \<longrightarrow> h' b = h b" by blast
    from I [OF this(2,3)] this(1) show ?thesis using Del_at s k(1) by (simp add: Let_def)
  next
    case Rotate
    obtain h' l' as' where "listRotate h l = Some (h', l')" "list_at h' l' as' (list_vals Rotate vs)"
        "\<forall>b. b \<notin> set as \<longrightarrow> h' b = h b" using listRotate_at [OF l] by auto
    from I [OF this(2,3)] this(1) show ?thesis using Rotate s by simp
  next
    case Clear
    obtain h' l' where "listEmpty h l = Some (h', l', if al_free l then vs else [])" "list_at h' l' [] []"
        "\<forall>b. h' b = (if b \<in> set as then None else h b)" using listEmpty_at [OF l] by blast
    then show ?thesis using Clear s I [of h' l' "[]" "[]" as] by simp
  qed
qed

interpretation lst: stepwise list_ok list_step list_vals list_pre
  by unfold_locales (rule list_step_sim)

text \<open>An allocator and a list of two nodes for the examples.\<close>

definition next_free :: "'v node_heap \<Rightarrow> nat" where
  "next_free h = Suc (Max (insert 0 (dom h)))"

lemma next_free_fresh: "fresh_alloc (next_free :: 'v node_heap \<Rightarrow> nat)"
proof -
  have "h (next_free h) = None" if "finite (dom h)" for h :: "'v node_heap"
  proof (rule ccontr)
    assume "h (next_free h) \<noteq> None"
    then have "next_free h \<le> Max (insert 0 (dom h))" using that by (intro Max_ge) auto
    then show False by (simp add: next_free_def)
  qed
  then show ?thesis by (simp add: fresh_alloc_def)
qed

definition two_heap :: "int node_heap" where
  "two_heap = [1 \<mapsto> \<lparr>ln_prev = None, ln_next = Some 2, ln_value = 10\<rparr>, 2 \<mapsto> \<lparr>ln_prev = Some 1, ln_next = None, ln_value = 20\<rparr>]"

definition two_list :: "int adlist" where
  "two_list = listCreate\<lparr>al_head := Some 1, al_tail := Some 2, al_len := 2, al_dup := Some (\<lambda>v. if v < 15 then Some (v + 1) else None)\<rparr>"

lemma two_list_at: "list_at two_heap two_list [1, 2] [10, 20]"
  by (simp add: list_at_def two_heap_def two_list_def listCreate_def)

lemma two_heap_finite: "finite (dom two_heap)"
  by (simp add: two_heap_def)

subsection \<open>Properties\<close>

text \<open>
  C21. Any sequence of additions at the head and the tail, insertions and deletions at valid indices, rotations and
  clearings succeeds, with no access to memory that is not allocated. It keeps the header, the length and the two
  pointers of every node consistent, for every allocator that returns fresh nodes, and the values are
  those of the same operations on plain lists.
\<close>

theorem adlist_run_invariant:
  assumes "list_ok s vs" and "run_pre list_pre list_vals xs vs"
  shows "\<exists>s'. run_steps list_step xs s = Some s' \<and> list_ok s' (run_text list_vals xs vs)"
  by (rule lst.run_sim [OF assms])

theorem adlist_run_invariant_witness:
  "\<exists>s'. run_steps list_step [Add_tail 1, Add_tail 2, Add_head (0::int), Insert_at (- 1) 7 False, Rotate, Del_at 1] (next_free, Map.empty, listCreate) = Some s' \<and>
    list_ok s' [2, 1, 7]"
proof -
  have "list_ok (next_free, Map.empty, listCreate) ([]::int list)" using next_free_fresh listCreate_at by auto
  from adlist_run_invariant [OF this, of "[Add_tail 1, Add_tail 2, Add_head 0, Insert_at (- 1) 7 False, Rotate, Del_at 1]"]
  show ?thesis by (simp add: index_valid_def Let_def del: list_ok.simps)
qed

text \<open>
  C23. The iterator visits the values in order from the head and in reverse order from the tail, and ends. An index counts from
  the head, a negative one from the tail, and gives \<^verbatim>\<open>NULL\<close> exactly when it is out of range. The search returns the first node
  whose value matches the key, with the list's own comparison when it has one, and \<^verbatim>\<open>NULL\<close> when there is none.
\<close>

theorem adlist_traversals:
  assumes "list_at h l as vs"
  shows "list_walk h (listGetIterator l AL_START_HEAD) = Some vs \<and>
    list_walk h (listGetIterator l AL_START_TAIL) = Some (rev vs) \<and>
    listIndex h l i = Some (if index_valid i vs then Some (as ! nat (i mod int (length vs))) else None) \<and>
    (\<exists>r. listSearchKey h l key = Some r \<and>
      (case r of None \<Rightarrow> \<forall>v \<in> set vs. \<not> key_matches l key v
       | Some a \<Rightarrow> \<exists>j < length vs. as ! j = a \<and> key_matches l key (vs ! j) \<and> (\<forall>k < j. \<not> key_matches l key (vs ! k))))"
    (is "?F \<and> ?B \<and> ?I \<and> ?S")
proof -
  note d = list_atD [OF assms]
  have ?F using list_walk_forward [OF d(2)] d(3) by (simp add: listGetIterator_def)
  moreover have ?B using list_walk_backward [OF d(2), of AL_START_TAIL] d(4) by (simp add: listGetIterator_def)
  moreover have ?I using listIndex_at [OF assms, of i] by (simp add: index_valid_def)
  moreover have "listSearchKey h l key = Some (first_node (key_matches l key) as vs)"
    using listSearchKey_loop_at [OF d(2), of l key] d(3) by (simp add: listSearchKey_def listRewind_def)
  then have ?S
    using first_node_None [of "key_matches l key" as vs] first_node_Some [of as vs "key_matches l key"] d(6) by (auto split: option.split)
  ultimately show ?thesis by blast
qed

theorem adlist_traversals_witness:
  "list_walk two_heap (listGetIterator two_list AL_START_TAIL) = Some [20, 10] \<and> listIndex two_heap two_list (- 2) = Some (Some 1)"
  using adlist_traversals [OF two_list_at, of "- 2"] by (simp add: index_valid_def)

text \<open>
  C22. Copying a list ends. Either the result is a well-formed list on new nodes with the copied values, and
  the rest of the heap, the original included, is unchanged; or some value has no copy, the result is \<^verbatim>\<open>NULL\<close>, the heap is the
  one before the call, so that no node leaks, and the copies made so far have been released.
\<close>

theorem listDup_copies_or_restores:
  assumes "fresh_alloc alloc" and "finite (dom h)" and "list_at h orig as vs"
  shows "(\<exists>h' cpy bs us. listDup alloc h orig = Some (h', Some cpy, []) \<and> list_at h' cpy bs us \<and> list_at h' orig as vs \<and>
      map (dup_value orig) vs = map Some us \<and> set as \<inter> set bs = {} \<and> (\<forall>b. b \<notin> set bs \<longrightarrow> h' b = h b)) \<or>
    (\<exists>n us. listDup alloc h orig = Some (h, None, if al_free orig then us else []) \<and> n < length vs \<and>
      dup_value orig (vs ! n) = None \<and> map (dup_value orig) (take n vs) = map Some us)"
proof -
  note d = list_atD [OF assms(3)]
  define cpy0 where "cpy0 = listCreate\<lparr>al_dup := al_dup orig, al_free := al_free orig, al_match := al_match orig\<rparr>"
  have dv: "dup_value cpy0 = dup_value orig" "al_free cpy0 = al_free orig" by (auto simp: cpy0_def dup_value_def fun_eq_iff)
  have "list_at h cpy0 [] []" by (simp add: list_at_def cpy0_def listCreate_def)
  from listDup_loop_at [OF assms(1,2) d(2) this] obtain h' r freed where
    r: "listDup alloc h orig = Some (h', r, freed)" "dup_post h cpy0 [] [] vs h' r freed"
    by (auto simp: listDup_def Let_def listRewind_def d(3) cpy0_def)
  show ?thesis
  proof (cases r)
    case None
    then have "h' = h" using r(2) by (auto simp: dup_post_def)
    obtain n us where "n < length vs" "dup_value orig (vs ! n) = None" "map (dup_value orig) (take n vs) = map Some us"
        "freed = (if al_free orig then us else [])" using r(2) None dv by (auto simp: dup_post_def)
    then show ?thesis using r(1) None \<open>h' = h\<close> by blast
  next
    case (Some cpy)
    then obtain bs us where u: "list_at h' cpy bs us" "map (dup_value orig) vs = map Some us" "freed = []"
      "\<forall>b \<in> set bs. h b = None" "\<forall>b. b \<notin> set bs \<longrightarrow> h' b = h b" using r(2) dv by (auto simp: dup_post_def)
    have dis: "set as \<inter> set bs = {}" using chain_mem [OF d(2)] u(4) by blast
    then have "list_at h' orig as vs" using list_at_frame [OF assms(3), of h'] u(5) by blast
    then show ?thesis using r(1) Some u dis by blast
  qed
qed

theorem listDup_copies_or_restores_witness:
  "listDup next_free two_heap two_list = Some (two_heap, None, [])"
proof -
  have "map (dup_value two_list) [10, 20] \<noteq> map Some us" for us
    by (cases us; cases "tl us") (auto simp: dup_value_def two_list_def listCreate_def)
  moreover have "\<not> al_free two_list" by (simp add: two_list_def listCreate_def)
  ultimately show ?thesis
    using listDup_copies_or_restores [OF next_free_fresh two_heap_finite two_list_at] by auto
qed

text \<open>
  C24. Joining two lists with different nodes moves all nodes of the second behind those of the first, in order, and leaves
  the second one as an empty, valid list.
\<close>

theorem listJoin_moves_all:
  assumes "list_at h l as vs" and "list_at h q bs ws" and "set as \<inter> set bs = {}"
  shows "\<exists>h' l' q'. listJoin h l q = Some (h', l', q') \<and> list_at h' l' (as @ bs) (vs @ ws) \<and> list_at h' q' [] []"
  by (rule listJoin_at [OF assms])

theorem listJoin_moves_all_witness:
  "\<exists>h' l' q'. listJoin (two_heap(3 \<mapsto> \<lparr>ln_prev = None, ln_next = None, ln_value = 30\<rparr>)) two_list
      (listCreate\<lparr>al_head := Some 3, al_tail := Some 3, al_len := 1\<rparr>) = Some (h', l', q') \<and>
    list_at h' l' [1, 2, 3] [10, 20, 30] \<and> list_at h' q' [] []"
proof -
  let ?h = "two_heap(3 \<mapsto> \<lparr>ln_prev = None, ln_next = None, ln_value = 30\<rparr>)"
  have "list_at ?h two_list [1, 2] [10, 20]" by (rule list_at_frame [OF two_list_at]) auto
  moreover have "list_at ?h (listCreate\<lparr>al_head := Some 3, al_tail := Some 3, al_len := 1\<rparr>) [3] [30]" by (simp add: list_at_def)
  ultimately show ?thesis using listJoin_moves_all [of ?h two_list "[1, 2]" "[10, 20]" _ "[3]" "[30]"] by simp
qed

end
