(* ===== verification/Crc_Spec.thy ===== *)
theory Crc_Spec
  imports Crc
begin

text \<open>
  The table driven checksums equal the division by their polynomial bit by bit. The argument is the same for
  both: one step of the division is linear, so a byte goes through the table and the rest of the register is shifted.
\<close>

subsection \<open>The division, bit by bit\<close>

definition crc16_bit :: "u16 \<Rightarrow> u16" where
  "crc16_bit crc = push_bit 1 crc XOR (if 0x8000 \<le> crc then 0x1021 else 0)"

definition crc64_bit :: "u64 \<Rightarrow> u64" where
  "crc64_bit crc = drop_bit 1 crc XOR (if odd crc then 0x95AC9329AC4BC9B5 else 0)"

definition crc16_ref :: "byte list \<Rightarrow> u16" where
  "crc16_ref = foldl (\<lambda>crc b. (crc16_bit ^^ 8) (crc XOR push_bit 8 (ucast b))) 0"

definition crc64_ref :: "u64 \<Rightarrow> byte list \<Rightarrow> u64" where
  "crc64_ref = foldl (\<lambda>crc b. (crc64_bit ^^ 8) (crc XOR ucast b))"

subsection \<open>Tables of a linear function\<close>

text \<open>All sums of the given basis.\<close>

primrec span :: "'w::len word list \<Rightarrow> 'w word list \<Rightarrow> 'w word list" where
  "span xs [] = xs"
| "span xs (t # ts) = span (xs @ map (\<lambda>x. x XOR t) xs) ts"

lemma span_nth:
  assumes add: "\<And>k i. k < 8 \<Longrightarrow> i < 2 ^ k \<Longrightarrow> F (i + 2 ^ k) = F i XOR F (2 ^ k)"
  shows "length xs = 2 ^ k \<Longrightarrow> (\<And>i. i < 2 ^ k \<Longrightarrow> xs ! i = F i) \<Longrightarrow> k + length ts = 8 \<Longrightarrow>
    (\<And>j. j < length ts \<Longrightarrow> ts ! j = F (2 ^ (k + j))) \<Longrightarrow> i < 256 \<Longrightarrow> span xs ts ! i = F i"
proof (induction ts arbitrary: xs k)
  case Nil
  then show ?case by (simp add: Nil.prems(2))
next
  case (Cons t ts)
  have t: "t = F (2 ^ k)" using Cons.prems(4) [of 0] by simp
  have "(xs @ map (\<lambda>x. x XOR t) xs) ! i = F i" if "i < 2 ^ Suc k" for i
  proof (cases "i < 2 ^ k")
    case True
    then show ?thesis using Cons.prems(1,2) by (simp add: nth_append)
  next
    case False
    then have "i - 2 ^ k < 2 ^ k" using that by simp
    then show ?thesis using False Cons.prems(1,2,3) add [of k "i - 2 ^ k"] t by (simp add: nth_append)
  qed
  moreover have "length (xs @ map (\<lambda>x. x XOR t) xs) = 2 ^ Suc k" using Cons.prems(1) by simp
  moreover have "ts ! j = F (2 ^ (Suc k + j))" if "j < length ts" for j using Cons.prems(4) [of "Suc j"] that by simp
  ultimately show ?case using Cons.IH [of "xs @ map (\<lambda>x. x XOR t) xs" "Suc k"] Cons.prems(3,5) by simp
qed

lemma of_nat_disjoint:
  assumes "i < 2 ^ k"
  shows "(word_of_nat (i + 2 ^ k) :: byte) = word_of_nat i XOR 2 ^ k"
proof -
  have "\<not> bit i k" using assms by (simp add: bit_iff_odd)
  then have "i AND 2 ^ k = 0" by (simp add: and_exp_eq_0_iff_not_bit)
  then have "i + 2 ^ k = i XOR 2 ^ k" by (simp add: disjunctive_add_eq_or disjunctive_xor_eq_or)
  then show ?thesis by (simp add: of_nat_xor_eq del: of_nat_add)
qed

subsection \<open>Checksums with a table\<close>

locale table_crc =
  fixes L :: "'w::len word \<Rightarrow> 'w word" and inject :: "byte \<Rightarrow> 'w word" and part :: "'w word \<Rightarrow> byte"
    and shift8 :: "'w word \<Rightarrow> 'w word" and tab :: "'w word list"
  assumes linear: "L (x XOR y) = L x XOR L y"
    and inject_xor: "inject (a XOR b) = inject a XOR inject b"
    and rest: "(L ^^ 8) (x XOR inject (part x)) = shift8 x"
    and tab: "tab = span [0] (map (\<lambda>k. (L ^^ 8) (inject (2 ^ k))) [0, 1, 2, 3, 4, 5, 6, 7])"
begin

lemma linear_iter: "(L ^^ n) (x XOR y) = (L ^^ n) x XOR (L ^^ n) y"
  by (induction n arbitrary: x y) (simp_all add: linear)

lemma iter_zero: "(L ^^ n) 0 = 0"
  using linear_iter [of n 0 0] by simp

lemma tab_nth: "tab ! unat b = (L ^^ 8) (inject b)"
proof -
  define F where "F i = (L ^^ 8) (inject (word_of_nat i))" for i
  have z: "inject 0 = 0" using inject_xor [of 0 0] by simp
  have "tab ! unat b = F (unat b)" unfolding tab
  proof (rule span_nth [where k = 0])
    show "F (i + 2 ^ k) = F i XOR F (2 ^ k)" if "i < 2 ^ k" for k i
      using of_nat_disjoint [OF that] by (simp add: F_def inject_xor linear_iter)
    show "map (\<lambda>k. (L ^^ 8) (inject (2 ^ k))) [0, 1, 2, 3, 4, 5, 6, 7] ! j = F (2 ^ (0 + j))"
      if "j < length (map (\<lambda>k. (L ^^ 8) (inject (2 ^ k))) [0, 1, 2, 3, 4, 5, 6, 7])" for j
    proof -
      have "[0, 1, 2, 3, 4, 5, 6, 7] = [0..<8]" by (simp add: upt_rec)
      then show ?thesis using that by (simp add: F_def del: upt_Suc)
    qed
    show "unat b < 256" using unsigned_less [of b, where ?'a = nat] by simp
  qed (simp_all add: F_def z iter_zero)
  then show ?thesis by (simp add: F_def)
qed

lemma step: "(L ^^ 8) (x XOR inject b) = tab ! unat (part x XOR b) XOR shift8 x"
proof -
  have "x XOR inject b = (x XOR inject (part x)) XOR inject (part x XOR b)"
    by (simp add: inject_xor xor.assoc)
  then have "(L ^^ 8) (x XOR inject b) = (L ^^ 8) (x XOR inject (part x)) XOR (L ^^ 8) (inject (part x XOR b))"
    by (simp only: linear_iter)
  then show ?thesis unfolding rest tab_nth [symmetric] by (simp only: xor.commute)
qed

end

lemma funpow_8: "(f ^^ 8) x = f (f (f (f (f (f (f (f x)))))))"
  by (simp add: numeral_eq_Suc)

lemma odd_small: "(n::nat) < 2 \<Longrightarrow> odd n \<longleftrightarrow> n \<noteq> 0"
  by (auto simp: less_2_cases_iff)

lemma bit15: "bit (x::u16) 15 \<longleftrightarrow> 0x8000 \<le> x"
proof -
  have "unat x < 65536" using unsigned_less [of x, where ?'a = nat] by simp
  then have "unat x div 32768 < 2" by simp
  then have "odd (unat x div 32768) \<longleftrightarrow> unat x div 32768 \<noteq> 0" by (rule odd_small)
  moreover have "unat x div 32768 = 0 \<longleftrightarrow> unat x < 32768" by (simp add: div_eq_0_iff)
  moreover have "bit x 15 \<longleftrightarrow> odd (unat x div 2 ^ 15)" unfolding bit_iff_odd [symmetric] bit_unsigned_iff by (simp only: possible_bit_nat simp_thms)
  moreover have "(2::nat) ^ 15 = 32768" "unat (0x8000::u16) = 32768" by simp_all
  ultimately show ?thesis unfolding word_le_nat_alt by (metis not_less)
qed

lemma crc16_bit_shift:
  assumes "k < 8" and "\<And>n. bit x n \<Longrightarrow> n < 8"
  shows "crc16_bit (push_bit k x) = push_bit (Suc k) x"
proof -
  have "\<not> bit (push_bit k x) 15" using assms(1) assms(2) [of "15 - k"] by (auto simp: bit_push_bit_iff)
  then show ?thesis unfolding crc16_bit_def bit15 [symmetric] by (simp add: push_bit_push_bit)
qed

lemma crc16_rest:
  "(crc16_bit ^^ 8) (x XOR push_bit 8 (ucast (ucast (drop_bit 8 x) :: byte))) = push_bit 8 x"
proof -
  define lo where "lo = x XOR push_bit 8 (ucast (ucast (drop_bit 8 x) :: byte))"
  have lo: "bit lo n \<longleftrightarrow> n < 8 \<and> bit x n" for n
    unfolding lo_def using bit_imp_le_length [of x n]
    by (auto simp: bit_xor_iff bit_push_bit_iff bit_ucast_iff bit_drop_bit_eq)
  have "(crc16_bit ^^ k) lo = push_bit k lo" if "k \<le> 8" for k
    using that
  proof (induction k)
    case (Suc k)
    then show ?case using crc16_bit_shift [of k lo] lo by (simp del: push_bit_Suc)
  qed simp
  then have "(crc16_bit ^^ 8) lo = push_bit 8 lo" by simp
  also have "push_bit 8 lo = push_bit 8 x" by (rule bit_word_eqI) (auto simp: bit_push_bit_iff lo)
  finally show ?thesis by (simp only: lo_def)
qed

interpretation c16: table_crc crc16_bit "\<lambda>b. push_bit 8 (ucast b)" "\<lambda>x. ucast (drop_bit 8 x)" "push_bit 8" crc16tab
proof
  show "crc16_bit (x XOR y) = crc16_bit x XOR crc16_bit y" for x y
    unfolding crc16_bit_def bit15 [symmetric] by (auto simp: bit_xor_iff ac_simps)
  show "push_bit 8 (ucast (a XOR b)) = push_bit 8 (ucast a) XOR push_bit 8 (ucast b :: u16)" for a b :: byte
    by (simp add: unsigned_xor_eq)
  show "(crc16_bit ^^ 8) (x XOR push_bit 8 (ucast (ucast (drop_bit 8 x) :: byte))) = push_bit 8 x" for x
    by (rule crc16_rest)
  show "crc16tab = span [0] (map (\<lambda>k. (crc16_bit ^^ 8) (push_bit 8 (ucast (2 ^ k :: byte)))) [0, 1, 2, 3, 4, 5, 6, 7])"
    unfolding funpow_8 by (simp add: crc16tab_def crc16_bit_def)
qed

lemma crc64_bit_shift:
  assumes "k < 8" and "\<And>n. bit x n \<Longrightarrow> 8 \<le> n"
  shows "crc64_bit (drop_bit k x) = drop_bit (Suc k) x"
proof -
  have "even (drop_bit k x)" using assms(1) assms(2) [of k] by (auto simp: bit_iff_odd_drop_bit)
  then show ?thesis by (simp add: crc64_bit_def)
qed

lemma crc64_rest: "(crc64_bit ^^ 8) (x XOR ucast (ucast x :: byte)) = drop_bit 8 x"
proof -
  define hi where "hi = x XOR ucast (ucast x :: byte)"
  have hi: "bit hi n \<longleftrightarrow> 8 \<le> n \<and> bit x n" for n
    unfolding hi_def using bit_imp_le_length [of x n] by (auto simp: bit_xor_iff bit_ucast_iff)
  have "(crc64_bit ^^ k) hi = drop_bit k hi" if "k \<le> 8" for k
    using that
  proof (induction k)
    case (Suc k)
    then show ?case using crc64_bit_shift [of k hi] hi by (simp del: drop_bit_Suc)
  qed simp
  then have "(crc64_bit ^^ 8) hi = drop_bit 8 hi" by simp
  also have "drop_bit 8 hi = drop_bit 8 x" by (rule bit_word_eqI) (auto simp: bit_drop_bit_eq hi)
  finally show ?thesis by (simp only: hi_def)
qed

interpretation c64: table_crc crc64_bit ucast ucast "drop_bit 8" crc64_tab
proof
  show "crc64_bit (x XOR y) = crc64_bit x XOR crc64_bit y" for x y
    unfolding crc64_bit_def by (auto simp: even_xor_iff ac_simps)
  show "ucast (a XOR b) = ucast a XOR (ucast b :: u64)" for a b :: byte
    by (simp add: unsigned_xor_eq)
  show "(crc64_bit ^^ 8) (x XOR ucast (ucast x :: byte)) = drop_bit 8 x" for x
    by (rule crc64_rest)
  show "crc64_tab = span [0] (map (\<lambda>k. (crc64_bit ^^ 8) (ucast (2 ^ k :: byte))) [0, 1, 2, 3, 4, 5, 6, 7])"
    unfolding funpow_8 by (simp add: crc64_tab_def crc64_bit_def)
qed

lemma unat_and_FF: "unat ((y::u16) AND 0x00FF) = unat (ucast y :: byte)"
proof -
  have "(0x00FF::u16) = mask 8" by (simp add: mask_eq_exp_minus_1)
  then show ?thesis by (simp only: take_bit_eq_mask [symmetric] unsigned_take_bit_eq unsigned_ucast_eq) simp
qed

lemma crc16_step_ref: "crc16_step crc b = (crc16_bit ^^ 8) (crc XOR push_bit 8 (ucast b))"
proof -
  have "(ucast (drop_bit 8 crc XOR ucast b) :: byte) = ucast (drop_bit 8 crc) XOR b"
    by (rule bit_word_eqI) (auto simp: bit_xor_iff bit_ucast_iff)
  then show ?thesis by (simp only: crc16_step_def unat_and_FF c16.step xor.commute)
qed

lemma crc64_step_ref: "crc64_step crc b = (crc64_bit ^^ 8) (crc XOR ucast b)"
  by (simp only: crc64_step_def c64.step)

subsection \<open>Properties\<close>

text \<open>
  C25. The table driven CRC16 and CRC64 give the remainder of the bitwise division by their polynomials: x^16 + x^12 + x^5 + 1 with
  the most significant bit first, and the Jones polynomial with reflected bits.
\<close>

theorem crc_tables_divide: "crc16 buf = crc16_ref buf \<and> crc64 crc s = crc64_ref crc s"
  unfolding crc16_def crc16_ref_def crc64_def crc64_ref_def crc16_step_ref [abs_def] crc64_step_ref [abs_def] by simp

end
