(* ===== verification/Cluster_Slot.thy ===== *)
theory Cluster_Slot
  imports Crc_Spec
begin

text \<open>
  The hash slot of a key (\<^verbatim>\<open>keyHashSlot\<close> of \<^verbatim>\<open>cluster.c\<close>).
\<close>

abbreviation (input) OPEN_BRACE :: byte where "OPEN_BRACE \<equiv> 0x7B"
abbreviation (input) CLOSE_BRACE :: byte where "CLOSE_BRACE \<equiv> 0x7D"

text \<open>The two loops: the first index from \<open>i\<close> on that holds the character, or the length.\<close>

function find_char :: "byte list \<Rightarrow> byte \<Rightarrow> nat \<Rightarrow> nat" where
  "find_char key c i = (if i < length key then if key ! i = c then i else find_char key c (i + 1) else i)"
  by auto
termination by (relation "measure (\<lambda>(key, c, i). length key - i)") auto

declare find_char.simps [simp del]

definition keyHashSlot :: "byte list \<Rightarrow> nat" where
  "keyHashSlot key =
     (let keylen = length key;
          s = find_char key OPEN_BRACE 0
      in if s = keylen then unat (crc16 key AND 0x3FFF)
         else let e = find_char key CLOSE_BRACE (s + 1)
              in if e = keylen \<or> e = s + 1 then unat (crc16 key AND 0x3FFF)
                 else unat (crc16 (take (e - s - 1) (drop (s + 1) key)) AND 0x3FFF))"

lemma find_char_found:
  "i \<le> length p \<Longrightarrow> c \<notin> set (drop i p) \<Longrightarrow> find_char (p @ c # q) c i = length p"
proof (induction "length p - i" arbitrary: i)
  case 0
  then show ?case by (subst find_char.simps) (simp add: nth_append)
next
  case (Suc n)
  then have "i < length p" by simp
  then have "p ! i \<noteq> c" "c \<notin> set (drop (Suc i) p)" using Suc.prems(2) by (auto simp: Cons_nth_drop_Suc [symmetric])
  then show ?case using Suc \<open>i < length p\<close> by (subst find_char.simps) (simp add: nth_append)
qed

lemma find_char_absent:
  "i \<le> length p \<Longrightarrow> c \<notin> set (drop i p) \<Longrightarrow> find_char p c i = length p"
proof (induction "length p - i" arbitrary: i)
  case 0
  then show ?case by (subst find_char.simps) simp
next
  case (Suc n)
  then have "i < length p" by simp
  then have "p ! i \<noteq> c" "c \<notin> set (drop (Suc i) p)" using Suc.prems(2) by (auto simp: Cons_nth_drop_Suc [symmetric])
  then show ?case using Suc \<open>i < length p\<close> by (subst find_char.simps) simp
qed

lemma takeWhile_until: "c \<notin> set t \<Longrightarrow> takeWhile (\<lambda>x. x \<noteq> c) (t @ c # q) = t"
  by (induction t) auto

lemma dropWhile_until: "c \<notin> set p \<Longrightarrow> dropWhile (\<lambda>x. x \<noteq> c) (p @ c # q) = c # q"
  by (induction p) auto

text \<open>The part of a key that is hashed: between the first opening brace and the next closing one, if it is not empty.\<close>

definition hash_tag :: "byte list \<Rightarrow> byte list" where
  "hash_tag key =
     (let rest = tl (dropWhile (\<lambda>c. c \<noteq> OPEN_BRACE) key);
          tag = takeWhile (\<lambda>c. c \<noteq> CLOSE_BRACE) rest
      in if OPEN_BRACE \<in> set key \<and> CLOSE_BRACE \<in> set rest \<and> tag \<noteq> [] then tag else key)"

lemma keyHashSlot_tag: "keyHashSlot key = unat (crc16 (hash_tag key) AND 0x3FFF)"
proof (cases "OPEN_BRACE \<in> set key")
  case False
  then show ?thesis using find_char_absent [of 0 key OPEN_BRACE] by (simp add: keyHashSlot_def hash_tag_def)
next
  case True
  then obtain p r where key: "key = p @ OPEN_BRACE # r" "OPEN_BRACE \<notin> set p" by (metis split_list_first)
  have s: "find_char key OPEN_BRACE 0 = length p" using find_char_found [of 0 p OPEN_BRACE r] key by simp
  have dw: "tl (dropWhile (\<lambda>c. c \<noteq> OPEN_BRACE) key) = r" using key by (simp add: dropWhile_until)
  show ?thesis
  proof (cases "CLOSE_BRACE \<in> set r")
    case False
    have "find_char key CLOSE_BRACE (length p + 1) = length key"
      using find_char_absent [of "length p + 1" key CLOSE_BRACE] False key(1) by simp
    then show ?thesis using s dw False by (simp add: keyHashSlot_def hash_tag_def Let_def)
  next
    case inr: True
    then obtain t q where r: "r = t @ CLOSE_BRACE # q" "CLOSE_BRACE \<notin> set t" by (metis split_list_first)
    have e: "find_char key CLOSE_BRACE (length p + 1) = length p + 1 + length t"
      using find_char_found [of "length p + 1" "p @ OPEN_BRACE # t" CLOSE_BRACE q] key(1) r by simp
    have tw: "takeWhile (\<lambda>c. c \<noteq> CLOSE_BRACE) r = t" using r by (simp add: takeWhile_until)
    show ?thesis using s e dw tw inr True key(1) r(1) by (simp add: keyHashSlot_def hash_tag_def Let_def)
  qed
qed

text \<open>
  C26. The slot of a key is one of 16384, and it is the checksum of the tag between the first opening brace and the first closing brace behind it, or
  of the whole key when there is no such pair or nothing between them. So the slot of a key with a tag depends on the tag alone.
\<close>

theorem keyHashSlot_hash_tag:
  "keyHashSlot key = unat (crc16_ref (hash_tag key) AND 0x3FFF) \<and> keyHashSlot key < 16384 \<and>
    (OPEN_BRACE \<notin> set p \<longrightarrow> CLOSE_BRACE \<notin> set t \<longrightarrow> t \<noteq> [] \<longrightarrow>
      keyHashSlot (p @ OPEN_BRACE # t @ CLOSE_BRACE # q) = unat (crc16_ref t AND 0x3FFF))"
proof -
  have c: "crc16 buf = crc16_ref buf" for buf
    unfolding crc16_def crc16_ref_def crc16_step_ref [abs_def] by simp
  have less: "unat (x AND 0x3FFF) < 16384" for x :: u16
    using word_and_le1 [of x "0x3FFF"] by (simp add: word_le_nat_alt)
  have tag: "hash_tag (p @ OPEN_BRACE # t @ CLOSE_BRACE # q) = t"
    if "OPEN_BRACE \<notin> set p" "CLOSE_BRACE \<notin> set t" "t \<noteq> []"
  proof -
    have "takeWhile (\<lambda>c. c \<noteq> CLOSE_BRACE) (t @ CLOSE_BRACE # q) = t" using that(2) by (rule takeWhile_until)
    then show ?thesis using that by (simp add: hash_tag_def dropWhile_until)
  qed
  show ?thesis unfolding keyHashSlot_tag c using less tag by simp
qed

theorem keyHashSlot_hash_tag_witness:
  "keyHashSlot [0x61, 0x7B, 0x62, 0x7D] = keyHashSlot [0x7B, 0x62, 0x7D, 0x63]"
  using keyHashSlot_hash_tag [of "[]" "[0x61]" "[0x62]" "[]"] keyHashSlot_hash_tag [of "[]" "[]" "[0x62]" "[0x63]"] by simp

end
