(* ===== verification/Rand.thy ===== *)
theory Rand
  imports Prelude
begin

text \<open>
  The pseudo random numbers of the scripts (\<^verbatim>\<open>rand.c\<close>): a linear congruential generator with a state of 48 bits, kept in three
  limbs of 16 bits, each in a word of 32 bits.
\<close>

record rand48 =
  r_x0 :: u32
  r_x1 :: u32
  r_x2 :: u32
  r_a0 :: u32
  r_a1 :: u32
  r_a2 :: u32
  r_c :: u32

definition LOW :: "u32 \<Rightarrow> u32" where
  "LOW x = x AND 0xFFFF"

text \<open>The argument is signed where the macro is used, so the shift is arithmetic.\<close>

definition HIGH :: "u32 \<Rightarrow> u32" where
  "HIGH x = LOW (signed_drop_bit 16 x)"

definition MUL :: "u32 \<Rightarrow> u32 \<Rightarrow> u32 \<times> u32" where
  "MUL x y = (let l = x * y in (LOW l, HIGH l))"

definition CARRY :: "u32 \<Rightarrow> u32 \<Rightarrow> u32" where
  "CARRY x y = (if sint x + uint y > 0xFFFF then 1 else 0)"

definition ADDEQU :: "u32 \<Rightarrow> u32 \<Rightarrow> u32 \<times> u32" where
  "ADDEQU x y = (LOW (x + y), CARRY x y)"

definition SEED :: "u32 \<Rightarrow> u32 \<Rightarrow> u32 \<Rightarrow> rand48" where
  "SEED x0 x1 x2 = \<lparr>r_x0 = x0, r_x1 = x1, r_x2 = x2, r_a0 = 0xE66D, r_a1 = 0xDEEC, r_a2 = 0x5, r_c = 0xB\<rparr>"

definition rand_init :: rand48 where
  "rand_init = SEED 0x330E 0xABCD 0x1234"

definition next_rand :: "rand48 \<Rightarrow> rand48" where
  "next_rand s =
     (let (p0, p1) = MUL (r_a0 s) (r_x0 s);
          (p0, carry0) = ADDEQU p0 (r_c s);
          (p1, carry1) = ADDEQU p1 carry0;
          (q0, q1) = MUL (r_a0 s) (r_x1 s);
          (p1, carry0) = ADDEQU p1 q0;
          (r0, r1) = MUL (r_a1 s) (r_x0 s)
      in s\<lparr>r_x2 := LOW (carry0 + carry1 + CARRY p1 r0 + q1 + r1 + r_a0 s * r_x2 s + r_a1 s * r_x1 s + r_a2 s * r_x0 s),
           r_x1 := LOW (p1 + r0),
           r_x0 := LOW p0\<rparr>)"

definition redisLrand48 :: "rand48 \<Rightarrow> int \<times> rand48" where
  "redisLrand48 s = (let s = next_rand s in (sint (push_bit 15 (r_x2 s) + drop_bit 1 (r_x1 s)), s))"

definition redisSrand48 :: "int \<Rightarrow> rand48" where
  "redisSrand48 seedval = (let v = word_of_int seedval in SEED 0x330E (LOW v) (HIGH v))"

subsection \<open>The limbs as a number\<close>

definition limbs_ok :: "rand48 \<Rightarrow> bool" where
  "limbs_ok s \<longleftrightarrow> r_x0 s < 65536 \<and> r_x1 s < 65536 \<and> r_x2 s < 65536 \<and> r_a0 s = 0xE66D \<and> r_a1 s = 0xDEEC \<and> r_a2 s = 5 \<and> r_c s = 0xB"

definition rand_value :: "rand48 \<Rightarrow> nat" where
  "rand_value s = unat (r_x0 s) + 2 ^ 16 * unat (r_x1 s) + 2 ^ 32 * unat (r_x2 s)"

lemma FFFF_mask: "(0xFFFF::u32) = mask 16"
  by (simp add: mask_eq_exp_minus_1)

lemma unat_LOW [simp]: "unat (LOW x) = unat x mod 65536"
  by (simp add: LOW_def FFFF_mask flip: take_bit_eq_mask) (simp add: take_bit_eq_mod unat_mod)

lemma HIGH_drop: "HIGH x = drop_bit 16 x"
  unfolding HIGH_def LOW_def FFFF_mask
  by (rule bit_word_eqI) (auto simp: bit_and_iff bit_mask_iff bit_signed_drop_bit_iff bit_drop_bit_eq dest: bit_imp_le_length)

lemma unat_HIGH [simp]: "unat (HIGH x) = unat x div 65536"
  by (simp add: HIGH_drop drop_bit_eq_div unat_div)

lemma unat_CARRY:
  assumes "unat x < 65536" and "unat y < 65536"
  shows "unat (CARRY x y) = (unat x + unat y) div 65536"
proof -
  have "sint x = int (unat x)" using assms(1) by (simp add: sint_u32_small)
  then have "sint x + uint y > 0xFFFF \<longleftrightarrow> 65536 \<le> unat x + unat y" unfolding uint_nat by linarith
  then have "CARRY x y = (if 65536 \<le> unat x + unat y then 1 else 0)" by (simp only: CARRY_def)
  moreover have "(unat x + unat y) div 65536 = (if 65536 \<le> unat x + unat y then 1 else 0)"
    using assms by (auto simp: div_eq_0_iff intro!: div_nat_eqI)
  ultimately show ?thesis by simp
qed

text \<open>One limb of a product, and of a sum.\<close>

lemma unat_mult_16:
  assumes "unat x < 65536" and "unat y < 65536"
  shows "unat (x * y :: u32) = unat x * unat y"
proof -
  have "unat x * unat y \<le> 65535 * 65535" using assms by (intro mult_mono) auto
  then show ?thesis by (simp add: unat_word_ariths)
qed

lemma unat_add_16: "unat (x + y :: u32) mod 65536 = (unat x + unat y) mod 65536"
  by (simp add: unat_word_ariths mod_mod_cancel)

lemma low_add: "unat (x :: u32) mod 65536 = m mod 65536 \<Longrightarrow> unat y mod 65536 = n mod 65536 \<Longrightarrow> unat (x + y) mod 65536 = (m + n) mod 65536"
  unfolding unat_add_16 by (rule mod_add_cong)

lemma low_mult: "unat (x * y :: u32) mod 65536 = (unat x * unat y) mod 65536"
  by (simp add: unat_word_ariths mod_mod_cancel)

text \<open>The schoolbook multiplication that the code performs, over natural numbers.\<close>

lemma limb_arith:
  fixes a0 a1 a2 x0 x1 x2 c :: nat
  assumes "p0 = a0 * x0 mod 65536" and "p1 = a0 * x0 div 65536" and "k0 = (p0 + c) div 65536" and "p0' = (p0 + c) mod 65536"
    and "k1 = (p1 + k0) div 65536" and "p1' = (p1 + k0) mod 65536"
    and "q0 = a0 * x1 mod 65536" and "q1 = a0 * x1 div 65536" and "k0' = (p1' + q0) div 65536" and "p1'' = (p1' + q0) mod 65536"
    and "r0 = a1 * x0 mod 65536" and "r1 = a1 * x0 div 65536" and "k2 = (p1'' + r0) div 65536"
  shows "p0' + 2 ^ 16 * ((p1'' + r0) mod 65536) + 2 ^ 32 * ((k0' + k1 + k2 + q1 + r1 + a0 * x2 + a1 * x1 + a2 * x0) mod 65536) =
    ((a0 + 2 ^ 16 * a1 + 2 ^ 32 * a2) * (x0 + 2 ^ 16 * x1 + 2 ^ 32 * x2) + c) mod 2 ^ 48"
proof -
  define S where "S = k0' + k1 + k2 + q1 + r1 + a0 * x2 + a1 * x1 + a2 * x0"
  define lo where "lo = p0' + 2 ^ 16 * ((p1'' + r0) mod 65536)"
  have "a0 * x0 = 65536 * p1 + p0" "p0 + c = 65536 * k0 + p0'" "p1 + k0 = 65536 * k1 + p1'" "a0 * x1 = 65536 * q1 + q0"
    "p1' + q0 = 65536 * k0' + p1''" "a1 * x0 = 65536 * r1 + r0" "p1'' + r0 = 65536 * k2 + (p1'' + r0) mod 65536"
    by (simp_all only: assms mult_div_mod_eq)
  then have "lo + 2 ^ 32 * S = a0 * x0 + c + 2 ^ 16 * (a0 * x1 + a1 * x0) + 2 ^ 32 * (a0 * x2 + a1 * x1 + a2 * x0)"
    by (simp add: S_def lo_def)
  define T where "T = a1 * x2 + a2 * x1 + 65536 * (a2 * x2)"
  have prod: "(a0 + 2 ^ 16 * a1 + 2 ^ 32 * a2) * (x0 + 2 ^ 16 * x1 + 2 ^ 32 * x2) + c =
      lo + 2 ^ 32 * S + 2 ^ 48 * T"
    using \<open>lo + 2 ^ 32 * S = _\<close> by (simp add: algebra_simps T_def)
  have "lo < 2 ^ 32" using mod_less_divisor [of 65536 "p1'' + r0"] assms(4) by (simp add: lo_def)
  then have "(lo + 2 ^ 32 * S) mod (2 ^ 32 * 65536) = lo + 2 ^ 32 * (S mod 65536)"
    by (subst mod_mult2_eq) simp
  then show ?thesis unfolding prod S_def [symmetric] lo_def [symmetric] by simp
qed

lemma next_rand_value:
  assumes ok: "limbs_ok s"
  shows "limbs_ok (next_rand s)" and "rand_value (next_rand s) = (0x5DEECE66D * rand_value s + 0xB) mod 2 ^ 48"
proof -
  have x: "unat (r_x0 s) < 65536" "unat (r_x1 s) < 65536" "unat (r_x2 s) < 65536" using ok by (simp_all add: limbs_ok_def word_less_nat_alt)
  have a: "r_a0 s = 0xE66D" "r_a1 s = 0xDEEC" "r_a2 s = 5" "r_c s = 0xB" using ok by (simp_all add: limbs_ok_def)
  have LOW_less: "LOW w < 65536" for w by (simp add: word_less_nat_alt)
  show "limbs_ok (next_rand s)" using a LOW_less by (simp add: limbs_ok_def next_rand_def MUL_def ADDEQU_def Let_def split_beta)
  have m: "unat (0xE66D * r_x0 s) = 0xE66D * unat (r_x0 s)" "unat (0xE66D * r_x1 s) = 0xE66D * unat (r_x1 s)"
    "unat (0xDEEC * r_x0 s) = 0xDEEC * unat (r_x0 s)"
    using unat_mult_16 [of "0xE66D"] unat_mult_16 [of "0xDEEC"] x by simp_all
  define p0 p1 q0 q1 r0 r1 where p: "p0 = LOW (0xE66D * r_x0 s)" "p1 = HIGH (0xE66D * r_x0 s)" "q0 = LOW (0xE66D * r_x1 s)"
    "q1 = HIGH (0xE66D * r_x1 s)" "r0 = LOW (0xDEEC * r_x0 s)" "r1 = HIGH (0xDEEC * r_x0 s)"
  define k0 where "k0 = CARRY p0 0xB"
  define p1' where "p1' = LOW (p1 + k0)"
  define p1'' where "p1'' = LOW (p1' + q0)"
  have up: "unat p0 = 0xE66D * unat (r_x0 s) mod 65536" "unat p1 = 0xE66D * unat (r_x0 s) div 65536" "unat q0 = 0xE66D * unat (r_x1 s) mod 65536"
    "unat q1 = 0xE66D * unat (r_x1 s) div 65536" "unat r0 = 0xDEEC * unat (r_x0 s) mod 65536" "unat r1 = 0xDEEC * unat (r_x0 s) div 65536"
    unfolding p unat_LOW unat_HIGH m by (rule refl)+
  have bounds: "unat p0 < 65536" "unat p1 < 65536" "unat q0 < 65536" "unat r0 < 65536" using up x by simp_all
  have uk0: "unat k0 = (unat p0 + 0xB) div 65536" using unat_CARRY [of p0 "0xB"] bounds by (simp add: k0_def)
  then have bk0: "unat k0 < 65536" using bounds by simp
  have uk1: "unat (CARRY p1 k0) = (unat p1 + unat k0) div 65536" using unat_CARRY bounds bk0 by simp
  have up1: "unat p1' = (unat p1 + unat k0) mod 65536" by (simp add: p1'_def unat_add_16)
  have uk0': "unat (CARRY p1' q0) = (unat p1' + unat q0) div 65536" using unat_CARRY bounds up1 by simp
  have up1': "unat p1'' = (unat p1' + unat q0) mod 65536" by (simp add: p1''_def unat_add_16)
  have uk2: "unat (CARRY p1'' r0) = (unat p1'' + unat r0) div 65536" using unat_CARRY bounds up1' by simp
  have x0: "unat (LOW (LOW (p0 + 0xB))) = (unat p0 + 0xB) mod 65536" by (simp add: unat_add_16)
  have x2: "unat (CARRY p1' q0 + CARRY p1 k0 + CARRY p1'' r0 + q1 + r1 + 0xE66D * r_x2 s + 0xDEEC * r_x1 s + 5 * r_x0 s) mod 65536 =
      (unat (CARRY p1' q0) + unat (CARRY p1 k0) + unat (CARRY p1'' r0) + unat q1 + unat r1 + 0xE66D * unat (r_x2 s) +
        0xDEEC * unat (r_x1 s) + 5 * unat (r_x0 s)) mod 65536"
    by (intro low_add refl) (simp_all add: low_mult)
  have nx: "next_rand s = s\<lparr>r_x2 := LOW (CARRY p1' q0 + CARRY p1 k0 + CARRY p1'' r0 + q1 + r1 + 0xE66D * r_x2 s + 0xDEEC * r_x1 s + 5 * r_x0 s),
      r_x1 := LOW (p1'' + r0), r_x0 := LOW (LOW (p0 + 0xB))\<rparr>"
    unfolding next_rand_def MUL_def ADDEQU_def Let_def prod.case a p [symmetric] k0_def [symmetric] p1'_def [symmetric] p1''_def [symmetric] by (rule refl)
  have "rand_value (next_rand s) = (unat p0 + 0xB) mod 65536 + 2 ^ 16 * ((unat p1'' + unat r0) mod 65536) +
      2 ^ 32 * ((unat (CARRY p1' q0) + unat (CARRY p1 k0) + unat (CARRY p1'' r0) + unat q1 + unat r1 + 0xE66D * unat (r_x2 s) +
        0xDEEC * unat (r_x1 s) + 5 * unat (r_x0 s)) mod 65536)"
    unfolding nx rand_value_def by (simp add: x0 x2 unat_add_16 [of p1'' r0] del: unat_LOW) (simp add: x2 unat_add_16 [of p1'' r0])
  also have "\<dots> = ((0xE66D + 2 ^ 16 * 0xDEEC + 2 ^ 32 * 5) * rand_value s + 0xB) mod 2 ^ 48"
    unfolding rand_value_def by (rule limb_arith [OF up(1,2) uk0 refl uk1 up1 up(3,4) uk0' up1' up(5,6) uk2])
  finally show "rand_value (next_rand s) = (0x5DEECE66D * rand_value s + 0xB) mod 2 ^ 48" by simp
qed

text \<open>
  C27. Each call of \<^verbatim>\<open>redisLrand48\<close> multiplies the 48 bit state by 25214903917, adds 11 and returns its upper 31 bits, as the
  \<^verbatim>\<open>drand48\<close> family does; the limbs stay below 2^16 and no carry is lost.
\<close>

theorem redisLrand48_lcg:
  assumes "limbs_ok s" and "redisLrand48 s = (r, s')"
  shows "limbs_ok s' \<and> rand_value s' = (0x5DEECE66D * rand_value s + 0xB) mod 2 ^ 48 \<and>
    r = int (rand_value s' div 2 ^ 17) \<and> 0 \<le> r \<and> r < 2 ^ 31"
proof -
  have s': "s' = next_rand s" "r = sint (push_bit 15 (r_x2 s') + drop_bit 1 (r_x1 s'))"
    using assms(2) by (auto simp: redisLrand48_def Let_def)
  note n = next_rand_value [OF assms(1), folded s'(1)]
  have b: "unat (r_x0 s') < 65536" "unat (r_x1 s') < 65536" "unat (r_x2 s') < 65536"
    using n(1) by (simp_all add: limbs_ok_def word_less_nat_alt)
  have "unat (push_bit 15 (r_x2 s')) = 32768 * unat (r_x2 s')" using b(3) by (simp add: push_bit_eq_mult unat_word_ariths)
  have "unat (drop_bit 1 (r_x1 s')) = unat (r_x1 s') div 2" by (simp add: drop_bit_eq_div unat_div)
  define N where "N = 32768 * unat (r_x2 s') + unat (r_x1 s') div 2"
  have N: "N < 2 ^ 31" "rand_value s' div 2 ^ 17 = N" using b by (simp_all add: N_def rand_value_def)
  have "unat (push_bit 15 (r_x2 s') + drop_bit 1 (r_x1 s')) = N"
    using \<open>unat (push_bit 15 _) = _\<close> \<open>unat (drop_bit 1 _) = _\<close> b by (simp add: unat_word_ariths N_def)
  then have "r = int N" using s'(2) N(1) sint_u32_small [of "push_bit 15 (r_x2 s') + drop_bit 1 (r_x1 s')"] by (simp only:)
  then show ?thesis using n N by simp
qed

theorem redisLrand48_lcg_witness:
  "fst (redisLrand48 rand_init) = int ((0x5DEECE66D * 0x1234ABCD330E + 0xB) mod 2 ^ 48 div 2 ^ 17)"
proof -
  have "limbs_ok rand_init" "rand_value rand_init = 0x1234ABCD330E" by (simp_all add: rand_init_def SEED_def limbs_ok_def rand_value_def)
  then show ?thesis using redisLrand48_lcg [of rand_init "fst (redisLrand48 rand_init)" "snd (redisLrand48 rand_init)"] by simp
qed

end
