(* ===== verification/Localtime.thy ===== *)
theory Localtime
  imports Prelude
begin

text \<open>
  The calendar of the log messages (\<^verbatim>\<open>localtime.c\<close>). Times are \<^verbatim>\<open>time_t\<close>, so integers with the division of C, which agrees with
  \<^verbatim>\<open>div\<close> and \<^verbatim>\<open>mod\<close> for the non-negative times that the function is meant for; their width of 64 bits is not written out, the
  theorem bounds the local time by \<open>2 ^ 55\<close>.
\<close>

record tm =
  tm_sec :: int
  tm_min :: int
  tm_hour :: int
  tm_mday :: int
  tm_mon :: nat
  tm_year :: int
  tm_wday :: int
  tm_yday :: int
  tm_isdst :: int

definition c_div :: "int \<Rightarrow> int \<Rightarrow> int" where
  "c_div a b = sgn a * sgn b * (\<bar>a\<bar> div \<bar>b\<bar>)"

definition c_mod :: "int \<Rightarrow> int \<Rightarrow> int" where
  "c_mod a b = a - b * c_div a b"

definition is_leap_year :: "int \<Rightarrow> int" where
  "is_leap_year year =
     (if c_mod year 4 \<noteq> 0 then 0 else if c_mod year 100 \<noteq> 0 then 1 else if c_mod year 400 \<noteq> 0 then 0 else 1)"

lemma is_leap_year_01: "is_leap_year y = 0 \<or> is_leap_year y = 1"
  by (simp add: is_leap_year_def)

function year_loop :: "int \<Rightarrow> int \<Rightarrow> int \<times> int" where
  "year_loop year days =
     (let days_this_year = 365 + is_leap_year year
      in if days_this_year > days then (year, days) else year_loop (year + 1) (days - days_this_year))"
  by auto
termination
proof (relation "measure (\<lambda>(year, days). nat days)", goal_cases)
  case (2 year days x)
  then show ?case using is_leap_year_01 [of year] by auto
qed simp

declare year_loop.simps [simp del]

text \<open>An index behind the last month is outside the array.\<close>

function month_loop :: "int list \<Rightarrow> nat \<Rightarrow> int \<Rightarrow> (nat \<times> int) option" where
  "month_loop mdays mon days =
     (if mon < length mdays then if mdays ! mon \<le> days then month_loop mdays (mon + 1) (days - mdays ! mon) else Some (mon, days)
      else None)"
  by auto
termination by (relation "measure (\<lambda>(mdays, mon, days). length mdays - mon)") auto

declare month_loop.simps [simp del]

definition month_days :: "int \<Rightarrow> int list" where
  "month_days year = [31, 28, 31, 30, 31, 30, 31, 31, 30, 31, 30, 31][1 := 28 + is_leap_year year]"

definition nolocks_localtime :: "int \<Rightarrow> int \<Rightarrow> int \<Rightarrow> tm option" where
  "nolocks_localtime t tz dst =
     (let t = t - tz;
          t = t + 3600 * dst;
          days = c_div t 86400;
          seconds = c_mod t 86400;
          hour = c_div seconds 3600;
          minute = c_div (c_mod seconds 3600) 60;
          sec = c_mod (c_mod seconds 3600) 60;
          wday = c_mod (days + 4) 7;
          (year, yday) = year_loop 1970 days
      in do {
        (mon, days) \<leftarrow> month_loop (month_days year) 0 yday;
        Some \<lparr>tm_sec = sec, tm_min = minute, tm_hour = hour, tm_mday = days + 1, tm_mon = mon, tm_year = year - 1900,
              tm_wday = wday, tm_yday = yday, tm_isdst = dst\<rparr> })"

subsection \<open>The proleptic Gregorian calendar\<close>

definition leap :: "int \<Rightarrow> bool" where
  "leap y \<longleftrightarrow> 4 dvd y \<and> (100 dvd y \<longrightarrow> 400 dvd y)"

definition days_in_month :: "int \<Rightarrow> nat \<Rightarrow> int" where
  "days_in_month y m = (if m = 1 then if leap y then 29 else 28 else if m \<in> {3, 5, 8, 10} then 30 else 31)"

text \<open>The number of leap years before a year gives the day number of its first day, by the usual closed formula.\<close>

definition leaps_before :: "int \<Rightarrow> int" where
  "leaps_before y = (y - 1) div 4 - (y - 1) div 100 + (y - 1) div 400"

definition day_number :: "int \<Rightarrow> nat \<Rightarrow> int \<Rightarrow> int" where
  "day_number y m d = 365 * (y - 1970) + leaps_before y - leaps_before 1970 + (\<Sum>k<m. days_in_month y k) + (d - 1)"

lemma c_div_pos: "0 \<le> a \<Longrightarrow> 0 < b \<Longrightarrow> c_div a b = a div b"
  by (auto simp: c_div_def sgn_if)

lemma c_mod_pos: "0 \<le> a \<Longrightarrow> 0 < b \<Longrightarrow> c_mod a b = a mod b"
  by (simp add: c_mod_def c_div_pos minus_mult_div_eq_mod)

lemma is_leap_year_leap: "0 \<le> y \<Longrightarrow> is_leap_year y = (if leap y then 1 else 0)"
  unfolding is_leap_year_def leap_def using c_mod_pos [of y] by (simp add: mod_eq_0_iff_dvd)

lemma div_step: "0 < n \<Longrightarrow> (y::int) div n = (y - 1) div n + (if n dvd y then 1 else 0)"
proof -
  assume n: "0 < n"
  have y: "y = n * (y div n) + y mod n" by simp
  have m: "0 \<le> y mod n" "y mod n < n" using n by simp_all
  show ?thesis
  proof (cases "n dvd y")
    case True
    then have "(y - 1) div n = y div n - 1"
      using n y by (intro int_div_pos_eq [of _ _ _ "n - 1"]) (auto simp: algebra_simps dvd_eq_mod_eq_0)
    then show ?thesis using True by simp
  next
    case False
    then have "y mod n \<noteq> 0" by (simp add: dvd_eq_mod_eq_0)
    then have "(y - 1) div n = y div n" using m y by (intro int_div_pos_eq [of _ _ _ "y mod n - 1"]) auto
    then show ?thesis using False by simp
  qed
qed

lemma count_steps:
  "A = a + (if p then 1 else 0) \<Longrightarrow> B = b + (if q then 1 else 0) \<Longrightarrow> C = c + (if r then 1 else 0) \<Longrightarrow>
    (q \<Longrightarrow> p) \<Longrightarrow> (r \<Longrightarrow> q) \<Longrightarrow> A - B + C = a - b + c + (if p \<and> (q \<longrightarrow> r) then 1 else (0::int))"
  by (cases p; cases q; cases r; simp)

lemma leaps_before_Suc: "leaps_before (y + 1) = leaps_before y + (if leap y then 1 else 0)"
proof -
  have "(4::int) dvd 100" "(100::int) dvd 400" by simp_all
  then have d: "100 dvd y \<Longrightarrow> 4 dvd y" "400 dvd y \<Longrightarrow> 100 dvd y" using dvd_trans by blast+
  have "y + 1 - 1 = y" by simp
  then show ?thesis unfolding leaps_before_def leap_def
    by (simp only:) (rule count_steps [OF div_step div_step div_step d], simp_all only: zero_less_numeral)
qed

lemma year_loop_correct:
  assumes "0 \<le> days" and "0 \<le> year" and "year_loop year days = (y, r)"
  shows "0 \<le> r \<and> r < 365 + is_leap_year y \<and> year \<le> y \<and> 365 * y + leaps_before y + r = 365 * year + leaps_before year + days"
  using assms
proof (induction year days rule: year_loop.induct)
  case (1 year days)
  show ?case
  proof (cases "365 + is_leap_year year > days")
    case True
    then show ?thesis using "1.prems" by (subst (asm) year_loop.simps) auto
  next
    case False
    then have "year_loop (year + 1) (days - (365 + is_leap_year year)) = (y, r)" using "1.prems" by (subst (asm) year_loop.simps) (simp add: Let_def)
    from "1.IH" [OF refl False _ _ this] False "1.prems"(2)
    have "0 \<le> r \<and> r < 365 + is_leap_year y \<and> year + 1 \<le> y \<and>
        365 * y + leaps_before y + r = 365 * (year + 1) + leaps_before (year + 1) + (days - (365 + is_leap_year year))" by simp
    moreover have "leaps_before (year + 1) = leaps_before year + is_leap_year year"
      using leaps_before_Suc [of year] is_leap_year_leap [OF "1.prems"(2)] by (simp only:)
    ultimately show ?thesis by simp
  qed
qed

lemma month_loop_correct:
  "mon \<le> length mdays \<Longrightarrow> 0 \<le> days \<Longrightarrow> days < sum_list (drop mon mdays) \<Longrightarrow> (\<And>d. d \<in> set mdays \<Longrightarrow> 0 \<le> d) \<Longrightarrow>
    \<exists>m r. month_loop mdays mon days = Some (m, r) \<and> m < length mdays \<and> 0 \<le> r \<and> r < mdays ! m \<and>
      days + (\<Sum>k<mon. mdays ! k) = (\<Sum>k<m. mdays ! k) + r"
proof (induction mdays mon days rule: month_loop.induct)
  case (1 mdays mon days)
  have lt: "mon < length mdays" using "1.prems"(1-3) by (cases "mon = length mdays") auto
  show ?case
  proof (cases "mdays ! mon \<le> days")
    case True
    have "days - mdays ! mon < sum_list (drop (mon + 1) mdays)"
      using "1.prems"(3) lt by (simp add: Cons_nth_drop_Suc [symmetric])
    from "1.IH" [OF lt True _ _ this] lt True "1.prems"(4) obtain m r where
      "month_loop mdays (mon + 1) (days - mdays ! mon) = Some (m, r)" "m < length mdays" "0 \<le> r" "r < mdays ! m"
      "days - mdays ! mon + (\<Sum>k<mon + 1. mdays ! k) = (\<Sum>k<m. mdays ! k) + r" by auto
    then show ?thesis using lt True by (subst month_loop.simps) simp
  next
    case False
    then show ?thesis using lt "1.prems"(2) by (subst month_loop.simps) simp
  qed
qed

lemma month_days_nth: "0 \<le> y \<Longrightarrow> m < 12 \<Longrightarrow> month_days y ! m = days_in_month y m"
  by (auto simp: month_days_def days_in_month_def is_leap_year_leap less_Suc_eq numeral_eq_Suc)

text \<open>
  C28. For a local time that is not before 1970 (and whose year fits in an \<^verbatim>\<open>int\<close>) the function returns, stays inside the table of months, and gives the
  date and time of the proleptic Gregorian calendar: a valid month, day, hour, minute and second that denote exactly that time,
  with the day of the week counted from Sunday.
\<close>

theorem nolocks_localtime_calendar:
  assumes "0 \<le> t - tz + 3600 * dst" and "t - tz + 3600 * dst < 2 ^ 55"
  shows "\<exists>r. nolocks_localtime t tz dst = Some r \<and>
    86400 * day_number (tm_year r + 1900) (tm_mon r) (tm_mday r) + 3600 * tm_hour r + 60 * tm_min r + tm_sec r = t - tz + 3600 * dst \<and>
    tm_mon r < 12 \<and> 1 \<le> tm_mday r \<and> tm_mday r \<le> days_in_month (tm_year r + 1900) (tm_mon r) \<and>
    0 \<le> tm_hour r \<and> tm_hour r < 24 \<and> 0 \<le> tm_min r \<and> tm_min r < 60 \<and> 0 \<le> tm_sec r \<and> tm_sec r < 60 \<and>
    tm_wday r = (day_number (tm_year r + 1900) (tm_mon r) (tm_mday r) + 4) mod 7 \<and>
    tm_yday r = day_number (tm_year r + 1900) (tm_mon r) (tm_mday r) - day_number (tm_year r + 1900) 0 1 \<and>
    tm_year r \<le> INT32_MAX"
proof -
  define T where "T = t - tz + 3600 * dst"
  define D where "D = T div 86400"
  define S where "S = T mod 86400"
  have T: "0 \<le> T" "T < 2 ^ 55" "T = 86400 * D + S" "0 \<le> S" "S < 86400" "0 \<le> D" using assms by (simp_all add: T_def D_def S_def)
  obtain y r where yl: "year_loop 1970 D = (y, r)" by fastforce
  have y: "0 \<le> r" "r < 365 + is_leap_year y" "1970 \<le> y" "365 * y + leaps_before y + r = 365 * 1970 + leaps_before 1970 + D"
    using year_loop_correct [OF T(6) _ yl] by auto
  have md: "sum_list (month_days y) = 365 + is_leap_year y" "length (month_days y) = 12" "\<And>d. d \<in> set (month_days y) \<Longrightarrow> 0 \<le> d"
    using is_leap_year_01 [of y] by (auto simp: month_days_def)
  obtain m d where ml: "month_loop (month_days y) 0 r = Some (m, d)" "m < 12" "0 \<le> d" "d < month_days y ! m" "r = (\<Sum>k<m. month_days y ! k) + d"
    using month_loop_correct [of 0 "month_days y" r] y(1,2) md by auto
  have sum: "(\<Sum>k<m. month_days y ! k) = (\<Sum>k<m. days_in_month y k)" using ml(2) y(3) by (intro sum.cong) (auto simp: month_days_nth)
  have dn: "day_number y m (d + 1) = D" "day_number y m (d + 1) - day_number y 0 1 = r"
    using y(4) ml(5) sum by (simp_all add: day_number_def)
  have "leaps_before 1970 = 477" "0 \<le> leaps_before y" using y(3) zdiv_mono2 [of "y - 1" 4 100] by (simp_all add: leaps_before_def)
  then have year: "y \<le> INT32_MAX" using y T by simp
  have res: "nolocks_localtime t tz dst = Some \<lparr>tm_sec = S mod 3600 mod 60, tm_min = S mod 3600 div 60, tm_hour = S div 3600, tm_mday = d + 1,
      tm_mon = m, tm_year = y - 1900, tm_wday = (D + 4) mod 7, tm_yday = r, tm_isdst = dst\<rparr>"
    unfolding nolocks_localtime_def Let_def T_def [symmetric] using T(1,4,6) yl ml(1)
    by (simp add: c_div_pos c_mod_pos D_def [symmetric] S_def [symmetric])
  have secs: "3600 * (S div 3600) + 60 * (S mod 3600 div 60) + S mod 3600 mod 60 = S" by simp
  have hour: "S div 3600 < 24" using T(5) by simp
  have "d + 1 \<le> days_in_month y m" using ml(2,4) y(3) by (simp add: month_days_nth)
  then show ?thesis unfolding res T_def [symmetric] using T(3,4) dn secs hour year ml(2,3) y(3) by (simp add: pos_imp_zdiv_nonneg_iff)
qed

theorem nolocks_localtime_calendar_witness:
  "\<exists>r. nolocks_localtime 951782399 (- 3600) 0 = Some r \<and> tm_mon r < 12 \<and> tm_hour r < 24"
  using nolocks_localtime_calendar [of 951782399 "- 3600" 0] by auto

end
