(* ===== verification/Pqsort.thy ===== *)
theory Pqsort
  imports Prelude
begin

text \<open>
  The partial quicksort of \<^verbatim>\<open>pqsort.c\<close>. The array is a list of elements, a pointer into it an integer index, so that
  \<^verbatim>\<open>p + es\<close> is \<open>p + 1\<close>; an access outside the array is \<open>None\<close>. Exchanging two elements word by word or byte by byte
  (\<^verbatim>\<open>swaptype\<close>) is one exchange of the list. The range to sort is given by byte offsets, as in the code, with the element size \<open>es\<close>.
\<close>

subsection \<open>Access\<close>

definition get_elem :: "'a list \<Rightarrow> int \<Rightarrow> 'a option" where
  "get_elem xs i = (if 0 \<le> i \<and> i < int (length xs) then Some (xs ! nat i) else None)"

definition cmp_at :: "('a \<Rightarrow> 'a \<Rightarrow> int) \<Rightarrow> 'a list \<Rightarrow> int \<Rightarrow> int \<Rightarrow> int option" where
  "cmp_at cmp xs i j = do { x \<leftarrow> get_elem xs i; y \<leftarrow> get_elem xs j; Some (cmp x y) }"

definition swap_elem :: "'a list \<Rightarrow> int \<Rightarrow> int \<Rightarrow> 'a list option" where
  "swap_elem xs i j = do { x \<leftarrow> get_elem xs i; y \<leftarrow> get_elem xs j; Some (xs[nat i := y, nat j := x]) }"

primrec vecswap :: "'a list \<Rightarrow> int \<Rightarrow> int \<Rightarrow> nat \<Rightarrow> 'a list option" where
  "vecswap xs i j 0 = Some xs"
| "vecswap xs i j (Suc n) = do { xs \<leftarrow> swap_elem xs i j; vecswap xs (i + 1) (j + 1) n }"

definition med3 :: "('a \<Rightarrow> 'a \<Rightarrow> int) \<Rightarrow> 'a list \<Rightarrow> int \<Rightarrow> int \<Rightarrow> int \<Rightarrow> int option" where
  "med3 cmp xs a b c =
     do { ab \<leftarrow> cmp_at cmp xs a b;
          bc \<leftarrow> cmp_at cmp xs b c;
          if ab < 0 then
            if bc < 0 then Some b else do { ac \<leftarrow> cmp_at cmp xs a c; Some (if ac < 0 then c else a) }
          else
            if bc > 0 then Some b else do { ac \<leftarrow> cmp_at cmp xs a c; Some (if ac < 0 then a else c) } }"

subsection \<open>Insertion sort of short segments\<close>

function insert_loop :: "('a \<Rightarrow> 'a \<Rightarrow> int) \<Rightarrow> 'a list \<Rightarrow> int \<Rightarrow> int \<Rightarrow> 'a list option" where
  "insert_loop cmp xs a pl =
     (if pl > a then
        do { c \<leftarrow> cmp_at cmp xs (pl - 1) pl;
             if c > 0 then do { xs \<leftarrow> swap_elem xs pl (pl - 1); insert_loop cmp xs a (pl - 1) } else Some xs }
      else Some xs)"
  by auto
termination by (relation "measure (\<lambda>(cmp, xs, a, pl). nat (pl - a))") auto

function isort_loop :: "('a \<Rightarrow> 'a \<Rightarrow> int) \<Rightarrow> 'a list \<Rightarrow> int \<Rightarrow> int \<Rightarrow> int \<Rightarrow> 'a list option" where
  "isort_loop cmp xs a e pm =
     (if pm < e then do { xs \<leftarrow> insert_loop cmp xs a pm; isort_loop cmp xs a e (pm + 1) } else Some xs)"
  by auto
termination by (relation "measure (\<lambda>(cmp, xs, a, e, pm). nat (e - pm))") auto

subsection \<open>Partition\<close>

function lower_loop :: "('a \<Rightarrow> 'a \<Rightarrow> int) \<Rightarrow> 'a list \<Rightarrow> int \<Rightarrow> int \<Rightarrow> int \<Rightarrow> int \<Rightarrow> ('a list \<times> int \<times> int) option" where
  "lower_loop cmp xs a pa pb pc =
     (if pb \<le> pc then
        do { cmp_result \<leftarrow> cmp_at cmp xs pb a;
             if cmp_result \<le> 0 then
               if cmp_result = 0 then do { xs \<leftarrow> swap_elem xs pa pb; lower_loop cmp xs a (pa + 1) (pb + 1) pc }
               else lower_loop cmp xs a pa (pb + 1) pc
             else Some (xs, pa, pb) }
      else Some (xs, pa, pb))"
  by auto
termination by (relation "measure (\<lambda>(cmp, xs, a, pa, pb, pc). nat (pc + 1 - pb))") auto

function upper_loop :: "('a \<Rightarrow> 'a \<Rightarrow> int) \<Rightarrow> 'a list \<Rightarrow> int \<Rightarrow> int \<Rightarrow> int \<Rightarrow> int \<Rightarrow> ('a list \<times> int \<times> int) option" where
  "upper_loop cmp xs a pb pc pd =
     (if pb \<le> pc then
        do { cmp_result \<leftarrow> cmp_at cmp xs pc a;
             if cmp_result \<ge> 0 then
               if cmp_result = 0 then do { xs \<leftarrow> swap_elem xs pc pd; upper_loop cmp xs a pb (pc - 1) (pd - 1) }
               else upper_loop cmp xs a pb (pc - 1) pd
             else Some (xs, pc, pd) }
      else Some (xs, pc, pd))"
  by auto
termination by (relation "measure (\<lambda>(cmp, xs, a, pb, pc, pd). nat (pc + 1 - pb))") auto

declare insert_loop.simps [simp del] isort_loop.simps [simp del] lower_loop.simps [simp del] upper_loop.simps [simp del]

partial_function (option) part_loop ::
  "('a \<Rightarrow> 'a \<Rightarrow> int) \<Rightarrow> 'a list \<Rightarrow> int \<Rightarrow> int \<Rightarrow> int \<Rightarrow> int \<Rightarrow> int \<Rightarrow> ('a list \<times> int \<times> int \<times> int \<times> int) option" where
  "part_loop cmp xs a pa pb pc pd =
     do { (xs, pa, pb) \<leftarrow> lower_loop cmp xs a pa pb pc;
          (xs, pc, pd) \<leftarrow> upper_loop cmp xs a pb pc pd;
          if pb > pc then Some (xs, pa, pb, pc, pd)
          else do { xs \<leftarrow> swap_elem xs pb pc; part_loop cmp xs a pa (pb + 1) (pc - 1) pd } }"

subsection \<open>The sort\<close>

definition pivot :: "('a \<Rightarrow> 'a \<Rightarrow> int) \<Rightarrow> 'a list \<Rightarrow> int \<Rightarrow> int \<Rightarrow> int option" where
  "pivot cmp xs a n =
     (let pm = a + n div 2
      in if n > 7 then
           let pl = a; pn = a + (n - 1)
           in do {
             (pl, pm, pn) \<leftarrow>
               (if n > 40 then
                  let d = n div 8
                  in do { pl \<leftarrow> med3 cmp xs pl (pl + d) (pl + 2 * d);
                          pm \<leftarrow> med3 cmp xs (pm - d) pm (pm + d);
                          pn \<leftarrow> med3 cmp xs (pn - 2 * d) (pn - d) pn;
                          Some (pl, pm, pn) }
                else Some (pl, pm, pn));
             med3 cmp xs pl pm pn }
         else Some pm)"

text \<open>Neither end of the range lies in the segment or on both sides of it, in bytes.\<close>

definition out_of_range :: "int \<Rightarrow> int \<Rightarrow> int \<Rightarrow> int \<Rightarrow> int \<Rightarrow> bool" where
  "out_of_range es lrange rrange a r =
     (let l' = a * es; r' = a * es + r * es - 1
      in (lrange < l' \<and> rrange < l') \<or> (lrange > r' \<and> rrange > r'))"

partial_function (option) pqsort_seg ::
  "('a \<Rightarrow> 'a \<Rightarrow> int) \<Rightarrow> int \<Rightarrow> int \<Rightarrow> int \<Rightarrow> 'a list \<Rightarrow> int \<Rightarrow> int \<Rightarrow> 'a list option" where
  "pqsort_seg cmp es lrange rrange xs a n =
     (if n < 7 then isort_loop cmp xs a (a + n) (a + 1)
      else do {
        pm \<leftarrow> pivot cmp xs a n;
        xs \<leftarrow> swap_elem xs a pm;
        (xs, pa, pb, pc, pd) \<leftarrow> part_loop cmp xs a (a + 1) (a + 1) (a + (n - 1)) (a + (n - 1));
        let pn = a + n;
        let r = min (pa - a) (pb - pa);
        xs \<leftarrow> vecswap xs a (pb - r) (nat r);
        let r = min (pd - pc) (pn - pd - 1);
        xs \<leftarrow> vecswap xs pb (pn - r) (nat r);
        xs \<leftarrow> (if pb - pa > 1 \<and> \<not> out_of_range es lrange rrange a (pb - pa) then pqsort_seg cmp es lrange rrange xs a (pb - pa)
               else Some xs);
        let r = pd - pc;
        if r > 1 \<and> \<not> out_of_range es lrange rrange (pn - r) r then pqsort_seg cmp es lrange rrange xs (pn - r) r
        else Some xs })"

declare part_loop.simps [code] pqsort_seg.simps [code]

definition pqsort :: "('a \<Rightarrow> 'a \<Rightarrow> int) \<Rightarrow> int \<Rightarrow> 'a list \<Rightarrow> nat \<Rightarrow> nat \<Rightarrow> nat \<Rightarrow> 'a list option" where
  "pqsort cmp es xs n lrange rrange = pqsort_seg cmp es (int lrange * es) ((int rrange + 1) * es - 1) xs 0 (int n)"

end
