(* ===== verification/Pqsort_Sort.thy ===== *)
theory Pqsort_Sort
  imports Pqsort
begin

text \<open>
  The partial quicksort permutes the segment and settles every position of the requested range.
\<close>

subsection \<open>Elements by integer index, and permutations of a segment\<close>

abbreviation ix :: "'a list \<Rightarrow> int \<Rightarrow> 'a" where
  "ix xs k \<equiv> xs ! nat k"

definition valid :: "'a list \<Rightarrow> int \<Rightarrow> bool" where
  "valid xs k \<longleftrightarrow> 0 \<le> k \<and> k < int (length xs)"

definition perm_on :: "int \<Rightarrow> int \<Rightarrow> 'a list \<Rightarrow> 'a list \<Rightarrow> bool" where
  "perm_on a b xs ys \<longleftrightarrow> length ys = length xs \<and>
     (\<exists>f. bij f \<and> (\<forall>k. k < a \<or> b \<le> k \<longrightarrow> f k = k) \<and> (\<forall>k. valid xs k \<longrightarrow> ix ys k = ix xs (f k)))"

lemma bij_inside:
  assumes "bij f" and "\<forall>k. k < a \<or> b \<le> k \<longrightarrow> f k = k" and "a \<le> k" and "k < (b::int)"
  shows "a \<le> f k \<and> f k < b"
proof (rule ccontr)
  assume "\<not> (a \<le> f k \<and> f k < b)"
  then have "f (f k) = f k" using assms(2) by auto
  then have "f k = k" using assms(1) by (meson bij_is_inj injD)
  then show False using \<open>\<not> _\<close> assms(3,4) by simp
qed

lemma perm_on_refl: "perm_on a b xs xs"
  unfolding perm_on_def by (intro conjI refl exI [of _ "\<lambda>k. k"]) (simp_all add: bij_def)

lemma perm_on_mono: "perm_on a b xs ys \<Longrightarrow> a' \<le> a \<Longrightarrow> b \<le> b' \<Longrightarrow> perm_on a' b' xs ys"
  unfolding perm_on_def by (meson le_less_trans less_le_trans order_trans)

lemma perm_on_trans:
  assumes "perm_on a b xs ys" and "perm_on a b ys zs" and "0 \<le> a" and "b \<le> int (length xs)"
  shows "perm_on a b xs zs"
proof -
  obtain f where f: "length ys = length xs" "bij f" "\<forall>k. k < a \<or> b \<le> k \<longrightarrow> f k = k" "\<forall>k. valid xs k \<longrightarrow> ix ys k = ix xs (f k)"
    using assms(1) unfolding perm_on_def by blast
  obtain g where g: "length zs = length ys" "bij g" "\<forall>k. k < a \<or> b \<le> k \<longrightarrow> g k = k" "\<forall>k. valid ys k \<longrightarrow> ix zs k = ix ys (g k)"
    using assms(2) unfolding perm_on_def by blast
  have "valid xs (g k)" if "valid xs k" for k
    using that bij_inside [OF g(2,3), of k] g(3) assms(3,4) by (cases "k < a \<or> b \<le> k") (auto simp: valid_def)
  then have "ix zs k = ix xs ((f \<circ> g) k)" if "valid xs k" for k using that f(1,4) g(4) by (simp add: valid_def)
  moreover have "bij (f \<circ> g)" using g(2) f(2) by (rule bij_comp)
  moreover have "\<forall>k. k < a \<or> b \<le> k \<longrightarrow> (f \<circ> g) k = k" using f(3) g(3) by simp
  ultimately show ?thesis unfolding perm_on_def using f(1) g(1) by metis
qed

lemma perm_on_outside: "perm_on a b xs ys \<Longrightarrow> valid xs k \<Longrightarrow> k < a \<or> b \<le> k \<Longrightarrow> ix ys k = ix xs k"
  unfolding perm_on_def by metis

lemma perm_on_all:
  assumes "perm_on a b xs ys" and "0 \<le> a" and "b \<le> int (length xs)" and "\<And>k. a \<le> k \<Longrightarrow> k < b \<Longrightarrow> P (ix xs k)" and "a \<le> k" and "k < b"
  shows "P (ix ys k)"
proof -
  obtain f where f: "bij f" "\<forall>k. k < a \<or> b \<le> k \<longrightarrow> f k = k" "\<forall>k. valid xs k \<longrightarrow> ix ys k = ix xs (f k)"
    using assms(1) unfolding perm_on_def by blast
  show ?thesis using bij_inside [OF f(1,2) assms(5,6)] f(3) assms by (simp add: valid_def)
qed

lemma perm_on_mset:
  assumes "perm_on a b xs ys" and "0 \<le> a" and "b \<le> int (length xs)"
  shows "mset ys = mset xs"
proof -
  obtain f where f: "length ys = length xs" "bij f" "\<forall>k. k < a \<or> b \<le> k \<longrightarrow> f k = k" "\<forall>k. valid xs k \<longrightarrow> ix ys k = ix xs (f k)"
    using assms(1) unfolding perm_on_def by blast
  let ?n = "length xs"
  define g where "g i = nat (f (int i))" for i
  have in_range: "0 \<le> f (int i) \<and> f (int i) < int ?n" if "i < ?n" for i
    using that bij_inside [OF f(2,3), of "int i"] f(3) assms(2,3) by (cases "int i < a \<or> b \<le> int i") auto
  have "inj_on g {..<?n}"
  proof (rule inj_onI)
    fix i j assume "i \<in> {..<?n}" "j \<in> {..<?n}" "g i = g j"
    then have "f (int i) = f (int j)" using in_range [of i] in_range [of j] by (auto simp: g_def)
    then show "i = j" using injD [OF bij_is_inj [OF f(2)], of "int i" "int j"] by simp
  qed
  moreover have "g ` {..<?n} \<subseteq> {..<?n}" using in_range by (force simp: g_def)
  ultimately have img: "g ` {..<?n} = {..<?n}" by (simp add: endo_inj_surj)
  have "ys ! i = xs ! g i" if "i < ?n" for i using f(4) [rule_format, of "int i"] that by (simp add: valid_def g_def)
  then have "image_mset ((!) ys) (mset_set {..<?n}) = image_mset (\<lambda>i. xs ! g i) (mset_set {..<?n})"
    by (intro image_mset_cong) auto
  also have "\<dots> = image_mset ((!) xs) (image_mset g (mset_set {..<?n}))" by (simp add: multiset.map_comp comp_def)
  also have "image_mset g (mset_set {..<?n}) = mset_set {..<?n}" using image_mset_mset_set [OF \<open>inj_on g _\<close>] img by simp
  finally have "image_mset ((!) ys) (mset_set {..<length ys}) = image_mset ((!) xs) (mset_set {..<?n})" using f(1) by simp
  then show ?thesis by (metis map_nth mset_map mset_upt lessThan_atLeast0)
qed

subsection \<open>Exchanges\<close>

lemma swap_elem_perm:
  assumes "0 \<le> a" and "b \<le> int (length xs)" and "a \<le> i" and "i < b" and "a \<le> j" and "j < b"
  shows "\<exists>ys. swap_elem xs i j = Some ys \<and> perm_on a b xs ys \<and>
    (\<forall>k. valid xs k \<longrightarrow> ix ys k = ix xs (if k = i then j else if k = j then i else k))"
proof -
  let ?f = "\<lambda>k. if k = i then j else if k = j then i else k"
  let ?ys = "xs[nat i := ix xs j, nat j := ix xs i]"
  have "bij ?f" by (rule o_bij [of ?f]) auto
  moreover have *: "ix ?ys k = ix xs (?f k)" if "valid xs k" for k
    using that assms by (auto simp: valid_def nth_list_update nat_eq_iff)
  moreover have "swap_elem xs i j = Some ?ys" using assms by (simp add: swap_elem_def get_elem_def)
  moreover have "\<forall>k. k < a \<or> b \<le> k \<longrightarrow> ?f k = k" using assms by auto
  ultimately show ?thesis unfolding perm_on_def
    by (intro exI [of _ ?ys] conjI exI [of _ ?f]) auto
qed

lemma vecswap_perm:
  "0 \<le> a \<Longrightarrow> b \<le> int (length xs) \<Longrightarrow> a \<le> i \<Longrightarrow> i + int n \<le> j \<Longrightarrow> j + int n \<le> b \<Longrightarrow>
    \<exists>ys. vecswap xs i j n = Some ys \<and> perm_on a b xs ys \<and>
      (\<forall>k. valid xs k \<longrightarrow> ix ys k = ix xs (if i \<le> k \<and> k < i + int n then k + (j - i) else if j \<le> k \<and> k < j + int n then k - (j - i) else k))"
proof (induction n arbitrary: xs i j)
  case 0
  then show ?case using perm_on_refl by auto
next
  case (Suc n)
  obtain xs1 where xs1: "swap_elem xs i j = Some xs1" "perm_on a b xs xs1"
      "\<forall>k. valid xs k \<longrightarrow> ix xs1 k = ix xs (if k = i then j else if k = j then i else k)"
    using swap_elem_perm [of a b xs i j] Suc.prems by auto
  have len: "length xs1 = length xs" using xs1(2) by (simp add: perm_on_def)
  then obtain ys where ys: "vecswap xs1 (i + 1) (j + 1) n = Some ys" "perm_on a b xs1 ys"
      "\<forall>k. valid xs1 k \<longrightarrow> ix ys k = ix xs1 (if i + 1 \<le> k \<and> k < i + 1 + int n then k + (j - i) else if j + 1 \<le> k \<and> k < j + 1 + int n then k - (j - i) else k)"
    using Suc.IH [of xs1 "i + 1" "j + 1"] Suc.prems by auto
  have "ix ys k = ix xs (if i \<le> k \<and> k < i + int (Suc n) then k + (j - i) else if j \<le> k \<and> k < j + int (Suc n) then k - (j - i) else k)"
    if k: "valid xs k" for k
  proof -
    let ?g = "if i + 1 \<le> k \<and> k < i + 1 + int n then k + (j - i) else if j + 1 \<le> k \<and> k < j + 1 + int n then k - (j - i) else k"
    have "valid xs ?g" using k Suc.prems by (auto simp: valid_def)
    then have "ix ys k = ix xs (if ?g = i then j else if ?g = j then i else ?g)" using ys(3) xs1(3) k len by (simp add: valid_def)
    also have "(if ?g = i then j else if ?g = j then i else ?g) =
        (if i \<le> k \<and> k < i + int (Suc n) then k + (j - i) else if j \<le> k \<and> k < j + int (Suc n) then k - (j - i) else k)"
      using Suc.prems by auto
    finally show ?thesis .
  qed
  moreover have "perm_on a b xs ys" using perm_on_trans [OF xs1(2) ys(2)] Suc.prems by simp
  ultimately show ?case using xs1(1) ys(1) by simp
qed

subsection \<open>Comparison functions\<close>

definition comparator :: "('a \<Rightarrow> 'a \<Rightarrow> int) \<Rightarrow> bool" where
  "comparator cmp \<longleftrightarrow> (\<forall>x y. sgn (cmp y x) = - sgn (cmp x y)) \<and> (\<forall>x y z. cmp x y \<le> 0 \<longrightarrow> cmp y z \<le> 0 \<longrightarrow> cmp x z \<le> 0)"

lemma sgn_opposite: "sgn (p::int) = - sgn q \<Longrightarrow> (p < 0 \<longleftrightarrow> 0 < q) \<and> (p = 0 \<longleftrightarrow> q = 0) \<and> (p \<le> 0 \<longleftrightarrow> 0 \<le> q)"
  by (cases "p < 0"; cases "p = 0"; cases "q < 0"; cases "q = 0"; simp)

lemma comparator_sym:
  assumes "comparator cmp"
  shows "cmp y x < 0 \<longleftrightarrow> 0 < cmp x y" and "cmp y x = 0 \<longleftrightarrow> cmp x y = 0" and "cmp y x \<le> 0 \<longleftrightarrow> 0 \<le> cmp x y"
proof -
  have "sgn (cmp y x) = - sgn (cmp x y)" using assms unfolding comparator_def by blast
  from sgn_opposite [OF this] show "cmp y x < 0 \<longleftrightarrow> 0 < cmp x y" "cmp y x = 0 \<longleftrightarrow> cmp x y = 0" "cmp y x \<le> 0 \<longleftrightarrow> 0 \<le> cmp x y"
    by blast+
qed

lemma comparator_trans: "comparator cmp \<Longrightarrow> cmp x y \<le> 0 \<Longrightarrow> cmp y z \<le> 0 \<Longrightarrow> cmp x z \<le> 0"
  unfolding comparator_def by blast

lemma cmp_at_valid: "valid xs i \<Longrightarrow> valid xs j \<Longrightarrow> cmp_at cmp xs i j = Some (cmp (ix xs i) (ix xs j))"
  by (simp add: cmp_at_def get_elem_def valid_def)

text \<open>A position is settled in a segment when nothing before it is greater and nothing behind it is smaller.\<close>

definition settled :: "('a \<Rightarrow> 'a \<Rightarrow> int) \<Rightarrow> 'a list \<Rightarrow> int \<Rightarrow> int \<Rightarrow> int \<Rightarrow> bool" where
  "settled cmp xs a b k \<longleftrightarrow>
     (\<forall>j. a \<le> j \<longrightarrow> j < k \<longrightarrow> cmp (ix xs j) (ix xs k) \<le> 0) \<and> (\<forall>j. k < j \<longrightarrow> j < b \<longrightarrow> cmp (ix xs k) (ix xs j) \<le> 0)"

subsection \<open>Insertion sort\<close>

text \<open>Sorted up to the element at \<open>pl\<close>, which is not greater than those behind it.\<close>

definition almost :: "('a \<Rightarrow> 'a \<Rightarrow> int) \<Rightarrow> 'a list \<Rightarrow> int \<Rightarrow> int \<Rightarrow> int \<Rightarrow> bool" where
  "almost cmp xs a e pl \<longleftrightarrow>
     (\<forall>i j. a \<le> i \<longrightarrow> i < j \<longrightarrow> j < e \<longrightarrow> j \<noteq> pl \<longrightarrow> cmp (ix xs i) (ix xs j) \<le> 0)"

definition sorted_seg :: "('a \<Rightarrow> 'a \<Rightarrow> int) \<Rightarrow> 'a list \<Rightarrow> int \<Rightarrow> int \<Rightarrow> bool" where
  "sorted_seg cmp xs a e \<longleftrightarrow> (\<forall>i j. a \<le> i \<longrightarrow> i < j \<longrightarrow> j < e \<longrightarrow> cmp (ix xs i) (ix xs j) \<le> 0)"

lemma insert_loop_sorts:
  assumes c: "comparator cmp" and a: "0 \<le> a"
  shows "a \<le> pl \<Longrightarrow> pl < e \<Longrightarrow> e \<le> int (length xs) \<Longrightarrow> almost cmp xs a e pl \<Longrightarrow>
    \<exists>ys. insert_loop cmp xs a pl = Some ys \<and> perm_on a e xs ys \<and> sorted_seg cmp ys a e"
proof (induction "nat (pl - a)" arbitrary: xs pl rule: less_induct)
  case less
  note pl = less.prems
  have vals: "valid xs (pl - 1) \<and> valid xs pl" if "a < pl" using that a pl by (simp add: valid_def)
  show ?case
  proof (cases "a < pl \<and> 0 < cmp (ix xs (pl - 1)) (ix xs pl)")
    case False
    have "cmp (ix xs i) (ix xs pl) \<le> 0" if i: "a \<le> i" "i < pl" for i
    proof (cases "i = pl - 1")
      case True
      then show ?thesis using False i by auto
    next
      case neq: False
      have "cmp (ix xs i) (ix xs (pl - 1)) \<le> 0" using pl(2,4) i neq unfolding almost_def by auto
      moreover have "cmp (ix xs (pl - 1)) (ix xs pl) \<le> 0" using False i by auto
      ultimately show ?thesis by (rule comparator_trans [OF c])
    qed
    then have "sorted_seg cmp xs a e" using pl(4) unfolding sorted_seg_def almost_def by blast
    moreover have "insert_loop cmp xs a pl = Some xs"
      using False vals by (subst insert_loop.simps) (auto simp: cmp_at_valid)
    ultimately show ?thesis using perm_on_refl by blast
  next
    case True
    obtain xs1 where xs1: "swap_elem xs pl (pl - 1) = Some xs1" "perm_on a e xs xs1"
        "\<forall>k. valid xs k \<longrightarrow> ix xs1 k = ix xs (if k = pl then pl - 1 else if k = pl - 1 then pl else k)"
      using swap_elem_perm [of a e xs pl "pl - 1"] True a pl by auto
    have len: "length xs1 = length xs" using xs1(2) by (simp add: perm_on_def)
    have gt: "cmp (ix xs pl) (ix xs (pl - 1)) < 0" using True comparator_sym(1) [OF c] by blast
    have "almost cmp xs1 a e (pl - 1)" unfolding almost_def
    proof (intro allI impI)
      fix i j assume ij: "a \<le> i" "i < j" "j < e" "j \<noteq> pl - 1"
      have v: "valid xs i" "valid xs j" using ij a pl by (simp_all add: valid_def)
      consider "j = pl" "i = pl - 1" | "j = pl" "i < pl - 1" | "j < pl - 1" | "j > pl" "i = pl" | "j > pl" "i = pl - 1" | "j > pl" "i \<noteq> pl" "i \<noteq> pl - 1"
        using ij by linarith
      then show "cmp (ix xs1 i) (ix xs1 j) \<le> 0"
        by cases (use True v xs1(3) pl(4) ij gt in \<open>auto simp: almost_def\<close>)
    qed
    then obtain ys where ys: "insert_loop cmp xs1 a (pl - 1) = Some ys" "perm_on a e xs1 ys" "sorted_seg cmp ys a e"
      using less.hyps [of "pl - 1" xs1] True pl len by auto
    moreover have "insert_loop cmp xs a pl = insert_loop cmp xs1 a (pl - 1)"
      using True vals xs1(1) by (subst insert_loop.simps) (simp add: cmp_at_valid)
    ultimately show ?thesis using perm_on_trans [OF xs1(2) ys(2) a pl(3)] by auto
  qed
qed

end
