(* ===== verification/Pqsort_Spec.thy ===== *)
theory Pqsort_Spec
  imports Pqsort_Sort
begin

text \<open>
  The partition and the whole partial sort.
\<close>

lemma isort_loop_sorts:
  assumes c: "comparator cmp" and a: "0 \<le> a"
  shows "a \<le> pm \<Longrightarrow> e \<le> int (length xs) \<Longrightarrow> sorted_seg cmp xs a pm \<Longrightarrow>
    \<exists>ys. isort_loop cmp xs a e pm = Some ys \<and> perm_on a e xs ys \<and> sorted_seg cmp ys a e"
proof (induction "nat (e - pm)" arbitrary: xs pm rule: less_induct)
  case less
  show ?case
  proof (cases "pm < e")
    case True
    have "almost cmp xs a (pm + 1) pm" using less.prems(3) by (auto simp: almost_def sorted_seg_def)
    then obtain xs1 where xs1: "insert_loop cmp xs a pm = Some xs1" "perm_on a (pm + 1) xs xs1" "sorted_seg cmp xs1 a (pm + 1)"
      using insert_loop_sorts [OF c a less.prems(1), of "pm + 1" xs] True less.prems(2) by auto
    have len: "length xs1 = length xs" using xs1(2) by (simp add: perm_on_def)
    obtain ys where ys: "isort_loop cmp xs1 a e (pm + 1) = Some ys" "perm_on a e xs1 ys" "sorted_seg cmp ys a e"
      using less.hyps [of "pm + 1" xs1] True less.prems len xs1(3) by auto
    have "perm_on a e xs xs1" using perm_on_mono [OF xs1(2), of a e] True by simp
    then have "perm_on a e xs ys" using perm_on_trans [OF _ ys(2) a less.prems(2)] by blast
    then show ?thesis using ys xs1(1) True by (subst isort_loop.simps) simp
  next
    case False
    then have "isort_loop cmp xs a e pm = Some xs" by (subst isort_loop.simps) simp
    moreover have "sorted_seg cmp xs a e" using less.prems(3) False by (auto simp: sorted_seg_def)
    ultimately show ?thesis using perm_on_refl by blast
  qed
qed

subsection \<open>Partition\<close>

text \<open>
  The segment from \<open>a\<close> to \<open>b\<close> holds, in this order: elements equal to the pivot \<open>v\<close>, smaller ones, ones not yet seen, greater ones,
  and again equal ones.
\<close>

definition part_inv :: "('a \<Rightarrow> 'a \<Rightarrow> int) \<Rightarrow> 'a \<Rightarrow> int \<Rightarrow> int \<Rightarrow> 'a list \<Rightarrow> int \<Rightarrow> int \<Rightarrow> int \<Rightarrow> int \<Rightarrow> bool" where
  "part_inv cmp v a b xs pa pb pc pd \<longleftrightarrow>
     0 \<le> a \<and> b \<le> int (length xs) \<and> a < pa \<and> pa \<le> pb \<and> pb \<le> pc + 1 \<and> pc \<le> pd \<and> pd < b \<and> ix xs a = v \<and>
     (\<forall>k. a \<le> k \<longrightarrow> k < pa \<longrightarrow> cmp (ix xs k) v = 0) \<and> (\<forall>k. pa \<le> k \<longrightarrow> k < pb \<longrightarrow> cmp (ix xs k) v < 0) \<and>
     (\<forall>k. pc < k \<longrightarrow> k \<le> pd \<longrightarrow> 0 < cmp (ix xs k) v) \<and> (\<forall>k. pd < k \<longrightarrow> k < b \<longrightarrow> cmp (ix xs k) v = 0)"

lemma part_invD:
  assumes "part_inv cmp v a b xs pa pb pc pd"
  shows "0 \<le> a" "b \<le> int (length xs)" "a < pa" "pa \<le> pb" "pb \<le> pc + 1" "pc \<le> pd" "pd < b" "ix xs a = v"
    "\<And>k. a \<le> k \<Longrightarrow> k < pa \<Longrightarrow> cmp (ix xs k) v = 0" "\<And>k. pa \<le> k \<Longrightarrow> k < pb \<Longrightarrow> cmp (ix xs k) v < 0"
    "\<And>k. pc < k \<Longrightarrow> k \<le> pd \<Longrightarrow> 0 < cmp (ix xs k) v" "\<And>k. pd < k \<Longrightarrow> k < b \<Longrightarrow> cmp (ix xs k) v = 0"
  using assms unfolding part_inv_def by blast+

text \<open>One exchange in the loops keeps the invariant for the shifted pointers.\<close>

lemma part_inv_swap:
  assumes inv: "part_inv cmp v a b xs pa pb pc pd" and ij: "a < i" "i < b" "a < j" "j < b"
    and ptrs: "a < pa'" "pa' \<le> pb'" "pb' \<le> pc' + 1" "pc' \<le> pd'" "pd' < b"
    and cond: "\<And>k x. a \<le> k \<Longrightarrow> k < b \<Longrightarrow> x = ix xs (if k = i then j else if k = j then i else k) \<Longrightarrow>
      (k < pa' \<longrightarrow> cmp x v = 0) \<and> (pa' \<le> k \<longrightarrow> k < pb' \<longrightarrow> cmp x v < 0) \<and> (pc' < k \<longrightarrow> k \<le> pd' \<longrightarrow> 0 < cmp x v) \<and> (pd' < k \<longrightarrow> cmp x v = 0)"
  shows "\<exists>ys. swap_elem xs i j = Some ys \<and> perm_on a b xs ys \<and> part_inv cmp v a b ys pa' pb' pc' pd' \<and>
    (\<forall>k. valid xs k \<longrightarrow> k \<noteq> i \<longrightarrow> k \<noteq> j \<longrightarrow> ix ys k = ix xs k)"
proof -
  note d = part_invD [OF inv]
  obtain ys where ys: "swap_elem xs i j = Some ys" "perm_on a b xs ys"
      "\<forall>k. valid xs k \<longrightarrow> ix ys k = ix xs (if k = i then j else if k = j then i else k)"
    using swap_elem_perm [OF d(1,2), of i j] ij by auto
  have len: "length ys = length xs" using ys(2) by (simp add: perm_on_def)
  have v: "valid xs k" if "a \<le> k" "k < b" for k using that d(1,2) by (simp add: valid_def)
  have "ix ys a = v" using ys(3) v [of a] ij d(8) by simp
  moreover have k: "(k < pa' \<longrightarrow> cmp (ix ys k) v = 0) \<and> (pa' \<le> k \<longrightarrow> k < pb' \<longrightarrow> cmp (ix ys k) v < 0) \<and>
      (pc' < k \<longrightarrow> k \<le> pd' \<longrightarrow> 0 < cmp (ix ys k) v) \<and> (pd' < k \<longrightarrow> cmp (ix ys k) v = 0)" if "a \<le> k" "k < b" for k
    using cond [OF that] ys(3) v [OF that] by blast
  ultimately have "part_inv cmp v a b ys pa' pb' pc' pd'"
    unfolding part_inv_def using d(1,2) ptrs len by auto
  then show ?thesis using ys by auto
qed

lemma part_inv_skip:
  assumes inv: "part_inv cmp v a b xs pa pb pc pd" and pb: "pb \<le> pc"
  shows "cmp (ix xs pb) v < 0 \<Longrightarrow> part_inv cmp v a b xs pa (pb + 1) pc pd"
    and "0 < cmp (ix xs pc) v \<Longrightarrow> part_inv cmp v a b xs pa pb (pc - 1) pd"
proof -
  have eq: "k < pb + 1 \<longleftrightarrow> k < pb \<or> k = pb" "pc - 1 < k \<longleftrightarrow> pc < k \<or> k = pc" for k :: int by auto
  show "cmp (ix xs pb) v < 0 \<Longrightarrow> part_inv cmp v a b xs pa (pb + 1) pc pd"
    using inv pb unfolding part_inv_def eq by auto
  show "0 < cmp (ix xs pc) v \<Longrightarrow> part_inv cmp v a b xs pa pb (pc - 1) pd"
    using inv pb unfolding part_inv_def eq by auto
qed

lemma lower_loop_inv:
  "part_inv cmp v a b xs pa pb pc pd \<Longrightarrow>
    \<exists>ys pa' pb'. lower_loop cmp xs a pa pb pc = Some (ys, pa', pb') \<and> perm_on a b xs ys \<and> part_inv cmp v a b ys pa' pb' pc pd \<and>
      pb \<le> pb' \<and> (pb' \<le> pc \<longrightarrow> 0 < cmp (ix ys pb') v)"
proof (induction "nat (pc + 1 - pb)" arbitrary: xs pa pb rule: less_induct)
  case less
  note d = part_invD [OF less.prems]
  show ?case
  proof (cases "pb \<le> pc")
    case False
    then have "lower_loop cmp xs a pa pb pc = Some (xs, pa, pb)" by (subst lower_loop.simps) simp
    then show ?thesis using less.prems perm_on_refl False by auto
  next
    case True
    then have c: "cmp_at cmp xs pb a = Some (cmp (ix xs pb) v)" using cmp_at_valid [of xs pb a cmp] d by (simp add: valid_def)
    consider "0 < cmp (ix xs pb) v" | "cmp (ix xs pb) v < 0" | "cmp (ix xs pb) v = 0" by linarith
    then show ?thesis
    proof cases
      case 1
      then have "lower_loop cmp xs a pa pb pc = Some (xs, pa, pb)" using c True by (subst lower_loop.simps) simp
      then show ?thesis using less.prems perm_on_refl 1 by auto
    next
      case 2
      have "lower_loop cmp xs a pa pb pc = lower_loop cmp xs a pa (pb + 1) pc" using c True 2 by (subst lower_loop.simps) simp
      moreover note less.hyps [OF _ part_inv_skip(1) [OF less.prems True 2]]
      ultimately show ?thesis using True by fastforce
    next
      case 3
      have "\<exists>ys. swap_elem xs pa pb = Some ys \<and> perm_on a b xs ys \<and> part_inv cmp v a b ys (pa + 1) (pb + 1) pc pd \<and>
          (\<forall>k. valid xs k \<longrightarrow> k \<noteq> pa \<longrightarrow> k \<noteq> pb \<longrightarrow> ix ys k = ix xs k)"
      proof (rule part_inv_swap [OF less.prems])
        fix k x assume k: "a \<le> k" "k < b" and x: "x = ix xs (if k = pa then pb else if k = pb then pa else k)"
        show "(k < pa + 1 \<longrightarrow> cmp x v = 0) \<and> (pa + 1 \<le> k \<longrightarrow> k < pb + 1 \<longrightarrow> cmp x v < 0) \<and> (pc < k \<longrightarrow> k \<le> pd \<longrightarrow> 0 < cmp x v) \<and> (pd < k \<longrightarrow> cmp x v = 0)"
          using k x d(9) [of k] d(10) [of k] d(10) [of pa] d(11) [of k] d(12) [of k] 3 True d(3-7) by auto
      qed (use d True in auto)
      then obtain xs1 where xs1: "swap_elem xs pa pb = Some xs1" "perm_on a b xs xs1" "part_inv cmp v a b xs1 (pa + 1) (pb + 1) pc pd" by blast
      then obtain ys pa' pb' where ys: "lower_loop cmp xs1 a (pa + 1) (pb + 1) pc = Some (ys, pa', pb')" "perm_on a b xs1 ys"
          "part_inv cmp v a b ys pa' pb' pc pd" "pb + 1 \<le> pb'" "pb' \<le> pc \<longrightarrow> 0 < cmp (ix ys pb') v"
        using less.hyps [of "pb + 1" xs1 "pa + 1"] True by auto
      have "lower_loop cmp xs a pa pb pc = Some (ys, pa', pb')" using c True 3 xs1(1) ys(1) by (subst lower_loop.simps) simp
      then show ?thesis using ys perm_on_trans [OF xs1(2) ys(2) d(1,2)] by auto
    qed
  qed
qed

lemma upper_loop_inv:
  "part_inv cmp v a b xs pa pb pc pd \<Longrightarrow>
    \<exists>ys pc' pd'. upper_loop cmp xs a pb pc pd = Some (ys, pc', pd') \<and> perm_on a b xs ys \<and> part_inv cmp v a b ys pa pb pc' pd' \<and>
      pc' \<le> pc \<and> (pb \<le> pc' \<longrightarrow> cmp (ix ys pc') v < 0 \<and> ix ys pb = ix xs pb)"
proof (induction "nat (pc + 1 - pb)" arbitrary: xs pc pd rule: less_induct)
  case less
  note d = part_invD [OF less.prems]
  show ?case
  proof (cases "pb \<le> pc")
    case False
    then have "upper_loop cmp xs a pb pc pd = Some (xs, pc, pd)" by (subst upper_loop.simps) simp
    then show ?thesis using less.prems perm_on_refl False by auto
  next
    case True
    then have c: "cmp_at cmp xs pc a = Some (cmp (ix xs pc) v)" using cmp_at_valid [of xs pc a cmp] d by (simp add: valid_def)
    consider "cmp (ix xs pc) v < 0" | "0 < cmp (ix xs pc) v" | "cmp (ix xs pc) v = 0" by linarith
    then show ?thesis
    proof cases
      case 1
      then have "upper_loop cmp xs a pb pc pd = Some (xs, pc, pd)" using c True by (subst upper_loop.simps) simp
      then show ?thesis using less.prems perm_on_refl 1 by auto
    next
      case 2
      have "upper_loop cmp xs a pb pc pd = upper_loop cmp xs a pb (pc - 1) pd" using c True 2 by (subst upper_loop.simps) simp
      moreover note less.hyps [OF _ part_inv_skip(2) [OF less.prems True 2]]
      ultimately show ?thesis using True by fastforce
    next
      case 3
      have "\<exists>ys. swap_elem xs pc pd = Some ys \<and> perm_on a b xs ys \<and> part_inv cmp v a b ys pa pb (pc - 1) (pd - 1) \<and>
          (\<forall>k. valid xs k \<longrightarrow> k \<noteq> pc \<longrightarrow> k \<noteq> pd \<longrightarrow> ix ys k = ix xs k)"
      proof (rule part_inv_swap [OF less.prems])
        fix k x assume k: "a \<le> k" "k < b" and x: "x = ix xs (if k = pc then pd else if k = pd then pc else k)"
        show "(k < pa \<longrightarrow> cmp x v = 0) \<and> (pa \<le> k \<longrightarrow> k < pb \<longrightarrow> cmp x v < 0) \<and> (pc - 1 < k \<longrightarrow> k \<le> pd - 1 \<longrightarrow> 0 < cmp x v) \<and> (pd - 1 < k \<longrightarrow> cmp x v = 0)"
          using k x d(9) [of k] d(10) [of k] d(11) [of pd] d(11) [of k] d(12) [of k] 3 True d(3-7) by auto
      qed (use d True in auto)
      then obtain xs1 where xs1: "swap_elem xs pc pd = Some xs1" "perm_on a b xs xs1" "part_inv cmp v a b xs1 pa pb (pc - 1) (pd - 1)"
          "\<forall>k. valid xs k \<longrightarrow> k \<noteq> pc \<longrightarrow> k \<noteq> pd \<longrightarrow> ix xs1 k = ix xs k" by blast
      then obtain ys pc' pd' where ys: "upper_loop cmp xs1 a pb (pc - 1) (pd - 1) = Some (ys, pc', pd')" "perm_on a b xs1 ys"
          "part_inv cmp v a b ys pa pb pc' pd'" "pc' \<le> pc - 1" "pb \<le> pc' \<longrightarrow> cmp (ix ys pc') v < 0 \<and> ix ys pb = ix xs1 pb"
        using less.hyps [of "pc - 1" xs1 "pd - 1"] True by auto
      have "upper_loop cmp xs a pb pc pd = Some (ys, pc', pd')" using c True 3 xs1(1) ys(1) by (subst upper_loop.simps) simp
      moreover have "ix xs1 pb = ix xs pb" if "pb \<le> pc'" using that xs1(4) ys(4) d by (auto simp: valid_def)
      ultimately show ?thesis using ys perm_on_trans [OF xs1(2) ys(2) d(1,2)] by auto
    qed
  qed
qed

lemma part_loop_inv:
  "part_inv cmp v a b xs pa pb pc pd \<Longrightarrow>
    \<exists>ys pa' pb' pc' pd'. part_loop cmp xs a pa pb pc pd = Some (ys, pa', pb', pc', pd') \<and> perm_on a b xs ys \<and>
      part_inv cmp v a b ys pa' pb' pc' pd' \<and> pb' = pc' + 1"
proof (induction "nat (pc + 1 - pb)" arbitrary: xs pa pb pc pd rule: less_induct)
  case less
  note d = part_invD [OF less.prems]
  obtain x1 pa1 pb1 where l: "lower_loop cmp xs a pa pb pc = Some (x1, pa1, pb1)" "perm_on a b xs x1" "part_inv cmp v a b x1 pa1 pb1 pc pd"
      "pb \<le> pb1" "pb1 \<le> pc \<longrightarrow> 0 < cmp (ix x1 pb1) v"
    using lower_loop_inv [OF less.prems] by blast
  obtain x2 pc1 pd1 where u: "upper_loop cmp x1 a pb1 pc pd = Some (x2, pc1, pd1)" "perm_on a b x1 x2" "part_inv cmp v a b x2 pa1 pb1 pc1 pd1"
      "pc1 \<le> pc" "pb1 \<le> pc1 \<longrightarrow> cmp (ix x2 pc1) v < 0 \<and> ix x2 pb1 = ix x1 pb1"
    using upper_loop_inv [OF l(3)] by blast
  note e = part_invD [OF u(3)]
  have p2: "perm_on a b xs x2" using perm_on_trans [OF l(2) u(2) d(1,2)] .
  show ?case
  proof (cases "pb1 > pc1")
    case True
    then have "part_loop cmp xs a pa pb pc pd = Some (x2, pa1, pb1, pc1, pd1)" using l(1) u(1) by (subst part_loop.simps) simp
    moreover have "pb1 = pc1 + 1" using True e(5) by simp
    ultimately show ?thesis using p2 u(3) by blast
  next
    case False
    then have lt: "0 < cmp (ix x2 pb1) v" "cmp (ix x2 pc1) v < 0" "pb1 < pc1"
      using l(5) u(4,5) by (auto intro: le_neq_trans)
    have "\<exists>ys. swap_elem x2 pb1 pc1 = Some ys \<and> perm_on a b x2 ys \<and> part_inv cmp v a b ys pa1 (pb1 + 1) (pc1 - 1) pd1 \<and>
          (\<forall>k. valid x2 k \<longrightarrow> k \<noteq> pb1 \<longrightarrow> k \<noteq> pc1 \<longrightarrow> ix ys k = ix x2 k)"
    proof (rule part_inv_swap [OF u(3)])
      fix k x assume k: "a \<le> k" "k < b" and x: "x = ix x2 (if k = pb1 then pc1 else if k = pc1 then pb1 else k)"
      show "(k < pa1 \<longrightarrow> cmp x v = 0) \<and> (pa1 \<le> k \<longrightarrow> k < pb1 + 1 \<longrightarrow> cmp x v < 0) \<and> (pc1 - 1 < k \<longrightarrow> k \<le> pd1 \<longrightarrow> 0 < cmp x v) \<and> (pd1 < k \<longrightarrow> cmp x v = 0)"
        using k x e(9) [of k] e(10) [of k] e(11) [of k] e(12) [of k] lt e(3-7) by auto
    qed (use e lt in auto)
    then obtain x3 where x3: "swap_elem x2 pb1 pc1 = Some x3" "perm_on a b x2 x3" "part_inv cmp v a b x3 pa1 (pb1 + 1) (pc1 - 1) pd1" by blast
    then obtain ys pa' pb' pc' pd' where ys: "part_loop cmp x3 a pa1 (pb1 + 1) (pc1 - 1) pd1 = Some (ys, pa', pb', pc', pd')"
        "perm_on a b x3 ys" "part_inv cmp v a b ys pa' pb' pc' pd'" "pb' = pc' + 1"
      using less.hyps [of "pc1 - 1" "pb1 + 1" x3 pa1 pd1] l(4) u(4) lt(3) by auto
    have "part_loop cmp xs a pa pb pc pd = Some (ys, pa', pb', pc', pd')" using l(1) u(1) False x3(1) ys(1) by (subst part_loop.simps) simp
    moreover have "length x2 = length xs" "length x3 = length xs" using p2 x3(2) by (simp_all add: perm_on_def)
    then have "perm_on a b xs ys" using perm_on_trans [OF perm_on_trans [OF p2 x3(2)] ys(2)] d(1,2) by simp
    ultimately show ?thesis using ys(3,4) by blast
  qed
qed

subsection \<open>The pivot\<close>

lemma med3_cases:
  assumes "valid xs i" and "valid xs j" and "valid xs k"
  shows "\<exists>r \<in> {i, j, k}. med3 cmp xs i j k = Some r"
  using assms by (simp add: med3_def cmp_at_valid)

lemma pivot_in_segment:
  assumes "0 \<le> a" and "a + n \<le> int (length xs)" and "7 \<le> n"
  shows "\<exists>pm. pivot cmp xs a n = Some pm \<and> a \<le> pm \<and> pm < a + n"
proof -
  let ?d = "n div 8"
  have v: "valid xs k" if "a \<le> k" "k < a + n" for k using that assms by (simp add: valid_def)
  have m: "\<exists>r. med3 cmp xs i j k = Some r \<and> a \<le> r \<and> r < a + n"
    if "a \<le> i" "i < a + n" "a \<le> j" "j < a + n" "a \<le> k" "k < a + n" for i j k
    using med3_cases [of xs i j k cmp] v that by auto
  have d: "0 \<le> ?d" "2 * ?d < n" "?d \<le> n div 2" "n div 2 + ?d < n" using assms(3) by simp_all
  obtain pl where pl: "med3 cmp xs a (a + ?d) (a + 2 * ?d) = Some pl" "a \<le> pl" "pl < a + n" using m [of a "a + ?d" "a + 2 * ?d"] d assms(3) by auto
  obtain pm where pm: "med3 cmp xs (a + n div 2 - ?d) (a + n div 2) (a + n div 2 + ?d) = Some pm" "a \<le> pm" "pm < a + n"
    using m [of "a + n div 2 - ?d" "a + n div 2" "a + n div 2 + ?d"] d assms(3) by auto
  obtain pn where pn: "med3 cmp xs (a + (n - 1) - 2 * ?d) (a + (n - 1) - ?d) (a + (n - 1)) = Some pn" "a \<le> pn" "pn < a + n"
    using m [of "a + (n - 1) - 2 * ?d" "a + (n - 1) - ?d" "a + (n - 1)"] d assms(3) by auto
  show ?thesis
  proof (cases "n > 40")
    case True
    then show ?thesis using pl pm pn m [of pl pm pn] by (simp add: pivot_def Let_def)
  next
    case False
    then show ?thesis using m [of a "a + n div 2" "a + (n - 1)"] d assms(3) by (auto simp: pivot_def Let_def)
  qed
qed

end
