(* ===== verification/Pqsort_Prop.thy ===== *)
theory Pqsort_Prop
  imports Pqsort_Spec
begin

text \<open>
  The recursion of the partial sort, and its property.
\<close>

definition three_way :: "('a \<Rightarrow> 'a \<Rightarrow> int) \<Rightarrow> 'a \<Rightarrow> int \<Rightarrow> int \<Rightarrow> int \<Rightarrow> int \<Rightarrow> 'a list \<Rightarrow> bool" where
  "three_way cmp v a b l h xs \<longleftrightarrow>
     0 \<le> l \<and> 0 \<le> h \<and> a + l < b - h \<and> (\<forall>k. a \<le> k \<longrightarrow> k < a + l \<longrightarrow> cmp (ix xs k) v < 0) \<and>
     (\<forall>k. a + l \<le> k \<longrightarrow> k < b - h \<longrightarrow> cmp (ix xs k) v = 0) \<and> (\<forall>k. b - h \<le> k \<longrightarrow> k < b \<longrightarrow> 0 < cmp (ix xs k) v)"

lemma three_wayD:
  assumes "three_way cmp v a b l h xs"
  shows "0 \<le> l" "0 \<le> h" "a + l < b - h" "\<And>k. a \<le> k \<Longrightarrow> k < a + l \<Longrightarrow> cmp (ix xs k) v < 0"
    "\<And>k. a + l \<le> k \<Longrightarrow> k < b - h \<Longrightarrow> cmp (ix xs k) v = 0" "\<And>k. b - h \<le> k \<Longrightarrow> k < b \<Longrightarrow> 0 < cmp (ix xs k) v"
  using assms unfolding three_way_def by blast+

lemma vecswaps_three_way:
  assumes inv: "part_inv cmp v a b xs pa pb pc pd" and pb: "pb = pc + 1"
  shows "\<exists>x1 x2. vecswap xs a (pb - min (pa - a) (pb - pa)) (nat (min (pa - a) (pb - pa))) = Some x1 \<and>
    vecswap x1 pb (b - min (pd - pc) (b - pd - 1)) (nat (min (pd - pc) (b - pd - 1))) = Some x2 \<and>
    perm_on a b xs x2 \<and> three_way cmp v a b (pb - pa) (pd - pc) x2"
proof -
  note d = part_invD [OF inv]
  define r1 where "r1 = min (pa - a) (pb - pa)"
  define r2 where "r2 = min (pd - pc) (b - pd - 1)"
  have r1: "0 \<le> r1" "r1 \<le> pa - a" "r1 \<le> pb - pa" "r1 = pa - a \<or> r1 = pb - pa" using d by (auto simp: r1_def)
  have r2: "0 \<le> r2" "r2 \<le> pd - pc" "r2 \<le> b - pd - 1" "r2 = pd - pc \<or> r2 = b - pd - 1" using d by (auto simp: r2_def)
  obtain x1 where x1: "vecswap xs a (pb - r1) (nat r1) = Some x1" "perm_on a b xs x1"
      "\<forall>k. valid xs k \<longrightarrow> ix x1 k = ix xs (if a \<le> k \<and> k < a + r1 then k + (pb - r1 - a) else if pb - r1 \<le> k \<and> k < pb then k - (pb - r1 - a) else k)"
    using vecswap_perm [OF d(1,2), of a "nat r1" "pb - r1"] r1 d by auto
  have len: "length x1 = length xs" using x1(2) by (simp add: perm_on_def)
  obtain x2 where x2: "vecswap x1 pb (b - r2) (nat r2) = Some x2" "perm_on a b x1 x2"
      "\<forall>k. valid x1 k \<longrightarrow> ix x2 k = ix x1 (if pb \<le> k \<and> k < pb + r2 then k + (b - r2 - pb) else if b - r2 \<le> k \<and> k < b then k - (b - r2 - pb) else k)"
    using vecswap_perm [of a b x1 pb "nat r2" "b - r2"] r2 d len pb by auto
  have v: "valid xs k" "valid x1 k" if "a \<le> k" "k < b" for k using that d(1,2) len by (simp_all add: valid_def)
  have low: "ix x2 k = ix xs (if k < a + r1 then k + (pb - r1 - a) else if pb - r1 \<le> k then k - (pb - r1 - a) else k)" if k: "a \<le> k" "k < pb" for k
  proof -
    have "k < b" "\<not> pb \<le> k" "\<not> b - r2 \<le> k" using k r2(3) pb d(6,7) by linarith+
    then have "ix x2 k = ix x1 k" using x2(3) v(2) [OF k(1)] by simp
    then show ?thesis using x1(3) v(1) [OF k(1) \<open>k < b\<close>] k by simp
  qed
  have high: "ix x2 k = ix xs (if k < pb + r2 then k + (b - r2 - pb) else if b - r2 \<le> k then k - (b - r2 - pb) else k)" if k: "pb \<le> k" "k < b" for k
  proof -
    define s where "s = (if k < pb + r2 then k + (b - r2 - pb) else if b - r2 \<le> k then k - (b - r2 - pb) else k)"
    have s: "pb \<le> s" "s < b" using k r2(1-3) pb d(6,7) by (auto simp: s_def)
    have "a \<le> k" "a \<le> s" using k s d(3,4) by linarith+
    have "ix x2 k = ix x1 s" using x2(3) v(2) [OF \<open>a \<le> k\<close> k(2)] k by (simp add: s_def)
    moreover have "\<not> s < a + r1" "\<not> s < pb" using s r1 d(3,4) by linarith+
    then have "ix x1 s = ix xs s" using x1(3) v(1) [OF \<open>a \<le> s\<close> s(2)] by simp
    ultimately show ?thesis by (simp add: s_def)
  qed
  have "cmp (ix x2 k) v < 0" if "a \<le> k" "k < a + (pb - pa)" for k
    using low [of k] that d(10) d(3) r1 by auto
  moreover have "cmp (ix x2 k) v = 0" if k: "a + (pb - pa) \<le> k" "k < b - (pd - pc)" for k
  proof (cases "k < pb")
    case True
    then show ?thesis using low [of k] k d(9) d(3,4) r1 by auto
  next
    case False
    then show ?thesis using high [of k] k d(12) d(6,7) pb r2 by auto
  qed
  moreover have "0 < cmp (ix x2 k) v" if "b - (pd - pc) \<le> k" "k < b" for k
    using high [of k] that d(11) d(6,7) pb r2 by auto
  ultimately have "three_way cmp v a b (pb - pa) (pd - pc) x2"
    unfolding three_way_def using d(3-7) pb by simp
  moreover have "perm_on a b xs x2" using perm_on_trans [OF x1(2) x2(2) d(1,2)] .
  ultimately show ?thesis using x1(1) x2(1) unfolding r1_def r2_def by blast
qed

lemma three_way_perm:
  assumes t: "three_way cmp v a b l h xs" and ab: "0 \<le> a" "b \<le> int (length xs)"
  shows "perm_on a (a + l) xs ys \<Longrightarrow> three_way cmp v a b l h ys" and "perm_on (b - h) b xs ys \<Longrightarrow> three_way cmp v a b l h ys"
proof -
  note d = three_wayD [OF t]
  have v: "valid xs k" if "a \<le> k" "k < b" for k using that ab by (simp add: valid_def)
  show "three_way cmp v a b l h ys" if p: "perm_on a (a + l) xs ys"
  proof -
    have "cmp (ix ys k) v < 0" if "a \<le> k" "k < a + l" for k
      using perm_on_all [OF p ab(1) _ _ that, of "\<lambda>x. cmp x v < 0"] d ab by auto
    moreover have "ix ys k = ix xs k" if "a + l \<le> k" "k < b" for k using perm_on_outside [OF p v, of k] that d by simp
    ultimately show ?thesis unfolding three_way_def using d by auto
  qed
  show "three_way cmp v a b l h ys" if p: "perm_on (b - h) b xs ys"
  proof -
    have "0 < cmp (ix ys k) v" if "b - h \<le> k" "k < b" for k
      using perm_on_all [OF p _ ab(2) _ that, of "\<lambda>x. 0 < cmp x v"] d ab by auto
    moreover have "ix ys k = ix xs k" if "a \<le> k" "k < b - h" for k using perm_on_outside [OF p v, of k] that d by simp
    ultimately show ?thesis unfolding three_way_def using d by auto
  qed
qed

text \<open>Elements of different parts are in order.\<close>

lemma three_way_order:
  assumes c: "comparator cmp" and t: "three_way cmp v a b l h xs" and ij: "a \<le> i" "i < j" "j < b" and parts: "a + l \<le> j" "i < b - h"
  shows "cmp (ix xs i) (ix xs j) \<le> 0"
proof -
  note d = three_wayD [OF t]
  have "cmp (ix xs i) v \<le> 0" using d(4) [of i] d(5) [of i] ij(1) parts(2) by fastforce
  moreover have "0 \<le> cmp (ix xs j) v" using d(5) [of j] d(6) [of j] ij(3) parts(1) by fastforce
  then have "cmp v (ix xs j) \<le> 0" using comparator_sym(3) [OF c] by blast
  ultimately show ?thesis by (rule comparator_trans [OF c])
qed

lemma three_way_settled:
  assumes c: "comparator cmp" and t: "three_way cmp v a b l h xs" and k: "a \<le> k" "k < b"
    and left: "k < a + l \<Longrightarrow> settled cmp xs a (a + l) k" and right: "b - h \<le> k \<Longrightarrow> settled cmp xs (b - h) b k"
  shows "settled cmp xs a b k"
  unfolding settled_def
proof (intro conjI allI impI)
  note o = three_way_order [OF c t] and d = three_wayD(1-3) [OF t]
  fix j
  show "cmp (ix xs j) (ix xs k) \<le> 0" if "a \<le> j" "j < k"
  proof (cases "a + l \<le> k \<and> j < b - h")
    case True
    then show ?thesis using o that k by simp
  next
    case False
    then consider "k < a + l" | "b - h \<le> j" by linarith
    then show ?thesis
    proof cases
      case 1
      then show ?thesis using left that unfolding settled_def by simp
    next
      case 2
      then show ?thesis using right that unfolding settled_def by simp
    qed
  qed
  show "cmp (ix xs k) (ix xs j) \<le> 0" if "k < j" "j < b"
  proof (cases "a + l \<le> j \<and> k < b - h")
    case True
    then show ?thesis using o that k by simp
  next
    case False
    then consider "j < a + l" | "b - h \<le> k" by linarith
    then show ?thesis
    proof cases
      case 1
      then show ?thesis using left that unfolding settled_def by simp
    next
      case 2
      then show ?thesis using right that unfolding settled_def by simp
    qed
  qed
qed

subsection \<open>The recursion\<close>

text \<open>All bytes of the element lie in the range.\<close>

definition elem_in_range :: "int \<Rightarrow> int \<Rightarrow> int \<Rightarrow> int \<Rightarrow> bool" where
  "elem_in_range es lrange rrange k \<longleftrightarrow> lrange \<le> k * es \<and> (k + 1) * es - 1 \<le> rrange"

lemma out_of_range_in_range:
  assumes "1 \<le> es" and "out_of_range es lrange rrange a r" and "a \<le> k" and "k < a + r"
  shows "\<not> elem_in_range es lrange rrange k"
proof -
  have "a * es \<le> k * es" "(k + 1) * es \<le> (a + r) * es" using assms by (simp_all add: mult_right_mono)
  moreover have "(k + 1) * es = k * es + es" "(a + r) * es = a * es + r * es" by (simp_all add: distrib_right)
  ultimately show ?thesis using assms(1,2) unfolding out_of_range_def elem_in_range_def Let_def by linarith
qed

definition sorts :: "('a \<Rightarrow> 'a \<Rightarrow> int) \<Rightarrow> int \<Rightarrow> int \<Rightarrow> int \<Rightarrow> 'a list \<Rightarrow> int \<Rightarrow> int \<Rightarrow> 'a list option \<Rightarrow> bool" where
  "sorts cmp es lrange rrange xs a n r \<longleftrightarrow>
     (\<exists>ys. r = Some ys \<and> perm_on a (a + n) xs ys \<and>
       (\<forall>k. a \<le> k \<longrightarrow> k < a + n \<longrightarrow> elem_in_range es lrange rrange k \<longrightarrow> settled cmp ys a (a + n) k))"

lemma sorts_if_needed:
  assumes "1 \<le> es" and "1 < n \<Longrightarrow> sorts cmp es lrange rrange xs a n (pqsort_seg cmp es lrange rrange xs a n)"
  shows "sorts cmp es lrange rrange xs a n
    (if 1 < n \<and> \<not> out_of_range es lrange rrange a n then pqsort_seg cmp es lrange rrange xs a n else Some xs)"
proof (cases "1 < n \<and> \<not> out_of_range es lrange rrange a n")
  case True
  then show ?thesis using assms(2) by simp
next
  case False
  have "settled cmp xs a (a + n) k" if "a \<le> k" "k < a + n" "elem_in_range es lrange rrange k" for k
  proof -
    have "\<not> 1 < n" using False out_of_range_in_range [OF assms(1) _ that(1,2)] that(3) by blast
    then show ?thesis using that(1,2) unfolding settled_def by simp
  qed
  then show ?thesis using False perm_on_refl unfolding sorts_def by auto
qed

lemma settled_perm:
  assumes "settled cmp xs a b k" and "a \<le> k" and "k < b" and "\<And>j. a \<le> j \<Longrightarrow> j < b \<Longrightarrow> ix ys j = ix xs j"
  shows "settled cmp ys a b k"
  using assms unfolding settled_def by simp

lemma sorts_three_way:
  assumes c: "comparator cmp" and es: "1 \<le> es" and ab: "0 \<le> a" "a + n \<le> int (length xs)"
    and t: "three_way cmp v a (a + n) l h xs"
    and left: "sorts cmp es lr rr xs a l (Some ys)" and right: "sorts cmp es lr rr ys (a + n - h) h r"
  shows "sorts cmp es lr rr xs a n r"
proof -
  note d = three_wayD [OF t]
  have y: "perm_on a (a + l) xs ys" "\<And>k. a \<le> k \<Longrightarrow> k < a + l \<Longrightarrow> elem_in_range es lr rr k \<Longrightarrow> settled cmp ys a (a + l) k"
    using left by (auto simp: sorts_def)
  obtain zs where z: "r = Some zs" "perm_on (a + n - h) (a + n) ys zs"
      "\<And>k. a + n - h \<le> k \<Longrightarrow> k < a + n \<Longrightarrow> elem_in_range es lr rr k \<Longrightarrow> settled cmp zs (a + n - h) (a + n) k"
    using right by (auto simp: sorts_def)
  have len: "length ys = length xs" using y(1) by (simp add: perm_on_def)
  have ty: "three_way cmp v a (a + n) l h ys" using three_way_perm(1) [OF t ab y(1)] .
  have tz: "three_way cmp v a (a + n) l h zs" using three_way_perm(2) [OF ty ab(1) _ z(2)] ab(2) len by simp
  have same: "ix zs j = ix ys j" if "a \<le> j" "j < a + l" for j
    using perm_on_outside [OF z(2), of j] that d(1-3) ab len by (simp add: valid_def)
  have "settled cmp zs a (a + n) k" if k: "a \<le> k" "k < a + n" "elem_in_range es lr rr k" for k
    using settled_perm [OF y(2) [OF k(1) _ k(3)] k(1), of zs] same z(3) [OF _ k(2,3)] by (intro three_way_settled [OF c tz k(1,2)]) auto
  moreover have "perm_on a (a + n) xs ys" "perm_on a (a + n) ys zs"
    using perm_on_mono [OF y(1)] perm_on_mono [OF z(2)] d(1-3) by simp_all
  then have "perm_on a (a + n) xs zs" using perm_on_trans ab by blast
  ultimately show ?thesis using z(1) unfolding sorts_def by blast
qed

lemma sorts_perm: "perm_on a (a + n) xs ys \<Longrightarrow> 0 \<le> a \<Longrightarrow> a + n \<le> int (length xs) \<Longrightarrow> sorts cmp es lr rr ys a n r \<Longrightarrow> sorts cmp es lr rr xs a n r"
  unfolding sorts_def using perm_on_trans by blast

lemma pqsort_seg_sorts:
  assumes c: "comparator cmp" and es: "1 \<le> es"
  shows "0 \<le> a \<Longrightarrow> a + n \<le> int (length xs) \<Longrightarrow> sorts cmp es lr rr xs a n (pqsort_seg cmp es lr rr xs a n)"
proof (induction "nat n" arbitrary: xs a n rule: less_induct)
  case less
  note ab = less.prems
  show ?case
  proof (cases "n < 7")
    case True
    have "sorted_seg cmp xs a (a + 1)" by (auto simp: sorted_seg_def)
    then obtain ys where "isort_loop cmp xs a (a + n) (a + 1) = Some ys" "perm_on a (a + n) xs ys" "sorted_seg cmp ys a (a + n)"
      using isort_loop_sorts [OF c ab(1), of "a + 1" "a + n" xs] ab(2) by auto
    then show ?thesis using True by (subst pqsort_seg.simps) (simp add: sorts_def settled_def sorted_seg_def)
  next
    case False
    obtain pm where pm: "pivot cmp xs a n = Some pm" "a \<le> pm" "pm < a + n" using pivot_in_segment [OF ab] False by fastforce
    obtain x1 where x1: "swap_elem xs a pm = Some x1" "perm_on a (a + n) xs x1" using swap_elem_perm [OF ab, of a pm] pm False by auto
    have len1: "length x1 = length xs" using x1(2) by (simp add: perm_on_def)
    have "cmp (ix x1 a) (ix x1 a) = 0" using comparator_sym(1,2) [OF c, of "ix x1 a" "ix x1 a"] by linarith
    moreover have "a \<le> k \<and> k < a + 1 \<longleftrightarrow> k = a" for k by auto
    ultimately have one: "cmp (ix x1 k) (ix x1 a) = 0" if "a \<le> k" "k < a + 1" for k using that by metis
    have inv: "part_inv cmp (ix x1 a) a (a + n) x1 (a + 1) (a + 1) (a + (n - 1)) (a + (n - 1))"
      using ab len1 False one unfolding part_inv_def by simp
    obtain x2 pa pb pc pd where x2: "part_loop cmp x1 a (a + 1) (a + 1) (a + (n - 1)) (a + (n - 1)) = Some (x2, pa, pb, pc, pd)"
        "perm_on a (a + n) x1 x2" "part_inv cmp (ix x1 a) a (a + n) x2 pa pb pc pd" "pb = pc + 1"
      using part_loop_inv [OF inv] by blast
    obtain x3 x4 where x4: "vecswap x2 a (pb - min (pa - a) (pb - pa)) (nat (min (pa - a) (pb - pa))) = Some x3"
        "vecswap x3 pb (a + n - min (pd - pc) (a + n - pd - 1)) (nat (min (pd - pc) (a + n - pd - 1))) = Some x4"
        "perm_on a (a + n) x2 x4" "three_way cmp (ix x1 a) a (a + n) (pb - pa) (pd - pc) x4"
      using vecswaps_three_way [OF x2(3,4)] by blast
    note t = three_wayD [OF x4(4)]
    have "perm_on a (a + n) xs x2" using perm_on_trans [OF x1(2) x2(2) ab] .
    then have p4: "perm_on a (a + n) xs x4" using perm_on_trans [OF _ x4(3) ab] by blast
    have len4: "length x4 = length xs" using p4 by (simp add: perm_on_def)
    let ?left = "if 1 < pb - pa \<and> \<not> out_of_range es lr rr a (pb - pa) then pqsort_seg cmp es lr rr x4 a (pb - pa) else Some x4"
    have left: "sorts cmp es lr rr x4 a (pb - pa) ?left"
      using less.hyps [of "pb - pa" a x4] ab t(1-3) len4 by (intro sorts_if_needed es) auto
    then obtain ys where ys: "?left = Some ys" unfolding sorts_def by blast
    then have "length ys = length xs" using left len4 by (simp add: sorts_def perm_on_def)
    then have right: "sorts cmp es lr rr ys (a + n - (pd - pc)) (pd - pc)
        (if 1 < pd - pc \<and> \<not> out_of_range es lr rr (a + n - (pd - pc)) (pd - pc)
         then pqsort_seg cmp es lr rr ys (a + n - (pd - pc)) (pd - pc) else Some ys)"
      using less.hyps [of "pd - pc" "a + n - (pd - pc)" ys] ab t(1-3) by (intro sorts_if_needed es) auto
    have "pqsort_seg cmp es lr rr xs a n = (if 1 < pd - pc \<and> \<not> out_of_range es lr rr (a + n - (pd - pc)) (pd - pc)
         then pqsort_seg cmp es lr rr ys (a + n - (pd - pc)) (pd - pc) else Some ys)"
      using False pm(1) x1(1) x2(1) x4(1,2) ys by (subst pqsort_seg.simps) (simp add: Let_def)
    moreover note sorts_three_way [OF c es ab(1) _ x4(4) left [unfolded ys] right]
    ultimately show ?thesis using sorts_perm [OF p4 ab] ab(2) len4 by simp
  qed
qed

text \<open>
  C29. For a comparison function that is a total preorder, \<^verbatim>\<open>pqsort\<close> ends without leaving the array, the result is a permutation of the array, elements behind
  the first \<open>n\<close> are untouched, and every position from \<open>lrange\<close> to \<open>rrange\<close> holds the element that a complete sort would put there: nothing before
  it is greater and nothing behind it is smaller.
\<close>

theorem pqsort_settles_range:
  assumes "comparator cmp" and "1 \<le> es" and "n \<le> length xs"
  shows "\<exists>ys. pqsort cmp es xs n lrange rrange = Some ys \<and> mset ys = mset xs \<and> drop n ys = drop n xs \<and>
    (\<forall>i k. i < n \<longrightarrow> k < n \<longrightarrow> lrange \<le> k \<longrightarrow> k \<le> rrange \<longrightarrow>
      (i \<le> k \<longrightarrow> cmp (ys ! i) (ys ! k) \<le> 0) \<and> (k \<le> i \<longrightarrow> cmp (ys ! k) (ys ! i) \<le> 0))"
proof -
  let ?l = "int lrange * es" and ?r = "(int rrange + 1) * es - 1"
  obtain ys where ys: "pqsort cmp es xs n lrange rrange = Some ys" "perm_on 0 (int n) xs ys"
      "\<And>k. 0 \<le> k \<Longrightarrow> k < int n \<Longrightarrow> elem_in_range es ?l ?r k \<Longrightarrow> settled cmp ys 0 (int n) k"
    using pqsort_seg_sorts [OF assms(1,2), of 0 "int n" xs ?l ?r] assms(3) by (auto simp: sorts_def pqsort_def)
  have len: "length ys = length xs" using ys(2) by (simp add: perm_on_def)
  have refl: "cmp x x = 0" for x using comparator_sym(1,2) [OF assms(1), of x x] by linarith
  have "mset ys = mset xs" using perm_on_mset [OF ys(2)] assms(3) by simp
  moreover have "drop n ys = drop n xs"
  proof (rule nth_equalityI)
    fix i assume "i < length (drop n ys)"
    then have "n + i < length xs" using len by simp
    then have "ix ys (int (n + i)) = ix xs (int (n + i))"
      by (intro perm_on_outside [OF ys(2)]) (auto simp: valid_def)
    then show "drop n ys ! i = drop n xs ! i" using len \<open>n + i < length xs\<close> by (simp only: nat_int nth_drop)
  qed (simp add: len)
  moreover have "(i \<le> k \<longrightarrow> cmp (ys ! i) (ys ! k) \<le> 0) \<and> (k \<le> i \<longrightarrow> cmp (ys ! k) (ys ! i) \<le> 0)"
    if k: "i < n" "k < n" "lrange \<le> k" "k \<le> rrange" for i k
  proof -
    have "int lrange * es \<le> int k * es" "(int k + 1) * es \<le> (int rrange + 1) * es" using k assms(2) by (simp_all add: mult_right_mono)
    then have s: "settled cmp ys 0 (int n) (int k)" using ys(3) [of "int k"] k by (simp add: elem_in_range_def)
    consider "i < k" | "i = k" | "k < i" by linarith
    then show ?thesis
    proof cases
      case 1
      then show ?thesis using s unfolding settled_def by (auto dest!: spec [of _ "int i"])
    next
      case 3
      then show ?thesis using s k unfolding settled_def by (auto dest!: spec [of _ "int i"])
    qed (simp add: refl)
  qed
  ultimately show ?thesis using ys(1) by blast
qed

lemma int_comparator: "comparator (\<lambda>x y. x - y :: int)"
  unfolding comparator_def by (auto simp: sgn_if)

theorem pqsort_settles_range_witness:
  "\<exists>ys. pqsort (\<lambda>x y. x - y) 8 [5, 3, 9, 1, 7, 3, 8, 2, 6 :: int] 9 0 8 = Some ys \<and> mset ys = {#1, 2, 3, 3, 5, 6, 7, 8, 9#}"
  using pqsort_settles_range [OF int_comparator, of 8 9 "[5, 3, 9, 1, 7, 3, 8, 2, 6]" 0 8] by (auto simp: add_mset_commute)

end
