(* ===== verification/Endianconv.thy ===== *)
theory Endianconv
  imports Prelude
begin

text \<open>
  The conversions of \<^verbatim>\<open>endianconv.c\<close>. A pointer is an offset into the memory that it belongs to.
\<close>

definition get_byte :: "byte list \<Rightarrow> nat \<Rightarrow> byte option" where
  "get_byte m a = (if a < length m then Some (m ! a) else None)"

definition swap_bytes :: "byte list \<Rightarrow> nat \<Rightarrow> nat \<Rightarrow> byte list option" where
  "swap_bytes m i j = do { t \<leftarrow> get_byte m i; u \<leftarrow> get_byte m j; Some (m[i := u, j := t]) }"

definition memrev16 :: "byte list \<Rightarrow> nat \<Rightarrow> byte list option" where
  "memrev16 m p = swap_bytes m p (p + 1)"

definition memrev32 :: "byte list \<Rightarrow> nat \<Rightarrow> byte list option" where
  "memrev32 m p = do { m \<leftarrow> swap_bytes m p (p + 3); swap_bytes m (p + 1) (p + 2) }"

definition memrev64 :: "byte list \<Rightarrow> nat \<Rightarrow> byte list option" where
  "memrev64 m p =
     do { m \<leftarrow> swap_bytes m p (p + 7);
          m \<leftarrow> swap_bytes m (p + 1) (p + 6);
          m \<leftarrow> swap_bytes m (p + 2) (p + 5);
          swap_bytes m (p + 3) (p + 4) }"

text \<open>The argument of the functions on integers is a local variable, stored with the least significant byte first.\<close>

definition intrev16 :: "u16 \<Rightarrow> u16 option" where
  "intrev16 v = do { m \<leftarrow> memrev16 (enc_le 2 (uint v)) 0; Some (word_of_int (dec_ule m)) }"

definition intrev32 :: "u32 \<Rightarrow> u32 option" where
  "intrev32 v = do { m \<leftarrow> memrev32 (enc_le 4 (uint v)) 0; Some (word_of_int (dec_ule m)) }"

definition intrev64 :: "u64 \<Rightarrow> u64 option" where
  "intrev64 v = do { m \<leftarrow> memrev64 (enc_le 8 (uint v)) 0; Some (word_of_int (dec_ule m)) }"

text \<open>Each function reverses the bytes that it is given and leaves the rest of the memory alone.\<close>

lemma swap_bytes_outer:
  "swap_bytes (pre @ x # xs @ y # post) (length pre) (length pre + length xs + 1) = Some (pre @ y # xs @ x # post)"
  by (simp add: swap_bytes_def get_byte_def nth_append list_update_append)

lemma length_cases:
  "length bs = 2 \<Longrightarrow> \<exists>a b. bs = [a, b]"
  "length bs = 4 \<Longrightarrow> \<exists>a b c d. bs = [a, b, c, d]"
  "length bs = 8 \<Longrightarrow> \<exists>a b c d e f g h. bs = [a, b, c, d, e, f, g, h]"
  by (auto simp: numeral_eq_Suc length_Suc_conv)

lemma memrev16_rev: "length bs = 2 \<Longrightarrow> memrev16 (pre @ bs @ post) (length pre) = Some (pre @ rev bs @ post)"
  using swap_bytes_outer [of pre _ "[]"] length_cases(1) [of bs] by (auto simp: memrev16_def)

lemma memrev32_rev: "length bs = 4 \<Longrightarrow> memrev32 (pre @ bs @ post) (length pre) = Some (pre @ rev bs @ post)"
proof -
  assume "length bs = 4"
  then obtain a b c d where bs: "bs = [a, b, c, d]" using length_cases(2) by blast
  have "swap_bytes (pre @ bs @ post) (length pre) (length pre + 3) = Some ((pre @ [d]) @ b # c # a # post)"
    using swap_bytes_outer [of pre a "[b, c]" d post] bs by (simp add: numeral_eq_Suc)
  moreover have "swap_bytes ((pre @ [d]) @ b # c # a # post) (length pre + 1) (length pre + 2) = Some ((pre @ [d]) @ c # b # a # post)"
    using swap_bytes_outer [of "pre @ [d]" b "[]" c "a # post"] by (simp add: numeral_eq_Suc)
  ultimately show ?thesis using bs by (simp add: memrev32_def numeral_eq_Suc)
qed

lemma memrev64_rev: "length bs = 8 \<Longrightarrow> memrev64 (pre @ bs @ post) (length pre) = Some (pre @ rev bs @ post)"
proof -
  assume "length bs = 8"
  then obtain a b c d e f g h where bs: "bs = [a, b, c, d, e, f, g, h]" using length_cases(3) by blast
  have "swap_bytes (pre @ bs @ post) (length pre) (length pre + 7) = Some (pre @ [h, b, c, d, e, f, g, a] @ post)"
    using swap_bytes_outer [of pre a "[b, c, d, e, f, g]" h post] bs by (simp add: numeral_eq_Suc)
  moreover have "swap_bytes (pre @ [h, b, c, d, e, f, g, a] @ post) (length pre + 1) (length pre + 6) = Some (pre @ [h, g, c, d, e, f, b, a] @ post)"
    using swap_bytes_outer [of "pre @ [h]" b "[c, d, e, f]" g "a # post"] by (simp add: numeral_eq_Suc)
  moreover have "swap_bytes (pre @ [h, g, c, d, e, f, b, a] @ post) (length pre + 2) (length pre + 5) = Some (pre @ [h, g, f, d, e, c, b, a] @ post)"
    using swap_bytes_outer [of "pre @ [h, g]" c "[d, e]" f "b # a # post"] by (simp add: numeral_eq_Suc)
  moreover have "swap_bytes (pre @ [h, g, f, d, e, c, b, a] @ post) (length pre + 3) (length pre + 4) = Some (pre @ [h, g, f, e, d, c, b, a] @ post)"
    using swap_bytes_outer [of "pre @ [h, g, f]" d "[]" e "c # b # a # post"] by (simp add: numeral_eq_Suc)
  ultimately show ?thesis using bs by (simp add: memrev64_def numeral_eq_Suc)
qed

text \<open>On integers the conversions are their own inverses.\<close>

lemma rev_enc_involutive:
  assumes "0 \<le> v" and "v < 256 ^ n"
  shows "dec_ule (rev (enc_le n (dec_ule (rev (enc_le n v))))) = v"
  using enc_le_dec_ule [of "rev (enc_le n v)"] assms by (simp add: dec_ule_enc_le)

lemma rev_word_involutive:
  fixes v :: "'w::len word"
  assumes "LENGTH('w) = 8 * n"
  defines "r \<equiv> \<lambda>x :: 'w word. word_of_int (dec_ule (rev (enc_le n (uint x)))) :: 'w word"
  shows "r (r v) = v"
proof -
  have len: "(2::int) ^ LENGTH('w) = 256 ^ n" using assms(1) by (simp add: power_mult)
  define k where "k = dec_ule (rev (enc_le n (uint v)))"
  have k: "0 \<le> k" "k < 256 ^ n" using dec_ule_bounds [of "rev (enc_le n (uint v))"] by (simp_all add: k_def)
  then have "uint (word_of_int k :: 'w word) = k" using len by (simp add: unsigned_of_int take_bit_int_eq_self)
  moreover have "uint v < 256 ^ n" using unsigned_less [of v, where ?'a = int] len by simp
  then have "dec_ule (rev (enc_le n k)) = uint v" using rev_enc_involutive [of "uint v" n] by (simp add: k_def)
  ultimately show ?thesis by (simp add: r_def k_def)
qed

lemma intrev_involutive:
  "do { w \<leftarrow> intrev16 v16; intrev16 w } = Some v16"
  "do { w \<leftarrow> intrev32 v32; intrev32 w } = Some v32"
  "do { w \<leftarrow> intrev64 v64; intrev64 w } = Some v64"
  using memrev16_rev [of _ "[]" "[]"] memrev32_rev [of _ "[]" "[]"] memrev64_rev [of _ "[]" "[]"]
    rev_word_involutive [of 2 v16] rev_word_involutive [of 4 v32] rev_word_involutive [of 8 v64]
  by (simp_all add: intrev16_def intrev32_def intrev64_def)

end
