(* ===== verification/Server_State.thy ===== *)
theory Server_State
  imports Prelude
begin

text \<open>
  The state that the request handling of the server works on: clients and their flags, commands, replies, the
  keys that clients watch, and what has been sent to the append only file and to the replicas
  (\<^verbatim>\<open>server.h\<close>). Bit sets of flags are sets of their names. A client is known by its number; a list or dictionary of the
  code is a list or a map here. \<open>None\<close> as the result of an operation is a failed assertion or a null pointer.
\<close>

type_synonym bkey = "byte list"
type_synonym cid = nat
type_synonym dbid = nat

datatype client_flag =
  CLIENT_SLAVE | CLIENT_MASTER | CLIENT_MONITOR | CLIENT_MULTI | CLIENT_BLOCKED | CLIENT_DIRTY_CAS | CLIENT_CLOSE_AFTER_REPLY
| CLIENT_UNBLOCKED | CLIENT_LUA | CLIENT_ASKING | CLIENT_CLOSE_ASAP | CLIENT_UNIX_SOCKET | CLIENT_DIRTY_EXEC | CLIENT_MASTER_FORCE_REPLY
| CLIENT_FORCE_AOF | CLIENT_FORCE_REPL | CLIENT_PRE_PSYNC | CLIENT_READONLY | CLIENT_PUBSUB | CLIENT_PREVENT_AOF_PROP
| CLIENT_PREVENT_REPL_PROP | CLIENT_PENDING_WRITE | CLIENT_REPLY_OFF | CLIENT_REPLY_SKIP_NEXT | CLIENT_REPLY_SKIP | CLIENT_LUA_DEBUG
| CLIENT_LUA_DEBUG_SYNC | CLIENT_MODULE | CLIENT_PROTECTED

datatype cmd_flag =
  CMD_WRITE | CMD_READONLY | CMD_DENYOOM | CMD_MODULE | CMD_ADMIN | CMD_PUBSUB | CMD_NOSCRIPT | CMD_RANDOM | CMD_SORT_FOR_SCRIPT
| CMD_LOADING | CMD_STALE | CMD_SKIP_MONITOR | CMD_ASKING | CMD_FAST | CMD_MODULE_GETKEYS | CMD_MODULE_NO_CLUSTER

datatype call_flag = CMD_CALL_SLOWLOG | CMD_CALL_STATS | CMD_CALL_PROPAGATE_AOF | CMD_CALL_PROPAGATE_REPL

datatype propagate_flag = PROPAGATE_AOF | PROPAGATE_REPL

abbreviation CMD_CALL_PROPAGATE :: "call_flag set" where
  "CMD_CALL_PROPAGATE \<equiv> {CMD_CALL_PROPAGATE_AOF, CMD_CALL_PROPAGATE_REPL}"

abbreviation CMD_CALL_FULL :: "call_flag set" where
  "CMD_CALL_FULL \<equiv> {CMD_CALL_SLOWLOG, CMD_CALL_STATS} \<union> CMD_CALL_PROPAGATE"

abbreviation CLIENT_PREVENT_PROP :: "client_flag set" where
  "CLIENT_PREVENT_PROP \<equiv> {CLIENT_PREVENT_AOF_PROP, CLIENT_PREVENT_REPL_PROP}"

text \<open>The functions that implement the commands, as far as the code compares them by their address.\<close>

datatype proc_id =
  execCommand_p | discardCommand_p | multiCommand_p | watchCommand_p | unwatchCommand_p | authCommand_p | pingCommand_p
| subscribeCommand_p | unsubscribeCommand_p | psubscribeCommand_p | punsubscribeCommand_p | replconfCommand_p
| shutdownCommand_p | scriptCommand_p | askingCommand_p
| setCommand_p | setexCommand_p | psetexCommand_p | expireCommand_p | expireatCommand_p | pexpireCommand_p | other_p nat

record redisCommand =
  cmd_name :: "byte list"
  cmd_proc :: proc_id
  cmd_arity :: int
  cmd_flags :: "cmd_flag set"
  cmd_getkeys :: bool
  cmd_firstkey :: int

record multiCmd =
  mc_argv :: "byte list list"
  mc_cmd :: redisCommand

record multiState =
  ms_commands :: "multiCmd list"
  ms_cmd_flags :: "cmd_flag set"

datatype shared_obj =
  shared_ok | shared_queued | shared_nullmultibulk | shared_execaborterr | shared_noautherr | shared_oomerr | shared_bgsaveerr
| shared_noreplicaserr | shared_roslaveerr | shared_masterdownerr | shared_loadingerr | shared_slowscripterr

datatype reply =
  Shared shared_obj | Error_reply string | Unknown_command "byte list" "byte list" | Wrong_arity "byte list" | Multi_bulk_len nat | Other_reply "byte list"

record client =
  c_db :: dbid
  c_querybuf :: "byte list"
  c_qb_pos :: nat
  c_pending_querybuf :: "byte list"
  c_argv :: "byte list list"
  c_cmd :: "redisCommand option"
  c_lastcmd :: "redisCommand option"
  c_reqtype :: nat
  c_multibulklen :: int
  c_bulklen :: int
  c_reply :: "reply list"
  c_flags :: "client_flag set"
  c_authenticated :: bool
  c_read_reploff :: int
  c_reploff :: int
  c_repl_ack_time :: int
  c_mstate :: multiState
  c_btype :: nat
  c_woff :: int
  c_watched_keys :: "(bkey \<times> dbid) list"

record redisOp =
  op_cmd :: redisCommand
  op_dbid :: dbid
  op_argv :: "byte list list"
  op_target :: "propagate_flag set"

text \<open>
  The server. \<open>s_aof\<close>, \<open>s_backlog\<close> and \<open>s_monitor_feed\<close> record the calls of \<^verbatim>\<open>feedAppendOnlyFile\<close>,
  \<^verbatim>\<open>feedReplicationBacklog\<close> and \<^verbatim>\<open>replicationFeedMonitors\<close>, in their order, \<open>s_repl\<close> the requests that
  \<^verbatim>\<open>replicationFeedSlaves\<close> puts into the replication stream, and \<open>s_master_stream\<close> the calls of
  \<^verbatim>\<open>replicationFeedSlavesFromMasterStream\<close>; the keyspace is the set of the existing keys of each database together with the
  rest of the data, which only the commands use.
\<close>

record 'd server =
  s_client :: "cid \<Rightarrow> client"
  s_clients :: "cid list"
  s_current_client :: "cid option"
  s_watched :: "dbid \<Rightarrow> bkey \<Rightarrow> cid list option"
  s_keys :: "dbid \<Rightarrow> bkey set"
  s_data :: 'd
  s_loading :: bool
  s_masterhost :: bool
  s_repl_slave_ro :: bool
  s_repl_connected :: bool
  s_repl_serve_stale_data :: bool
  s_repl_backlog :: bool
  s_repl_min_slaves_to_write :: int
  s_repl_min_slaves_max_lag :: int
  s_repl_good_slaves_count :: int
  s_requirepass :: bool
  s_cluster_enabled :: bool
  s_maxmemory :: nat
  s_lua_timedout :: bool
  s_lua_caller :: "cid option"
  s_monitors :: nat
  s_aof_on :: bool
  s_dirty :: int
  s_also_propagate :: "redisOp list"
  s_aof :: "(redisCommand \<times> dbid \<times> byte list list) list"
  s_repl :: "(dbid \<times> byte list list) list"
  s_backlog :: "byte list"
  s_monitor_feed :: "(cid \<times> dbid \<times> byte list list) list"
  s_master_stream :: "byte list"
  s_stat_numcommands :: nat
  s_stat_net_input_bytes :: nat
  s_master_repl_offset :: int
  s_ready_keys :: nat
  s_unixtime :: int

definition upd_client :: "cid \<Rightarrow> (client \<Rightarrow> client) \<Rightarrow> 'd server \<Rightarrow> 'd server" where
  "upd_client c f s = s\<lparr>s_client := (s_client s)(c := f (s_client s c))\<rparr>"

definition add_flags :: "client_flag set \<Rightarrow> client \<Rightarrow> client" where
  "add_flags fs cl = cl\<lparr>c_flags := c_flags cl \<union> fs\<rparr>"

definition del_flags :: "client_flag set \<Rightarrow> client \<Rightarrow> client" where
  "del_flags fs cl = cl\<lparr>c_flags := c_flags cl - fs\<rparr>"

definition addReply :: "cid \<Rightarrow> reply \<Rightarrow> 'd server \<Rightarrow> 'd server" where
  "addReply c r = upd_client c (\<lambda>cl. cl\<lparr>c_reply := c_reply cl @ [r]\<rparr>)"

abbreviation addReplyError :: "cid \<Rightarrow> string \<Rightarrow> 'd server \<Rightarrow> 'd server" where
  "addReplyError c msg \<equiv> addReply c (Error_reply msg)"

lemma upd_client_simps [simp]:
  "s_client (upd_client c f s) = (s_client s)(c := f (s_client s c))"
  "s_watched (upd_client c f s) = s_watched s" "s_clients (upd_client c f s) = s_clients s" "s_keys (upd_client c f s) = s_keys s"
  "s_data (upd_client c f s) = s_data s" "s_dirty (upd_client c f s) = s_dirty s" "s_aof (upd_client c f s) = s_aof s"
  "s_repl (upd_client c f s) = s_repl s" "s_backlog (upd_client c f s) = s_backlog s" "s_loading (upd_client c f s) = s_loading s"
  "s_masterhost (upd_client c f s) = s_masterhost s" "s_repl_slave_ro (upd_client c f s) = s_repl_slave_ro s"
  "s_monitors (upd_client c f s) = s_monitors s" "s_monitor_feed (upd_client c f s) = s_monitor_feed s"
  "s_lua_caller (upd_client c f s) = s_lua_caller s" "s_also_propagate (upd_client c f s) = s_also_propagate s"
  "s_aof_on (upd_client c f s) = s_aof_on s" "s_repl_backlog (upd_client c f s) = s_repl_backlog s"
  by (simp_all add: upd_client_def)

lemma flags_simps [simp]:
  "c_flags (add_flags fs cl) = c_flags cl \<union> fs" "c_flags (del_flags fs cl) = c_flags cl - fs"
  "c_watched_keys (add_flags fs cl) = c_watched_keys cl" "c_watched_keys (del_flags fs cl) = c_watched_keys cl"
  "c_mstate (add_flags fs cl) = c_mstate cl" "c_mstate (del_flags fs cl) = c_mstate cl"
  "c_db (add_flags fs cl) = c_db cl" "c_db (del_flags fs cl) = c_db cl"
  by (simp_all add: add_flags_def del_flags_def)

end
