(* ===== verification/Multi.thy ===== *)
theory Multi
  imports Server_State
begin

text \<open>
  Transactions with optimistic locking (\<^verbatim>\<open>multi.c\<close>) and the execution of one command (\<^verbatim>\<open>call\<close> and \<^verbatim>\<open>propagate\<close> of
  \<^verbatim>\<open>server.c\<close>). What the individual commands do is the parameter \<open>proc\<close>.
\<close>

subsection \<open>Watched keys\<close>

definition watchForKey :: "cid \<Rightarrow> bkey \<Rightarrow> 'd server \<Rightarrow> 'd server" where
  "watchForKey c key s =
     (let db = c_db (s_client s c)
      in if (key, db) \<in> set (c_watched_keys (s_client s c)) then s
         else let clients = (case s_watched s db key of None \<Rightarrow> [] | Some cs \<Rightarrow> cs);
                  s = s\<lparr>s_watched := (s_watched s)(db := (s_watched s db)(key \<mapsto> clients @ [c]))\<rparr>
              in upd_client c (\<lambda>cl. cl\<lparr>c_watched_keys := c_watched_keys cl @ [(key, db)]\<rparr>) s)"

text \<open>The loop removes the client from the list of each of its keys, and the keys that nobody watches any more.\<close>

primrec unwatch_loop :: "cid \<Rightarrow> (bkey \<times> dbid) list \<Rightarrow> 'd server \<Rightarrow> 'd server option" where
  "unwatch_loop c [] s = Some s"
| "unwatch_loop c (wk # wks) s =
     (let (key, db) = wk
      in do {
        clients \<leftarrow> s_watched s db key;
        if c \<in> set clients then
          let clients = remove1 c clients;
              w = (if clients = [] then (s_watched s db)(key := None) else (s_watched s db)(key \<mapsto> clients));
              s = s\<lparr>s_watched := (s_watched s)(db := w)\<rparr>
          in unwatch_loop c wks (upd_client c (\<lambda>cl. cl\<lparr>c_watched_keys := wks\<rparr>) s)
        else None })"

definition unwatchAllKeys :: "cid \<Rightarrow> 'd server \<Rightarrow> 'd server option" where
  "unwatchAllKeys c s =
     (if c_watched_keys (s_client s c) = [] then Some s else unwatch_loop c (c_watched_keys (s_client s c)) s)"

definition touchWatchedKey :: "dbid \<Rightarrow> bkey \<Rightarrow> 'd server \<Rightarrow> 'd server" where
  "touchWatchedKey db key s =
     (case s_watched s db key of
       None \<Rightarrow> s
     | Some clients \<Rightarrow> fold (\<lambda>c. upd_client c (add_flags {CLIENT_DIRTY_CAS})) clients s)"

definition touch_if_exists :: "int \<Rightarrow> cid \<Rightarrow> bkey \<times> dbid \<Rightarrow> 'd server \<Rightarrow> 'd server" where
  "touch_if_exists dbid c wk s =
     (let (key, db) = wk
      in if (dbid = - 1 \<or> int db = dbid) \<and> key \<in> s_keys s db then upd_client c (add_flags {CLIENT_DIRTY_CAS}) s else s)"

definition touch_on_flush :: "int \<Rightarrow> cid \<Rightarrow> 'd server \<Rightarrow> 'd server" where
  "touch_on_flush dbid c s = fold (touch_if_exists dbid c) (c_watched_keys (s_client s c)) s"

definition touchWatchedKeysOnFlush :: "int \<Rightarrow> 'd server \<Rightarrow> 'd server" where
  "touchWatchedKeysOnFlush dbid s = fold (touch_on_flush dbid) (s_clients s) s"

definition signalModifiedKey :: "dbid \<Rightarrow> bkey \<Rightarrow> 'd server \<Rightarrow> 'd server" where
  "signalModifiedKey db key = touchWatchedKey db key"

definition signalFlushedDb :: "int \<Rightarrow> 'd server \<Rightarrow> 'd server" where
  "signalFlushedDb dbid = touchWatchedKeysOnFlush dbid"

definition watchCommand :: "cid \<Rightarrow> 'd server \<Rightarrow> 'd server option" where
  "watchCommand c s =
     (if CLIENT_MULTI \<in> c_flags (s_client s c) then Some (addReplyError c ''WATCH inside MULTI is not allowed'' s)
      else Some (addReply c (Shared shared_ok) (fold (watchForKey c) (tl (c_argv (s_client s c))) s)))"

definition unwatchCommand :: "cid \<Rightarrow> 'd server \<Rightarrow> 'd server option" where
  "unwatchCommand c s =
     do { s \<leftarrow> unwatchAllKeys c s;
          Some (addReply c (Shared shared_ok) (upd_client c (del_flags {CLIENT_DIRTY_CAS}) s)) }"

subsection \<open>The queue of a transaction\<close>

definition initClientMultiState :: "client \<Rightarrow> client" where
  "initClientMultiState cl = cl\<lparr>c_mstate := \<lparr>ms_commands = [], ms_cmd_flags = {}\<rparr>\<rparr>"

definition queueMultiCommand :: "cid \<Rightarrow> 'd server \<Rightarrow> 'd server option" where
  "queueMultiCommand c s =
     do { cmd \<leftarrow> c_cmd (s_client s c);
          Some (upd_client c (\<lambda>cl. cl\<lparr>c_mstate :=
            \<lparr>ms_commands = ms_commands (c_mstate cl) @ [\<lparr>mc_argv = c_argv cl, mc_cmd = cmd\<rparr>],
             ms_cmd_flags = ms_cmd_flags (c_mstate cl) \<union> cmd_flags cmd\<rparr>\<rparr>) s) }"

definition discardTransaction :: "cid \<Rightarrow> 'd server \<Rightarrow> 'd server option" where
  "discardTransaction c s =
     unwatchAllKeys c (upd_client c (del_flags {CLIENT_MULTI, CLIENT_DIRTY_CAS, CLIENT_DIRTY_EXEC} \<circ> initClientMultiState) s)"

definition flagTransaction :: "cid \<Rightarrow> 'd server \<Rightarrow> 'd server" where
  "flagTransaction c s =
     (if CLIENT_MULTI \<in> c_flags (s_client s c) then upd_client c (add_flags {CLIENT_DIRTY_EXEC}) s else s)"

definition multiCommand :: "cid \<Rightarrow> 'd server \<Rightarrow> 'd server option" where
  "multiCommand c s =
     (if CLIENT_MULTI \<in> c_flags (s_client s c) then Some (addReplyError c ''MULTI calls can not be nested'' s)
      else Some (addReply c (Shared shared_ok) (upd_client c (add_flags {CLIENT_MULTI}) s)))"

definition discardCommand :: "cid \<Rightarrow> 'd server \<Rightarrow> 'd server option" where
  "discardCommand c s =
     (if CLIENT_MULTI \<notin> c_flags (s_client s c) then Some (addReplyError c ''DISCARD without MULTI'' s)
      else do { s \<leftarrow> discardTransaction c s; Some (addReply c (Shared shared_ok) s) })"

subsection \<open>Propagation\<close>

text \<open>
  The part of \<^verbatim>\<open>replicationFeedSlaves\<close> that decides what enters the replication stream: an instance with a master feeds
  nothing, its replicas get the stream of its master. How the stream reaches the replicas and the backlog is modelled in the
  theories on replication; without replicas and backlog nobody reads it.
\<close>

definition feed_stream :: "dbid \<Rightarrow> byte list list \<Rightarrow> 'd server \<Rightarrow> 'd server" where
  "feed_stream dictid argv s = (if s_masterhost s then s else s\<lparr>s_repl := s_repl s @ [(dictid, argv)]\<rparr>)"

definition propagate :: "redisCommand \<Rightarrow> dbid \<Rightarrow> byte list list \<Rightarrow> propagate_flag set \<Rightarrow> 'd server \<Rightarrow> 'd server" where
  "propagate cmd db argv flags s =
     (let s = (if s_aof_on s \<and> PROPAGATE_AOF \<in> flags then s\<lparr>s_aof := s_aof s @ [(cmd, db, argv)]\<rparr> else s)
      in if PROPAGATE_REPL \<in> flags then feed_stream db argv s else s)"

definition alsoPropagate :: "redisCommand \<Rightarrow> dbid \<Rightarrow> byte list list \<Rightarrow> propagate_flag set \<Rightarrow> 'd server \<Rightarrow> 'd server" where
  "alsoPropagate cmd db argv target s =
     (if s_loading s then s
      else s\<lparr>s_also_propagate := s_also_propagate s @ [\<lparr>op_cmd = cmd, op_dbid = db, op_argv = argv, op_target = target\<rparr>]\<rparr>)"

definition replicationFeedMonitors :: "cid \<Rightarrow> 'd server \<Rightarrow> 'd server" where
  "replicationFeedMonitors c s =
     s\<lparr>s_monitor_feed := s_monitor_feed s @ [(c, c_db (s_client s c), c_argv (s_client s c))]\<rparr>"

definition forceCommandPropagation :: "cid \<Rightarrow> propagate_flag set \<Rightarrow> 'd server \<Rightarrow> 'd server" where
  "forceCommandPropagation c flags =
     upd_client c (add_flags ((if PROPAGATE_REPL \<in> flags then {CLIENT_FORCE_REPL} else {}) \<union> (if PROPAGATE_AOF \<in> flags then {CLIENT_FORCE_AOF} else {})))"

definition preventCommandPropagation :: "cid \<Rightarrow> 'd server \<Rightarrow> 'd server" where
  "preventCommandPropagation c = upd_client c (add_flags CLIENT_PREVENT_PROP)"

definition preventCommandAOF :: "cid \<Rightarrow> 'd server \<Rightarrow> 'd server" where
  "preventCommandAOF c = upd_client c (add_flags {CLIENT_PREVENT_AOF_PROP})"

definition preventCommandReplication :: "cid \<Rightarrow> 'd server \<Rightarrow> 'd server" where
  "preventCommandReplication c = upd_client c (add_flags {CLIENT_PREVENT_REPL_PROP})"

abbreviation PROP_FLAGS :: "client_flag set" where
  "PROP_FLAGS \<equiv> {CLIENT_FORCE_AOF, CLIENT_FORCE_REPL} \<union> CLIENT_PREVENT_PROP"

text \<open>What is propagated for the executed command: the flags of the client after it, the flags of the call, and whether the data changed.\<close>

definition propagate_targets :: "client_flag set \<Rightarrow> call_flag set \<Rightarrow> bool \<Rightarrow> propagate_flag set" where
  "propagate_targets cf flags dirty =
     (let pf = (if dirty then {PROPAGATE_AOF, PROPAGATE_REPL} else {});
          pf = (if CLIENT_FORCE_REPL \<in> cf then pf \<union> {PROPAGATE_REPL} else pf);
          pf = (if CLIENT_FORCE_AOF \<in> cf then pf \<union> {PROPAGATE_AOF} else pf);
          pf = (if CLIENT_PREVENT_REPL_PROP \<in> cf \<or> CMD_CALL_PROPAGATE_REPL \<notin> flags then pf - {PROPAGATE_REPL} else pf)
      in if CLIENT_PREVENT_AOF_PROP \<in> cf \<or> CMD_CALL_PROPAGATE_AOF \<notin> flags then pf - {PROPAGATE_AOF} else pf)"

definition propagate_also :: "call_flag set \<Rightarrow> 'd server \<Rightarrow> 'd server" where
  "propagate_also flags s =
     (if flags \<inter> CMD_CALL_PROPAGATE \<noteq> {} then
        fold (\<lambda>rop s.
          let target = op_target rop;
              target = (if CMD_CALL_PROPAGATE_AOF \<notin> flags then target - {PROPAGATE_AOF} else target);
              target = (if CMD_CALL_PROPAGATE_REPL \<notin> flags then target - {PROPAGATE_REPL} else target)
          in if target \<noteq> {} then propagate (op_cmd rop) (op_dbid rop) (op_argv rop) target s else s)
          (s_also_propagate s) s
      else s)"

text \<open>
  \<open>proc\<close> is \<^verbatim>\<open>c->cmd->proc(c)\<close>. The slow log, the latency monitor and the statistics of the commands do not influence the execution
  and are left out.
\<close>

definition call_before :: "cid \<Rightarrow> redisCommand \<Rightarrow> 'd server \<Rightarrow> 'd server" where
  "call_before c cmd s =
     (let s = (if s_monitors s \<noteq> 0 \<and> \<not> s_loading s \<and> cmd_flags cmd \<inter> {CMD_SKIP_MONITOR, CMD_ADMIN} = {} then replicationFeedMonitors c s else s);
          s = upd_client c (del_flags PROP_FLAGS) s
      in s\<lparr>s_also_propagate := []\<rparr>)"

definition force_lua_caller :: "cid \<Rightarrow> 'd server \<Rightarrow> 'd server" where
  "force_lua_caller c s =
     (let cf = c_flags (s_client s c)
      in case s_lua_caller s of
           None \<Rightarrow> s
         | Some lc \<Rightarrow> if CLIENT_LUA \<in> cf then upd_client lc (add_flags (cf \<inter> {CLIENT_FORCE_REPL, CLIENT_FORCE_AOF})) s else s)"

definition propagate_command :: "cid \<Rightarrow> redisCommand \<Rightarrow> call_flag set \<Rightarrow> bool \<Rightarrow> 'd server \<Rightarrow> 'd server" where
  "propagate_command c cmd flags dirty s =
     (let cf = c_flags (s_client s c)
      in if flags \<inter> CMD_CALL_PROPAGATE \<noteq> {} \<and> \<not> CLIENT_PREVENT_PROP \<subseteq> cf then
           let pf = propagate_targets cf flags dirty
           in if pf \<noteq> {} \<and> CMD_MODULE \<notin> cmd_flags cmd then propagate cmd (c_db (s_client s c)) (c_argv (s_client s c)) pf s else s
         else s)"

definition call_after :: "cid \<Rightarrow> call_flag set \<Rightarrow> client_flag set \<Rightarrow> redisOp list \<Rightarrow> int \<Rightarrow> 'd server \<Rightarrow> 'd server option" where
  "call_after c flags client_old_flags prev_also_propagate dirty s =
     do { let dirty = max 0 (s_dirty s - dirty);
          let s = force_lua_caller c s;
          cmd \<leftarrow> c_cmd (s_client s c);
          let s = propagate_command c cmd flags (dirty \<noteq> 0) s;
          let s = upd_client c (add_flags (client_old_flags \<inter> PROP_FLAGS) \<circ> del_flags PROP_FLAGS) s;
          let s = propagate_also flags s;
          Some (s\<lparr>s_also_propagate := prev_also_propagate, s_stat_numcommands := s_stat_numcommands s + 1\<rparr>) }"

definition call :: "(proc_id \<Rightarrow> cid \<Rightarrow> 'd server \<Rightarrow> 'd server option) \<Rightarrow> cid \<Rightarrow> call_flag set \<Rightarrow> 'd server \<Rightarrow> 'd server option" where
  "call proc c flags s =
     do { let client_old_flags = c_flags (s_client s c);
          let prev_also_propagate = s_also_propagate s;
          cmd \<leftarrow> c_cmd (s_client s c);
          let s = call_before c cmd s;
          let dirty = s_dirty s;
          s \<leftarrow> proc (cmd_proc cmd) c s;
          call_after c flags client_old_flags prev_also_propagate dirty s }"

subsection \<open>EXEC\<close>

definition multi_string :: "byte list" where
  "multi_string = map (\<lambda>ch. of_char ch) ''MULTI''"

text \<open>\<open>multi_cmd\<close> is \<^verbatim>\<open>server.multiCommand\<close>.\<close>

definition execCommandPropagateMulti :: "redisCommand \<Rightarrow> cid \<Rightarrow> 'd server \<Rightarrow> 'd server" where
  "execCommandPropagateMulti multi_cmd c s =
     propagate multi_cmd (c_db (s_client s c)) [multi_string] {PROPAGATE_AOF, PROPAGATE_REPL} s"

text \<open>The loop over the queued commands. A command may change its own arguments in the queue; the queue is released afterwards.\<close>

definition exec_prepare :: "redisCommand \<Rightarrow> cid \<Rightarrow> multiCmd \<Rightarrow> bool \<Rightarrow> 'd server \<Rightarrow> 'd server \<times> bool" where
  "exec_prepare multi_cmd c mc must_propagate s =
     (let s = upd_client c (\<lambda>cl. cl\<lparr>c_argv := mc_argv mc, c_cmd := Some (mc_cmd mc)\<rparr>) s
      in if \<not> must_propagate \<and> cmd_flags (mc_cmd mc) \<inter> {CMD_READONLY, CMD_ADMIN} = {} then (execCommandPropagateMulti multi_cmd c s, True)
         else (s, must_propagate))"

primrec exec_loop ::
  "(proc_id \<Rightarrow> cid \<Rightarrow> 'd server \<Rightarrow> 'd server option) \<Rightarrow> redisCommand \<Rightarrow> cid \<Rightarrow> multiCmd list \<Rightarrow> bool \<Rightarrow> 'd server \<Rightarrow> ('d server \<times> bool) option" where
  "exec_loop proc multi_cmd c [] must_propagate s = Some (s, must_propagate)"
| "exec_loop proc multi_cmd c (mc # mcs) must_propagate s =
     do { let (s, must_propagate) = exec_prepare multi_cmd c mc must_propagate s;
          s \<leftarrow> call proc c (if s_loading s then {} else CMD_CALL_FULL) s;
          exec_loop proc multi_cmd c mcs must_propagate s }"

definition handle_monitor :: "cid \<Rightarrow> 'd server \<Rightarrow> 'd server" where
  "handle_monitor c s = (if s_monitors s \<noteq> 0 \<and> \<not> s_loading s then replicationFeedMonitors c s else s)"

definition exec_text :: "byte list" where
  "exec_text = map (\<lambda>ch. of_char ch) ''*1'' @ [13, 10] @ map (\<lambda>ch. of_char ch) ''$4'' @ [13, 10] @ map (\<lambda>ch. of_char ch) ''EXEC'' @ [13, 10]"

text \<open>A refused transaction: the reply, and the transaction is discarded.\<close>

definition exec_abort :: "cid \<Rightarrow> reply \<Rightarrow> 'd server \<Rightarrow> 'd server option" where
  "exec_abort c r s = do { s \<leftarrow> discardTransaction c (addReply c r s); Some (handle_monitor c s) }"

text \<open>The terminating EXEC: \<^verbatim>\<open>server.dirty\<close> is raised so that it is propagated, and a master that became a replica terminates its backlog.\<close>

definition exec_terminate :: "bool \<Rightarrow> bool \<Rightarrow> 'd server \<Rightarrow> 'd server" where
  "exec_terminate was_master must_propagate s =
     (if must_propagate then
        let s = s\<lparr>s_dirty := s_dirty s + 1\<rparr>
        in if s_repl_backlog s \<and> was_master \<and> s_masterhost s then s\<lparr>s_backlog := s_backlog s @ exec_text\<rparr> else s
      else s)"

definition exec_all ::
  "(proc_id \<Rightarrow> cid \<Rightarrow> 'd server \<Rightarrow> 'd server option) \<Rightarrow> redisCommand \<Rightarrow> cid \<Rightarrow> bool \<Rightarrow> 'd server \<Rightarrow> 'd server option" where
  "exec_all proc multi_cmd c was_master s =
     do { let cl = s_client s c;
          s \<leftarrow> unwatchAllKeys c s;
          let s = addReply c (Multi_bulk_len (length (ms_commands (c_mstate cl)))) s;
          (s, must_propagate) \<leftarrow> exec_loop proc multi_cmd c (ms_commands (c_mstate cl)) False s;
          let s = upd_client c (\<lambda>cl'. cl'\<lparr>c_argv := c_argv cl, c_cmd := c_cmd cl\<rparr>) s;
          s \<leftarrow> discardTransaction c s;
          Some (handle_monitor c (exec_terminate was_master must_propagate s)) }"

definition execCommand ::
  "(proc_id \<Rightarrow> cid \<Rightarrow> 'd server \<Rightarrow> 'd server option) \<Rightarrow> redisCommand \<Rightarrow> cid \<Rightarrow> 'd server \<Rightarrow> 'd server option" where
  "execCommand proc multi_cmd c s =
     (let was_master = (\<not> s_masterhost s); cl = s_client s c
      in if CLIENT_MULTI \<notin> c_flags cl then Some (addReplyError c ''EXEC without MULTI'' s)
         else if c_flags cl \<inter> {CLIENT_DIRTY_CAS, CLIENT_DIRTY_EXEC} \<noteq> {} then
           exec_abort c (Shared (if CLIENT_DIRTY_EXEC \<in> c_flags cl then shared_execaborterr else shared_nullmultibulk)) s
         else if \<not> s_loading s \<and> s_masterhost s \<and> s_repl_slave_ro s \<and> CLIENT_MASTER \<notin> c_flags cl \<and> CMD_WRITE \<in> ms_cmd_flags (c_mstate cl) then
           exec_abort c (Error_reply
             ''Transaction contains write commands but instance is now a read-only slave. EXEC aborted.'') s
         else exec_all proc multi_cmd c was_master s)"

end
