(* ===== verification/Multi_Watch.thy ===== *)
theory Multi_Watch
  imports Multi
begin

text \<open>
  The two sides of the watch tables agree: a client is in the list of a key exactly when the key is in the list of the client.
\<close>

definition watch_ok :: "'d server \<Rightarrow> bool" where
  "watch_ok s \<longleftrightarrow>
     (\<forall>c k d. (k, d) \<in> set (c_watched_keys (s_client s c)) \<longleftrightarrow> (\<exists>cs. s_watched s d k = Some cs \<and> c \<in> set cs)) \<and>
     (\<forall>d k cs. s_watched s d k = Some cs \<longrightarrow> cs \<noteq> [] \<and> distinct cs) \<and>
     (\<forall>c. distinct (c_watched_keys (s_client s c)))"

lemma watch_okD:
  assumes "watch_ok s"
  shows "(k, d) \<in> set (c_watched_keys (s_client s c)) \<longleftrightarrow> (\<exists>cs. s_watched s d k = Some cs \<and> c \<in> set cs)"
    and "s_watched s d k = Some cs \<Longrightarrow> cs \<noteq> []" and "s_watched s d k = Some cs \<Longrightarrow> distinct cs" and "distinct (c_watched_keys (s_client s c))"
  using assms unfolding watch_ok_def by blast+

text \<open>Only the watch tables matter.\<close>

definition same_watch :: "'d server \<Rightarrow> 'd server \<Rightarrow> bool" where
  "same_watch s s' \<longleftrightarrow> s_watched s' = s_watched s \<and> (\<forall>c. c_watched_keys (s_client s' c) = c_watched_keys (s_client s c))"

lemma same_watch_refl [simp]: "same_watch s s"
  by (simp add: same_watch_def)

lemma same_watch_trans: "same_watch s s1 \<Longrightarrow> same_watch s1 s2 \<Longrightarrow> same_watch s s2"
  by (simp add: same_watch_def)

lemma watch_ok_same: "same_watch s s' \<Longrightarrow> watch_ok s' = watch_ok s"
  by (simp add: same_watch_def watch_ok_def)

lemma same_watch_upd: "c_watched_keys (f (s_client s c)) = c_watched_keys (s_client s c) \<Longrightarrow> same_watch s (upd_client c f s)"
  by (simp add: same_watch_def)

lemma same_watch_addReply [simp]: "same_watch s (addReply c r s)"
  unfolding addReply_def by (rule same_watch_upd) simp

subsection \<open>Watching\<close>

lemma watchForKey_ok:
  assumes ok: "watch_ok s"
  shows "watch_ok (watchForKey c key s)"
proof (cases "(key, c_db (s_client s c)) \<in> set (c_watched_keys (s_client s c))")
  case True
  then show ?thesis using ok by (simp add: watchForKey_def Let_def)
next
  case False
  let ?d = "c_db (s_client s c)"
  let ?cs = "case s_watched s ?d key of None \<Rightarrow> [] | Some cs \<Rightarrow> cs"
  let ?s = "watchForKey c key s"
  have nc: "c \<notin> set ?cs" using False watch_okD(1) [OF ok, of key ?d c] by (auto split: option.splits)
  have w: "s_watched ?s d k = (if d = ?d \<and> k = key then Some (?cs @ [c]) else s_watched s d k)" for d k
    using False by (simp add: watchForKey_def Let_def)
  have k: "c_watched_keys (s_client ?s x) = (if x = c then c_watched_keys (s_client s c) @ [(key, ?d)] else c_watched_keys (s_client s x))" for x
    using False by (simp add: watchForKey_def Let_def)
  have iff: "(\<exists>cs. s_watched s ?d key = Some cs \<and> x \<in> set cs) \<longleftrightarrow> x \<in> set ?cs" for x by (cases "s_watched s ?d key") auto
  have "(k, d) \<in> set (c_watched_keys (s_client ?s x)) \<longleftrightarrow> (\<exists>cs. s_watched ?s d k = Some cs \<and> x \<in> set cs)" for x k d
    using watch_okD(1) [OF ok, of k d x] iff [of x] nc unfolding w k by auto
  moreover have "cs \<noteq> [] \<and> distinct cs" if "s_watched ?s d k = Some cs" for d k cs
    using that watch_okD(2,3) [OF ok] nc unfolding w by (auto split: if_splits option.splits)
  moreover have "distinct (c_watched_keys (s_client ?s x))" for x using watch_okD(4) [OF ok] False unfolding k by simp
  ultimately show ?thesis unfolding watch_ok_def by blast
qed

lemma fold_watchForKey_ok: "watch_ok s \<Longrightarrow> watch_ok (fold (watchForKey c) keys s)"
  by (induction keys arbitrary: s) (simp_all add: watchForKey_ok)

subsection \<open>Giving up all keys\<close>

lemma unwatch_step_ok:
  assumes ok: "watch_ok s" and keys: "c_watched_keys (s_client s c) = (key, d) # wks"
  shows "\<exists>cs. s_watched s d key = Some cs \<and> c \<in> set cs \<and>
    watch_ok (upd_client c (\<lambda>cl. cl\<lparr>c_watched_keys := wks\<rparr>) (s\<lparr>s_watched := (s_watched s)(d :=
      if remove1 c cs = [] then (s_watched s d)(key := None) else (s_watched s d)(key \<mapsto> remove1 c cs))\<rparr>))"
proof -
  obtain cs where cs: "s_watched s d key = Some cs" "c \<in> set cs" using watch_okD(1) [OF ok, of key d c] keys by auto
  have dis: "distinct cs" "distinct ((key, d) # wks)" using watch_okD(3) [OF ok cs(1)] watch_okD(4) [OF ok, of c] keys by simp_all
  let ?s = "upd_client c (\<lambda>cl. cl\<lparr>c_watched_keys := wks\<rparr>) (s\<lparr>s_watched := (s_watched s)(d :=
      if remove1 c cs = [] then (s_watched s d)(key := None) else (s_watched s d)(key \<mapsto> remove1 c cs))\<rparr>)"
  have w: "s_watched ?s d' k = (if d' = d \<and> k = key then if remove1 c cs = [] then None else Some (remove1 c cs) else s_watched s d' k)" for d' k
    by simp
  have k: "c_watched_keys (s_client ?s x) = (if x = c then wks else c_watched_keys (s_client s x))" for x by (simp add: upd_client_def)
  have iff: "(\<exists>cs'. s_watched ?s d key = Some cs' \<and> x \<in> set cs') \<longleftrightarrow> x \<in> set cs \<and> x \<noteq> c" for x
  proof (cases "remove1 c cs = []")
    case True
    then have "set cs - {c} = {}" using set_remove1_eq [OF dis(1), of c] by simp
    then show ?thesis unfolding w using True by auto
  next
    case False
    then show ?thesis unfolding w using set_remove1_eq [OF dis(1), of c] by simp
  qed
  have "(k, d') \<in> set (c_watched_keys (s_client ?s x)) \<longleftrightarrow> (\<exists>cs. s_watched ?s d' k = Some cs \<and> x \<in> set cs)" for x k d'
  proof (cases "k = key \<and> d' = d")
    case True
    then show ?thesis using iff [of x] dis(2) watch_okD(1) [OF ok, of key d x] cs unfolding k by auto
  next
    case False
    then show ?thesis using watch_okD(1) [OF ok, of k d' x] keys unfolding w k by auto
  qed
  moreover have "cs' \<noteq> [] \<and> distinct cs'" if "s_watched ?s d' k = Some cs'" for d' k cs'
    using that watch_okD(2,3) [OF ok] dis(1) unfolding w by (auto split: if_splits)
  moreover have "distinct (c_watched_keys (s_client ?s x))" for x using watch_okD(4) [OF ok] dis(2) unfolding k by simp
  ultimately have "watch_ok ?s" unfolding watch_ok_def by blast
  then show ?thesis using cs by blast
qed

lemma unwatch_loop_ok:
  "watch_ok s \<Longrightarrow> c_watched_keys (s_client s c) = wks \<Longrightarrow>
    \<exists>w. unwatch_loop c wks s = Some (upd_client c (\<lambda>cl. cl\<lparr>c_watched_keys := []\<rparr>) (s\<lparr>s_watched := w\<rparr>)) \<and>
      watch_ok (upd_client c (\<lambda>cl. cl\<lparr>c_watched_keys := []\<rparr>) (s\<lparr>s_watched := w\<rparr>))"
proof (induction wks arbitrary: s)
  case Nil
  have "(s_client s c)\<lparr>c_watched_keys := []\<rparr> = s_client s c" using Nil(2) by (cases "s_client s c") simp
  then have "upd_client c (\<lambda>cl. cl\<lparr>c_watched_keys := []\<rparr>) (s\<lparr>s_watched := s_watched s\<rparr>) = s" by (simp add: upd_client_def)
  then show ?case using Nil(1) by (metis unwatch_loop.simps(1))
next
  case (Cons wk wks)
  obtain key d where wk: "wk = (key, d)" by (cases wk)
  obtain cs where cs: "s_watched s d key = Some cs" "c \<in> set cs"
      "watch_ok (upd_client c (\<lambda>cl. cl\<lparr>c_watched_keys := wks\<rparr>) (s\<lparr>s_watched := (s_watched s)(d :=
        if remove1 c cs = [] then (s_watched s d)(key := None) else (s_watched s d)(key \<mapsto> remove1 c cs))\<rparr>))"
    using unwatch_step_ok [OF Cons.prems(1), of c key d wks] Cons.prems(2) wk by auto
  define s1 where "s1 = upd_client c (\<lambda>cl. cl\<lparr>c_watched_keys := wks\<rparr>) (s\<lparr>s_watched := (s_watched s)(d :=
        if remove1 c cs = [] then (s_watched s d)(key := None) else (s_watched s d)(key \<mapsto> remove1 c cs))\<rparr>)"
  have s1: "c_watched_keys (s_client s1 c) = wks" by (simp add: s1_def)
  obtain w where w: "unwatch_loop c wks s1 = Some (upd_client c (\<lambda>cl. cl\<lparr>c_watched_keys := []\<rparr>) (s1\<lparr>s_watched := w\<rparr>))"
      "watch_ok (upd_client c (\<lambda>cl. cl\<lparr>c_watched_keys := []\<rparr>) (s1\<lparr>s_watched := w\<rparr>))"
    using Cons.IH [OF cs(3) [folded s1_def] s1] by blast
  have "upd_client c (\<lambda>cl. cl\<lparr>c_watched_keys := []\<rparr>) (s1\<lparr>s_watched := w\<rparr>) = upd_client c (\<lambda>cl. cl\<lparr>c_watched_keys := []\<rparr>) (s\<lparr>s_watched := w\<rparr>)"
    by (simp add: s1_def upd_client_def)
  moreover have "unwatch_loop c (wk # wks) s = unwatch_loop c wks s1" using cs(1,2) wk by (simp add: s1_def Let_def)
  ultimately show ?case using w by metis
qed

lemma unwatchAllKeys_ok:
  assumes "watch_ok s"
  shows "\<exists>w. unwatchAllKeys c s = Some (upd_client c (\<lambda>cl. cl\<lparr>c_watched_keys := []\<rparr>) (s\<lparr>s_watched := w\<rparr>)) \<and>
    watch_ok (upd_client c (\<lambda>cl. cl\<lparr>c_watched_keys := []\<rparr>) (s\<lparr>s_watched := w\<rparr>))"
  using unwatch_loop_ok [OF assms refl, of c] unfolding unwatchAllKeys_def by (cases "c_watched_keys (s_client s c)") auto

end
