(* ===== verification/Command.thy ===== *)
theory Command
  imports Multi Util
begin

text \<open>
  The way of a request from the parsed arguments to its execution: \<^verbatim>\<open>processCommand\<close> of \<^verbatim>\<open>server.c\<close>. The parts of the server that it
  consults and that are not modelled (modules, cluster, eviction, persistence errors, blocked clients, the other commands) are the
  fields of an environment.
\<close>

record 'd env =
  e_commands :: "byte list \<Rightarrow> redisCommand option"
  e_multi_cmd :: redisCommand
  e_filters :: "cid \<Rightarrow> 'd server \<Rightarrow> 'd server"
  e_proc :: "proc_id \<Rightarrow> cid \<Rightarrow> 'd server \<Rightarrow> 'd server option"
  e_mine :: "cid \<Rightarrow> 'd server \<Rightarrow> bool"
  e_redirect :: "cid \<Rightarrow> 'd server \<Rightarrow> 'd server"
  e_free_memory :: "'d server \<Rightarrow> bool \<times> 'd server"
  e_disk_error :: "'d server \<Rightarrow> nat"
  e_blocked_keys :: "'d server \<Rightarrow> 'd server"

text \<open>The commands of \<^verbatim>\<open>multi.c\<close>, and the others; a transaction does not contain EXEC.\<close>

definition base_proc :: "'d env \<Rightarrow> proc_id \<Rightarrow> cid \<Rightarrow> 'd server \<Rightarrow> 'd server option" where
  "base_proc env p c s =
     (case p of
       multiCommand_p \<Rightarrow> multiCommand c s
     | discardCommand_p \<Rightarrow> discardCommand c s
     | watchCommand_p \<Rightarrow> watchCommand c s
     | unwatchCommand_p \<Rightarrow> unwatchCommand c s
     | _ \<Rightarrow> e_proc env p c s)"

definition full_proc :: "'d env \<Rightarrow> proc_id \<Rightarrow> cid \<Rightarrow> 'd server \<Rightarrow> 'd server option" where
  "full_proc env p c s =
     (if p = execCommand_p then execCommand (base_proc env) (e_multi_cmd env) c s else base_proc env p c s)"

definition lookupCommand :: "'d env \<Rightarrow> byte list \<Rightarrow> redisCommand option" where
  "lookupCommand env name = e_commands env name"

definition bad_arity :: "redisCommand \<Rightarrow> byte list list \<Rightarrow> bool" where
  "bad_arity cmd argv \<longleftrightarrow> (cmd_arity cmd > 0 \<and> cmd_arity cmd \<noteq> int (length argv)) \<or> int (length argv) < - cmd_arity cmd"

definition first_char_is :: "byte list list \<Rightarrow> byte \<Rightarrow> bool" where
  "first_char_is argv ch \<longleftrightarrow> length argv = 2 \<and> tolower (sint (char_at (argv ! 1) 0)) = sint ch"

abbreviation (input) DISK_ERROR_TYPE_NONE :: nat where "DISK_ERROR_TYPE_NONE \<equiv> 0"
abbreviation (input) DISK_ERROR_TYPE_RDB :: nat where "DISK_ERROR_TYPE_RDB \<equiv> 1"

text \<open>An error reply, after which the command counts as processed; \<open>flag\<close> tells whether \<^verbatim>\<open>flagTransaction\<close> is called.\<close>

definition reject :: "bool \<Rightarrow> reply \<Rightarrow> cid \<Rightarrow> 'd server \<Rightarrow> (bool \<times> 'd server) option" where
  "reject flag r c s = Some (True, addReply c r (if flag then flagTransaction c s else s))"

text \<open>The arguments that the message for an unknown command quotes.\<close>

fun unknown_args :: "byte list \<Rightarrow> byte list list \<Rightarrow> byte list" where
  "unknown_args acc [] = acc"
| "unknown_args acc (a # as) =
     (if length acc < 128 then unknown_args (acc @ [96] @ take (128 - length acc) (takeWhile (\<lambda>ch. ch \<noteq> 0) a) @ [96, 44, 32]) as else acc)"

definition execute_command :: "'d env \<Rightarrow> redisCommand \<Rightarrow> cid \<Rightarrow> 'd server \<Rightarrow> (bool \<times> 'd server) option" where
  "execute_command env cmd c s =
     (if CLIENT_MULTI \<in> c_flags (s_client s c) \<and> cmd_proc cmd \<notin> {execCommand_p, discardCommand_p, multiCommand_p, watchCommand_p} then
        do { s \<leftarrow> queueMultiCommand c s; Some (True, addReply c (Shared shared_queued) s) }
      else
        do { s \<leftarrow> call (full_proc env) c CMD_CALL_FULL s;
             let s = upd_client c (\<lambda>cl. cl\<lparr>c_woff := s_master_repl_offset s\<rparr>) s;
             Some (True, if s_ready_keys s \<noteq> 0 then e_blocked_keys env s else s) })"

text \<open>The checks behind the memory limit, in their order.\<close>

definition check_and_execute :: "'d env \<Rightarrow> redisCommand \<Rightarrow> cid \<Rightarrow> 'd server \<Rightarrow> (bool \<times> 'd server) option" where
  "check_and_execute env cmd c s =
     (let cl = s_client s c; p = cmd_proc cmd; fl = cmd_flags cmd; argv = c_argv cl
      in if e_disk_error env s \<noteq> DISK_ERROR_TYPE_NONE \<and> \<not> s_masterhost s \<and> (CMD_WRITE \<in> fl \<or> p = pingCommand_p) then
           reject True (if e_disk_error env s = DISK_ERROR_TYPE_RDB then Shared shared_bgsaveerr
                        else Error_reply ''MISCONF Errors writing to the AOF file'') c s
         else if \<not> s_masterhost s \<and> s_repl_min_slaves_to_write s \<noteq> 0 \<and> s_repl_min_slaves_max_lag s \<noteq> 0 \<and> CMD_WRITE \<in> fl \<and>
             s_repl_good_slaves_count s < s_repl_min_slaves_to_write s then
           reject True (Shared shared_noreplicaserr) c s
         else if s_masterhost s \<and> s_repl_slave_ro s \<and> CLIENT_MASTER \<notin> c_flags cl \<and> CMD_WRITE \<in> fl then
           reject False (Shared shared_roslaveerr) c s
         else if CLIENT_PUBSUB \<in> c_flags cl \<and>
             p \<notin> {pingCommand_p, subscribeCommand_p, unsubscribeCommand_p, psubscribeCommand_p, punsubscribeCommand_p} then
           reject False (Error_reply ''only (P)SUBSCRIBE / (P)UNSUBSCRIBE / PING / QUIT allowed in this context'') c s
         else if s_masterhost s \<and> \<not> s_repl_connected s \<and> \<not> s_repl_serve_stale_data s \<and> CMD_STALE \<notin> fl then
           reject True (Shared shared_masterdownerr) c s
         else if s_loading s \<and> CMD_LOADING \<notin> fl then
           reject False (Shared shared_loadingerr) c s
         else if s_lua_timedout s \<and> p \<noteq> authCommand_p \<and> p \<noteq> replconfCommand_p \<and>
             \<not> (p = shutdownCommand_p \<and> first_char_is argv 110) \<and> \<not> (p = scriptCommand_p \<and> first_char_is argv 107) then
           reject True (Shared shared_slowscripterr) c s
         else execute_command env cmd c s)"

definition check_memory :: "'d env \<Rightarrow> redisCommand \<Rightarrow> cid \<Rightarrow> 'd server \<Rightarrow> (bool \<times> 'd server) option" where
  "check_memory env cmd c s =
     (if s_maxmemory s \<noteq> 0 \<and> \<not> s_lua_timedout s then
        let (out_of_memory, s) = e_free_memory env s
        in if s_current_client s = None then Some (False, s)
           else if out_of_memory \<and>
               (CMD_DENYOOM \<in> cmd_flags cmd \<or> (CLIENT_MULTI \<in> c_flags (s_client s c) \<and> cmd_proc cmd \<noteq> execCommand_p)) then
             reject True (Shared shared_oomerr) c s
           else check_and_execute env cmd c s
      else check_and_execute env cmd c s)"

definition lua_from_master :: "cid \<Rightarrow> 'd server \<Rightarrow> bool" where
  "lua_from_master c s \<longleftrightarrow> CLIENT_LUA \<in> c_flags (s_client s c) \<and>
     (case s_lua_caller s of None \<Rightarrow> False | Some lc \<Rightarrow> CLIENT_MASTER \<in> c_flags (s_client s lc))"

definition redirected :: "'d env \<Rightarrow> redisCommand \<Rightarrow> cid \<Rightarrow> 'd server \<Rightarrow> bool" where
  "redirected env cmd c s \<longleftrightarrow> s_cluster_enabled s \<and> CLIENT_MASTER \<notin> c_flags (s_client s c) \<and> \<not> lua_from_master c s \<and>
     \<not> (\<not> cmd_getkeys cmd \<and> cmd_firstkey cmd = 0 \<and> cmd_proc cmd \<noteq> execCommand_p) \<and> \<not> e_mine env c s"

definition check_request :: "'d env \<Rightarrow> redisCommand \<Rightarrow> cid \<Rightarrow> 'd server \<Rightarrow> (bool \<times> 'd server) option" where
  "check_request env cmd c s =
     (if bad_arity cmd (c_argv (s_client s c)) then reject True (Wrong_arity (cmd_name cmd)) c s
      else if s_requirepass s \<and> \<not> c_authenticated (s_client s c) \<and> cmd_proc cmd \<noteq> authCommand_p then
        reject True (Shared shared_noautherr) c s
      else if redirected env cmd c s then
        do { s \<leftarrow> (if cmd_proc cmd = execCommand_p then discardTransaction c s else Some (flagTransaction c s));
             Some (True, e_redirect env c s) }
      else check_memory env cmd c s)"

definition processCommand :: "'d env \<Rightarrow> cid \<Rightarrow> 'd server \<Rightarrow> (bool \<times> 'd server) option" where
  "processCommand env c s =
     (let s = e_filters env c s
      in case c_argv (s_client s c) of
           [] \<Rightarrow> None
         | name # args \<Rightarrow>
             if strcaseeq (takeWhile (\<lambda>ch. ch \<noteq> 0) name) (bytes ''quit'') then
               Some (False, upd_client c (add_flags {CLIENT_CLOSE_AFTER_REPLY}) (addReply c (Shared shared_ok) s))
             else
               let found = lookupCommand env name;
                   s = upd_client c (\<lambda>cl. cl\<lparr>c_cmd := found, c_lastcmd := found\<rparr>) s
               in case found of
                    None \<Rightarrow> reject True (Unknown_command name (unknown_args [] args)) c s
                  | Some cmd \<Rightarrow> check_request env cmd c s)"

end
