(* ===== verification/Multi_Txn.thy ===== *)
theory Multi_Txn
  imports Multi_Watch Command
begin

text \<open>
  Transactions as a state machine: the steps that any client may take, and what they keep of the state of a client that watches keys.
\<close>

subsection \<open>What a step keeps for a client\<close>

definition calm :: "cid \<Rightarrow> 'd server \<Rightarrow> 'd server \<Rightarrow> bool" where
  "calm c s s' \<longleftrightarrow> (watch_ok s \<longrightarrow> watch_ok s' \<and> set (c_watched_keys (s_client s c)) \<subseteq> set (c_watched_keys (s_client s' c)) \<and>
     (CLIENT_DIRTY_CAS \<in> c_flags (s_client s c) \<longrightarrow> CLIENT_DIRTY_CAS \<in> c_flags (s_client s' c)) \<and>
     (c \<in> set (s_clients s) \<longrightarrow> c \<in> set (s_clients s')))"

definition calm_proc :: "(proc_id \<Rightarrow> cid \<Rightarrow> 'd server \<Rightarrow> 'd server option) \<Rightarrow> cid \<Rightarrow> cid \<Rightarrow> bool" where
  "calm_proc proc x c \<longleftrightarrow> (\<forall>p s s'. proc p x s = Some s' \<longrightarrow> calm c s s')"

lemma calm_procD: "calm_proc proc x c \<Longrightarrow> proc p x s = Some s' \<Longrightarrow> calm c s s'"
  unfolding calm_proc_def by blast

lemma calm_refl [simp, intro]: "calm c s s"
  by (simp add: calm_def)

lemma calm_trans: "calm c s s1 \<Longrightarrow> calm c s1 s2 \<Longrightarrow> calm c s s2"
  unfolding calm_def by blast

lemma calm_upd:
  assumes "c_watched_keys (f (s_client s x)) = c_watched_keys (s_client s x)"
    and "x = c \<Longrightarrow> CLIENT_DIRTY_CAS \<in> c_flags (s_client s x) \<Longrightarrow> CLIENT_DIRTY_CAS \<in> c_flags (f (s_client s x))"
  shows "calm c s (upd_client x f s)"
  using watch_ok_same [OF same_watch_upd [of f s x]] assms by (auto simp: calm_def)

lemma calm_addReply: "calm c s (addReply x r s)"
  unfolding addReply_def by (rule calm_upd) simp_all

lemma calm_same: "s_client s' = s_client s \<Longrightarrow> s_watched s' = s_watched s \<Longrightarrow> s_clients s' = s_clients s \<Longrightarrow> calm c s s'"
  by (simp add: calm_def watch_ok_def)

lemma calm_unwatchAllKeys:
  assumes "unwatchAllKeys x s = Some s'" and "x \<noteq> c"
  shows "calm c s s'"
  unfolding calm_def
proof
  assume "watch_ok s"
  from unwatchAllKeys_ok [OF this, of x] assms obtain w where
    "s' = upd_client x (\<lambda>cl. cl\<lparr>c_watched_keys := []\<rparr>) (s\<lparr>s_watched := w\<rparr>)" "watch_ok s'" by auto
  then show "watch_ok s' \<and> set (c_watched_keys (s_client s c)) \<subseteq> set (c_watched_keys (s_client s' c)) \<and>
     (CLIENT_DIRTY_CAS \<in> c_flags (s_client s c) \<longrightarrow> CLIENT_DIRTY_CAS \<in> c_flags (s_client s' c)) \<and>
     (c \<in> set (s_clients s) \<longrightarrow> c \<in> set (s_clients s'))"
    using assms(2) by simp
qed

subsection \<open>The commands\<close>

lemma calm_discardTransaction: "discardTransaction x s = Some s' \<Longrightarrow> x \<noteq> c \<Longrightarrow> calm c s s'"
  unfolding discardTransaction_def
  by (rule calm_trans [OF calm_upd calm_unwatchAllKeys]) (auto simp: initClientMultiState_def)

lemma calm_flagTransaction: "calm c s (flagTransaction x s)"
  unfolding flagTransaction_def by (auto intro!: calm_upd)

lemma calm_multiCommand: "multiCommand x s = Some s' \<Longrightarrow> calm c s s'"
  unfolding multiCommand_def by (auto split: if_splits intro!: calm_addReply intro: calm_trans [OF calm_upd calm_addReply])

lemma calm_discardCommand: "discardCommand x s = Some s' \<Longrightarrow> x \<noteq> c \<Longrightarrow> calm c s s'"
  unfolding discardCommand_def
  by (auto split: if_splits intro!: calm_addReply dest: calm_discardTransaction intro: calm_trans [OF _ calm_addReply])

lemma calm_unwatchCommand:
  assumes "unwatchCommand x s = Some s'" and "x \<noteq> c"
  shows "calm c s s'"
proof -
  obtain s1 where s1: "unwatchAllKeys x s = Some s1" "s' = addReply x (Shared shared_ok) (upd_client x (del_flags {CLIENT_DIRTY_CAS}) s1)"
    using assms(1) by (auto simp: unwatchCommand_def)
  have "calm c s1 (upd_client x (del_flags {CLIENT_DIRTY_CAS}) s1)" using assms(2) by (intro calm_upd) auto
  then show ?thesis using calm_unwatchAllKeys [OF s1(1) assms(2)] s1(2) calm_addReply calm_trans by metis
qed

lemma calm_watchForKey: "calm c s (watchForKey x key s)"
proof -
  have "set (c_watched_keys (s_client s c)) \<subseteq> set (c_watched_keys (s_client (watchForKey x key s) c))"
    "c_flags (s_client (watchForKey x key s) c) = c_flags (s_client s c)" "s_clients (watchForKey x key s) = s_clients s" by (auto simp: watchForKey_def Let_def)
  then show ?thesis using watchForKey_ok [of s x key] by (simp add: calm_def)
qed

lemma calm_fold: "(\<And>a s. a \<in> set as \<Longrightarrow> calm c s (f a s)) \<Longrightarrow> calm c s (fold f as s)"
  by (induction as arbitrary: s) (auto intro: calm_trans)

lemma calm_watchCommand: "watchCommand x s = Some s' \<Longrightarrow> calm c s s'"
  unfolding watchCommand_def
  by (auto split: if_splits intro!: calm_addReply calm_trans [OF calm_fold [OF calm_watchForKey] calm_addReply])

lemma calm_queueMultiCommand: "queueMultiCommand x s = Some s' \<Longrightarrow> calm c s s'"
  unfolding queueMultiCommand_def by (auto intro!: calm_upd)

lemma calm_mark: "calm c s (upd_client x (add_flags {CLIENT_DIRTY_CAS}) s)"
  by (rule calm_upd) simp_all

lemma calm_touchWatchedKey: "calm c s (touchWatchedKey db key s)"
  unfolding touchWatchedKey_def by (auto split: option.split intro!: calm_fold calm_mark)

lemma calm_touchWatchedKeysOnFlush: "calm c s (touchWatchedKeysOnFlush dbid s)"
  unfolding touchWatchedKeysOnFlush_def touch_on_flush_def touch_if_exists_def Let_def by (auto split: prod.split intro!: calm_fold calm_mark)

subsection \<open>Execution\<close>

lemma propagate_frame [simp]:
  "s_client (propagate cmd db argv fl s) = s_client s" "s_watched (propagate cmd db argv fl s) = s_watched s"
  "s_clients (propagate cmd db argv fl s) = s_clients s"
  by (simp_all add: propagate_def feed_stream_def Let_def)

lemma calm_propagate_also: "calm c s (propagate_also flags s)"
  unfolding propagate_also_def by (auto simp: Let_def intro!: calm_fold calm_same)

lemma calm_call_before: "calm c s (call_before x cmd s)"
proof -
  have "calm c s (upd_client x (del_flags PROP_FLAGS) (if m then replicationFeedMonitors x s else s))" for m
    by (rule calm_trans [OF calm_same calm_upd]) (auto simp: replicationFeedMonitors_def)
  moreover have "calm c s1 (s1\<lparr>s_also_propagate := []\<rparr>)" for s1 :: "'a server" by (rule calm_same) simp_all
  ultimately show ?thesis unfolding call_before_def Let_def using calm_trans by blast
qed

lemma calm_force_lua_caller: "calm c s (force_lua_caller x s)"
  unfolding force_lua_caller_def Let_def by (auto split: option.split intro!: calm_upd)

lemma calm_propagate_command: "calm c s (propagate_command x cmd flags dirty s)"
  unfolding propagate_command_def Let_def by (auto intro!: calm_same)

lemma call_cases:
  assumes "call proc x flags s = Some s'"
  obtains cmd s1 where "c_cmd (s_client s x) = Some cmd" "proc (cmd_proc cmd) x (call_before x cmd s) = Some s1"
    "call_after x flags (c_flags (s_client s x)) (s_also_propagate s) (s_dirty (call_before x cmd s)) s1 = Some s'"
  using assms unfolding call_def Let_def bind_eq_Some_conv by blast

lemma calm_call_after:
  assumes "call_after x flags fl prev dirty s = Some s'"
  shows "calm c s s'"
proof -
  obtain cmd where cmd: "c_cmd (s_client (force_lua_caller x s) x) = Some cmd"
    using assms unfolding call_after_def Let_def bind_eq_Some_conv by blast
  define s2 where "s2 = propagate_command x cmd flags (max 0 (s_dirty s - dirty) \<noteq> 0) (force_lua_caller x s)"
  define s3 where "s3 = upd_client x (add_flags (fl \<inter> PROP_FLAGS) \<circ> del_flags PROP_FLAGS) s2"
  define s4 where "s4 = propagate_also flags s3"
  have s': "s' = s4\<lparr>s_also_propagate := prev, s_stat_numcommands := s_stat_numcommands s4 + 1\<rparr>"
    unfolding s4_def s3_def s2_def using assms cmd by (simp add: call_after_def Let_def)
  have "calm c s s2" unfolding s2_def using calm_trans [OF calm_force_lua_caller calm_propagate_command] .
  moreover have "calm c s2 s3" unfolding s3_def by (rule calm_upd) auto
  moreover have "calm c s3 s4" unfolding s4_def by (rule calm_propagate_also)
  moreover have "calm c s4 s'" unfolding s' by (rule calm_same) simp_all
  ultimately show ?thesis using calm_trans by blast
qed

lemma calm_call_cmd:
  assumes "call proc x flags s = Some s'"
    and proc: "\<And>cmd s1 s2. c_cmd (s_client s x) = Some cmd \<Longrightarrow> proc (cmd_proc cmd) x s1 = Some s2 \<Longrightarrow> calm c s1 s2"
  shows "calm c s s'"
  using assms(1)
proof (rule call_cases)
  fix cmd s1
  assume p: "c_cmd (s_client s x) = Some cmd" "proc (cmd_proc cmd) x (call_before x cmd s) = Some s1"
    and a: "call_after x flags (c_flags (s_client s x)) (s_also_propagate s) (s_dirty (call_before x cmd s)) s1 = Some s'"
  show ?thesis using calm_trans [OF calm_trans [OF calm_call_before proc [OF p]] calm_call_after [OF a]] .
qed

lemma calm_call: "call proc x flags s = Some s' \<Longrightarrow> calm_proc proc x c \<Longrightarrow> calm c s s'"
  by (erule calm_call_cmd) (erule calm_procD)

lemma calm_exec_prepare: "exec_prepare mcmd x mc must s = (s', must') \<Longrightarrow> calm c s s'"
proof -
  define s1 where "s1 = upd_client x (\<lambda>cl. cl\<lparr>c_argv := mc_argv mc, c_cmd := Some (mc_cmd mc)\<rparr>) s"
  assume "exec_prepare mcmd x mc must s = (s', must')"
  then have "s' = s1 \<or> s' = execCommandPropagateMulti mcmd x s1"
    unfolding exec_prepare_def Let_def s1_def [symmetric] by (simp split: if_splits)
  moreover have "calm c s s1" unfolding s1_def by (rule calm_upd) simp_all
  moreover have "calm c s1 (execCommandPropagateMulti mcmd x s1)" unfolding execCommandPropagateMulti_def by (rule calm_same) simp_all
  ultimately show ?thesis using calm_trans by auto
qed

lemma calm_exec_loop:
  assumes "exec_loop proc mcmd x mcs must s = Some (s', must')" and proc: "calm_proc proc x c"
  shows "calm c s s'"
  using assms(1)
proof (induction mcs arbitrary: s must)
  case Nil
  then show ?case by simp
next
  case (Cons mc mcs)
  obtain s1 m1 where s1: "exec_prepare mcmd x mc must s = (s1, m1)" by fastforce
  obtain s2 where s2: "call proc x (if s_loading s1 then {} else CMD_CALL_FULL) s1 = Some s2" "exec_loop proc mcmd x mcs m1 s2 = Some (s', must')"
    using Cons.prems unfolding exec_loop.simps s1 Let_def prod.case bind_eq_Some_conv by blast
  show ?case
    using calm_trans [OF calm_trans [OF calm_exec_prepare [OF s1] calm_call [OF s2(1) proc]] Cons.IH [OF s2(2)]] .
qed

lemma calm_handle_monitor: "calm c s (handle_monitor x s)"
  unfolding handle_monitor_def by (auto intro: calm_same simp: replicationFeedMonitors_def)

lemma calm_exec_abort: "exec_abort x r s = Some s' \<Longrightarrow> x \<noteq> c \<Longrightarrow> calm c s s'"
  unfolding exec_abort_def
  by (auto intro!: calm_trans [OF calm_addReply calm_trans [OF calm_discardTransaction calm_handle_monitor]])

lemma exec_terminate_frame [simp]:
  "s_client (exec_terminate wm must s) = s_client s" "s_watched (exec_terminate wm must s) = s_watched s"
  "s_clients (exec_terminate wm must s) = s_clients s"
  "s_repl (exec_terminate wm must s) = s_repl s" "s_aof (exec_terminate wm must s) = s_aof s"
  by (simp_all add: exec_terminate_def Let_def)

lemma exec_all_cases:
  assumes "exec_all proc mcmd x wm s = Some s'"
  obtains s1 s2 must s3 where "unwatchAllKeys x s = Some s1"
    "exec_loop proc mcmd x (ms_commands (c_mstate (s_client s x))) False
       (addReply x (Multi_bulk_len (length (ms_commands (c_mstate (s_client s x))))) s1) = Some (s2, must)"
    "discardTransaction x (upd_client x (\<lambda>cl'. cl'\<lparr>c_argv := c_argv (s_client s x), c_cmd := c_cmd (s_client s x)\<rparr>) s2) = Some s3"
    "s' = handle_monitor x (exec_terminate wm must s3)"
  using assms unfolding exec_all_def Let_def bind_eq_Some_conv by auto

lemma calm_exec_all:
  assumes "exec_all proc mcmd x wm s = Some s'" and "x \<noteq> c" and proc: "calm_proc proc x c"
  shows "calm c s s'"
  using assms(1)
proof (rule exec_all_cases)
  fix s1 s2 s3 must
  let ?restore = "upd_client x (\<lambda>cl'. cl'\<lparr>c_argv := c_argv (s_client s x), c_cmd := c_cmd (s_client s x)\<rparr>)"
  assume s1: "unwatchAllKeys x s = Some s1"
    and s2: "exec_loop proc mcmd x (ms_commands (c_mstate (s_client s x))) False
       (addReply x (Multi_bulk_len (length (ms_commands (c_mstate (s_client s x))))) s1) = Some (s2, must)"
    and s3: "discardTransaction x (?restore s2) = Some s3" and s': "s' = handle_monitor x (exec_terminate wm must s3)"
  have "calm c s s2"
    using calm_trans [OF calm_unwatchAllKeys [OF s1 assms(2)] calm_trans [OF calm_addReply calm_exec_loop [OF s2 proc]]] .
  moreover have "calm c s2 (?restore s2)" by (rule calm_upd) simp_all
  moreover have "calm c (?restore s2) s3" using calm_discardTransaction [OF s3 assms(2)] .
  moreover have "calm c s3 s'" unfolding s' by (rule calm_trans [OF calm_same calm_handle_monitor]) simp_all
  ultimately show ?thesis using calm_trans by blast
qed

lemma calm_execCommand:
  assumes "execCommand proc mcmd x s = Some s'" and "x \<noteq> c" and proc: "calm_proc proc x c"
  shows "calm c s s'"
proof -
  consider "s' = addReplyError x ''EXEC without MULTI'' s" | r where "exec_abort x r s = Some s'" | wm where "exec_all proc mcmd x wm s = Some s'"
    using assms(1) unfolding execCommand_def Let_def by (metis option.inject)
  then show ?thesis by cases (use calm_addReply calm_exec_abort calm_exec_all assms(2) proc in blast)+
qed

end
