(* ===== verification/Multi_Run.thy ===== *)
theory Multi_Run
  imports Multi_Txn
begin

text \<open>
  Runs of the server: the requests of any number of clients, interleaved with modifications of keys. A client that watches
  a key keeps watching it, and its transaction is refused once the key has been modified.
\<close>

subsection \<open>The commands as seen by one client\<close>

text \<open>What the parts outside the model may do to client \<open>c\<close>: they do not end its watch (as they do only when they disconnect it).\<close>

definition tame :: "'d env \<Rightarrow> cid \<Rightarrow> bool" where
  "tame env c \<longleftrightarrow> (\<forall>x. calm_proc (e_proc env) x c) \<and> (\<forall>x s. calm c s (e_filters env x s)) \<and> (\<forall>x s. calm c s (e_redirect env x s)) \<and>
     (\<forall>s. calm c s (snd (e_free_memory env s)) \<and> c_cmd (s_client (snd (e_free_memory env s)) c) = c_cmd (s_client s c)) \<and>
     (\<forall>s. calm c s (e_blocked_keys env s))"

definition ends_watch :: "proc_id set" where
  "ends_watch = {execCommand_p, discardCommand_p, unwatchCommand_p}"

lemma calm_base_proc:
  assumes "base_proc env p x s = Some s'" and "tame env c" and "x = c \<Longrightarrow> p \<notin> ends_watch"
  shows "calm c s s'"
proof -
  have "calm_proc (e_proc env) x c" using assms(2) by (simp add: tame_def)
  then show ?thesis
    using assms calm_multiCommand calm_watchCommand
    by (cases p) (auto simp: base_proc_def ends_watch_def dest: calm_procD calm_discardCommand calm_unwatchCommand)
qed

lemma calm_full_proc:
  assumes "full_proc env p x s = Some s'" and "tame env c" and "x = c \<Longrightarrow> p \<notin> ends_watch"
  shows "calm c s s'"
proof (cases "p = execCommand_p")
  case True
  then have "x \<noteq> c" using assms(3) by (auto simp: ends_watch_def)
  then have "calm_proc (base_proc env) x c" using calm_base_proc assms(2) unfolding calm_proc_def by blast
  then show ?thesis using assms(1) True calm_execCommand [OF _ \<open>x \<noteq> c\<close>] by (simp add: full_proc_def)
next
  case False
  then show ?thesis using assms calm_base_proc [of env p x s s' c] by (simp add: full_proc_def)
qed

lemma calm_execute_command:
  assumes "execute_command env cmd x s = Some (b, s')" and "tame env c" and "c_cmd (s_client s c) = Some cmd' \<or> x \<noteq> c"
    and "x = c \<Longrightarrow> cmd_proc cmd' \<notin> ends_watch"
  shows "calm c s s'"
proof -
  have queue: "calm c s (addReply x r s1)" if "queueMultiCommand x s = Some s1" for r s1
    using calm_trans [OF calm_queueMultiCommand [OF that] calm_addReply] .
  have run: "calm c s (if s_ready_keys s2 \<noteq> 0 then e_blocked_keys env s2 else s2)"
    if "call (full_proc env) x CMD_CALL_FULL s = Some s1" "s2 = upd_client x (\<lambda>cl. cl\<lparr>c_woff := s_master_repl_offset s1\<rparr>) s1" for s1 s2
  proof -
    have a: "calm c s s1" using that(1) by (rule calm_call_cmd) (rule calm_full_proc [OF _ assms(2)], assumption, use assms in auto)
    have "calm c s1 s2" unfolding that(2) by (rule calm_upd) simp_all
    then have b: "calm c s s2" by (rule calm_trans [OF a])
    have "calm c s2 (e_blocked_keys env s2)" using assms(2) by (simp add: tame_def)
    then show ?thesis using b calm_trans [OF b] by simp
  qed
  show ?thesis
  proof (cases "CLIENT_MULTI \<in> c_flags (s_client s x) \<and> cmd_proc cmd \<notin> {execCommand_p, discardCommand_p, multiCommand_p, watchCommand_p}")
    case True
    then show ?thesis using assms(1) queue unfolding execute_command_def if_P [OF True] by auto
  next
    case False
    then obtain s1 where s1: "call (full_proc env) x CMD_CALL_FULL s = Some s1" "s' = (let s2 = upd_client x (\<lambda>cl. cl\<lparr>c_woff := s_master_repl_offset s1\<rparr>) s1
        in if s_ready_keys s2 \<noteq> 0 then e_blocked_keys env s2 else s2)"
      using assms(1) unfolding execute_command_def if_not_P [OF False] Let_def bind_eq_Some_conv by blast
    show ?thesis unfolding s1(2) Let_def by (rule run [OF s1(1) refl])
  qed
qed

lemma calm_reject: "reject flag r x s = Some (b, s') \<Longrightarrow> calm c s s'"
  unfolding reject_def by (auto intro: calm_trans [OF calm_flagTransaction calm_addReply] calm_addReply)

text \<open>The outcomes of the last checks: an error that flags a transaction, one of three errors that do not, or the execution.\<close>

definition unflagged_errors :: "reply set" where
  "unflagged_errors = {Shared shared_roslaveerr, Shared shared_loadingerr,
     Error_reply ''only (P)SUBSCRIBE / (P)UNSUBSCRIBE / PING / QUIT allowed in this context''}"

definition outcome :: "'d env \<Rightarrow> redisCommand \<Rightarrow> cid \<Rightarrow> 'd server \<Rightarrow> (bool \<times> 'd server) option \<Rightarrow> bool" where
  "outcome env cmd x s y \<longleftrightarrow>
     (\<exists>r. y = reject True r x s) \<or> (\<exists>r. r \<in> unflagged_errors \<and> y = reject False r x s) \<or> y = execute_command env cmd x s"

lemma outcome_intros:
  "outcome env cmd x s (reject True r x s)" "r \<in> unflagged_errors \<Longrightarrow> outcome env cmd x s (reject False r x s)"
  "outcome env cmd x s (execute_command env cmd x s)"
  "outcome env cmd x s y \<Longrightarrow> outcome env cmd x s z \<Longrightarrow> outcome env cmd x s (if b then y else z)"
  unfolding outcome_def by auto

lemma check_and_execute_outcome: "outcome env cmd x s (check_and_execute env cmd x s)"
  unfolding check_and_execute_def Let_def by (intro outcome_intros) (simp_all add: unflagged_errors_def)

lemma calm_check_and_execute:
  assumes "check_and_execute env cmd x s = Some (b, s')" and "tame env c" and "c_cmd (s_client s c) = Some cmd' \<or> x \<noteq> c"
    and "x = c \<Longrightarrow> cmd_proc cmd' \<notin> ends_watch"
  shows "calm c s s'"
proof -
  have "(\<exists>flag r. reject flag r x s = Some (b, s')) \<or> execute_command env cmd x s = Some (b, s')"
    using check_and_execute_outcome [of env cmd x s] assms(1) unfolding outcome_def by metis
  then show ?thesis using calm_reject calm_execute_command [OF _ assms(2-4)] by blast
qed

lemma calm_check_memory:
  assumes "check_memory env cmd x s = Some (b, s')" and t: "tame env c" and "c_cmd (s_client s c) = Some cmd' \<or> x \<noteq> c"
    and w: "x = c \<Longrightarrow> cmd_proc cmd' \<notin> ends_watch"
  shows "calm c s s'"
proof -
  obtain oom s1 where s1: "e_free_memory env s = (oom, s1)" by fastforce
  have c1: "calm c s s1" "c_cmd (s_client s1 c) = c_cmd (s_client s c)" using t s1 by (auto simp: tame_def dest: spec [of _ s])
  consider flag r where "reject flag r x s1 = Some (b, s')" | "check_and_execute env cmd x s1 = Some (b, s')"
    | "check_and_execute env cmd x s = Some (b, s')" | "s' = s1"
    using assms(1) unfolding check_memory_def s1 Let_def prod.case by (auto split: if_splits)
  then show ?thesis
  proof cases
    case (1 flag r)
    show ?thesis using calm_trans [OF c1(1) calm_reject [OF 1]] .
  next
    case 2
    then have "calm c s1 s'" by (rule calm_check_and_execute [OF _ t _ w]) (use assms(3) c1 in auto)
    then show ?thesis by (rule calm_trans [OF c1(1)])
  next
    case 3
    then show ?thesis by (rule calm_check_and_execute [OF _ t assms(3) w])
  qed (use c1 in simp)
qed

lemma calm_check_request:
  assumes "check_request env cmd x s = Some (b, s')" and t: "tame env c" and s: "c_cmd (s_client s x) = Some cmd"
    and h: "x = c \<Longrightarrow> cmd_proc cmd \<notin> ends_watch"
  shows "calm c s s'"
proof -
  consider flag r where "reject flag r x s = Some (b, s')" | "check_memory env cmd x s = Some (b, s')"
    | s1 where "cmd_proc cmd = execCommand_p" "discardTransaction x s = Some s1" "s' = e_redirect env x s1"
    | "s' = e_redirect env x (flagTransaction x s)"
    using assms(1) unfolding check_request_def by (auto split: if_splits)
  then show ?thesis
  proof cases
    case 2
    then show ?thesis by (rule calm_check_memory [OF _ t _ h]) (use s in auto)
  next
    case (3 s1)
    then have "x \<noteq> c" using h by (auto simp: ends_watch_def)
    then show ?thesis using calm_trans [OF calm_discardTransaction [OF 3(2)]] t 3(3) by (simp add: tame_def)
  next
    case 4
    then show ?thesis using calm_trans [OF calm_flagTransaction [of c s x]] t by (simp add: tame_def)
  qed (rule calm_reject)
qed

text \<open>The command that a request of client \<open>x\<close> names.\<close>

definition request_proc :: "'d env \<Rightarrow> cid \<Rightarrow> 'd server \<Rightarrow> proc_id option" where
  "request_proc env x s = map_option cmd_proc (lookupCommand env (hd (c_argv (s_client (e_filters env x s) x))))"

lemma calm_processCommand:
  assumes "processCommand env x s = Some (b, s')" and t: "tame env c" and h: "x = c \<Longrightarrow> \<forall>p. request_proc env x s = Some p \<longrightarrow> p \<notin> ends_watch"
  shows "calm c s s'"
proof -
  define s0 where "s0 = e_filters env x s"
  have c0: "calm c s s0" using t by (simp add: tame_def s0_def)
  obtain name args where argv: "c_argv (s_client s0 x) = name # args"
    using assms(1) unfolding processCommand_def Let_def s0_def by (auto split: list.splits)
  define s1 where "s1 = upd_client x (\<lambda>cl. cl\<lparr>c_cmd := lookupCommand env name, c_lastcmd := lookupCommand env name\<rparr>) s0"
  have c1: "calm c s s1" unfolding s1_def by (rule calm_trans [OF c0 calm_upd]) simp_all
  consider "s' = upd_client x (add_flags {CLIENT_CLOSE_AFTER_REPLY}) (addReply x (Shared shared_ok) s0)"
    | r where "reject True r x s1 = Some (b, s')" | cmd where "lookupCommand env name = Some cmd" "check_request env cmd x s1 = Some (b, s')"
    using assms(1) unfolding processCommand_def Let_def s0_def [symmetric] argv list.case s1_def by (auto split: if_splits option.splits)
  then show ?thesis
  proof cases
    case 1
    have "calm c (addReply x (Shared shared_ok) s0) s'" unfolding 1 by (rule calm_upd) simp_all
    then show ?thesis using calm_trans [OF calm_trans [OF c0 calm_addReply]] by blast
  next
    case (2 r)
    then show ?thesis using calm_trans [OF c1 calm_reject] by blast
  next
    case (3 cmd)
    have "calm c s1 s'" using 3(2) t
      by (rule calm_check_request) (use 3(1) h argv in \<open>auto simp: s1_def s0_def request_proc_def\<close>)
    then show ?thesis using calm_trans [OF c1] by blast
  qed
qed

subsection \<open>Runs\<close>

text \<open>
  A request names its client and the command; \<open>Modified\<close> and \<open>Flushed\<close> are the calls of \<^verbatim>\<open>signalModifiedKey\<close> and \<^verbatim>\<open>signalFlushedDb\<close> that
  the commands outside the model make, the latter with the keys that exist at that time.
\<close>

datatype event = Request cid "proc_id option" | Modified dbid bkey | Flushed int "dbid \<Rightarrow> bkey set"

inductive server_step :: "'d env \<Rightarrow> event \<Rightarrow> 'd server \<Rightarrow> 'd server \<Rightarrow> bool" where
  request: "processCommand env x (upd_client x (\<lambda>cl. cl\<lparr>c_argv := argv\<rparr>) s) = Some (b, s') \<Longrightarrow>
    server_step env (Request x (request_proc env x (upd_client x (\<lambda>cl. cl\<lparr>c_argv := argv\<rparr>) s))) s s'"
| modified: "server_step env (Modified db key) s (signalModifiedKey db key s)"
| flushed: "server_step env (Flushed dbid (s_keys s)) s (signalFlushedDb dbid s)"

inductive server_run :: "'d env \<Rightarrow> event list \<Rightarrow> 'd server \<Rightarrow> 'd server \<Rightarrow> bool" where
  stop: "server_run env [] s s"
| move: "server_step env e s s1 \<Longrightarrow> server_run env es s1 s2 \<Longrightarrow> server_run env (e # es) s s2"

inductive_cases server_run_NilE: "server_run env [] s s'"
inductive_cases server_run_ConsE: "server_run env (e # es) s s'"

definition touches :: "event \<Rightarrow> dbid \<Rightarrow> bkey \<Rightarrow> bool" where
  "touches e db key =
     (case e of
       Request x p \<Rightarrow> False
     | Modified d k \<Rightarrow> d = db \<and> k = key
     | Flushed i ks \<Rightarrow> (i = - 1 \<or> i = int db) \<and> key \<in> ks db)"

definition keeps_watch :: "cid \<Rightarrow> event list \<Rightarrow> bool" where
  "keeps_watch c es \<longleftrightarrow> (\<forall>p. Request c (Some p) \<in> set es \<longrightarrow> p \<notin> ends_watch)"

lemma calm_server_step:
  assumes "server_step env e s s'" and "tame env c" and "keeps_watch c [e]"
  shows "calm c s s'"
  using assms
proof (induction rule: server_step.induct)
  case (request env x argv s b s')
  have "calm c s (upd_client x (\<lambda>cl. cl\<lparr>c_argv := argv\<rparr>) s)" by (rule calm_upd) simp_all
  moreover have "calm c (upd_client x (\<lambda>cl. cl\<lparr>c_argv := argv\<rparr>) s) s'"
    using request by (intro calm_processCommand) (auto simp: keeps_watch_def)
  ultimately show ?case by (rule calm_trans)
qed (simp_all add: signalModifiedKey_def calm_touchWatchedKey signalFlushedDb_def calm_touchWatchedKeysOnFlush)

lemma calm_server_run: "server_run env es s s' \<Longrightarrow> tame env c \<Longrightarrow> keeps_watch c es \<Longrightarrow> calm c s s'"
proof (induction rule: server_run.induct)
  case (move env e s s1 es s2)
  then have "keeps_watch c [e]" "keeps_watch c es" by (auto simp: keeps_watch_def)
  then show ?case using calm_trans [OF calm_server_step [OF move(1)]] move by blast
qed simp

lemma fold_mark:
  "CLIENT_DIRTY_CAS \<in> c_flags (s_client (fold (\<lambda>c. upd_client c (add_flags {CLIENT_DIRTY_CAS})) cs s) c)"
  if "c \<in> set cs \<or> CLIENT_DIRTY_CAS \<in> c_flags (s_client s c)"
  using that by (induction cs arbitrary: s) auto

end
