(* ===== verification/Multi_Prop.thy ===== *)
theory Multi_Prop
  imports Multi_Run
begin

text \<open>
  Optimistic locking: between WATCH and EXEC the modification of a watched key, by anybody and in whatever interleaving of
  requests, makes EXEC refuse the transaction without executing any part of it.
\<close>

subsection \<open>Modifications mark the watching clients\<close>

lemma touchWatchedKey_marks:
  assumes "watch_ok s" and "(key, db) \<in> set (c_watched_keys (s_client s c))"
  shows "CLIENT_DIRTY_CAS \<in> c_flags (s_client (touchWatchedKey db key s) c)"
proof -
  obtain cs where "s_watched s db key = Some cs" "c \<in> set cs" using watch_okD(1) [OF assms(1), of key db c] assms(2) by auto
  then show ?thesis by (simp add: touchWatchedKey_def fold_mark)
qed

lemma touch_if_exists_frame [simp]:
  "s_keys (touch_if_exists dbid x wk s) = s_keys s"
  "c_watched_keys (s_client (touch_if_exists dbid x wk s) c) = c_watched_keys (s_client s c)"
  "CLIENT_DIRTY_CAS \<in> c_flags (s_client s c) \<Longrightarrow> CLIENT_DIRTY_CAS \<in> c_flags (s_client (touch_if_exists dbid x wk s) c)"
  by (auto simp: touch_if_exists_def Let_def split: prod.split)

lemma fold_touch_frame [simp]:
  "s_keys (fold (touch_if_exists dbid x) wks s) = s_keys s"
  "c_watched_keys (s_client (fold (touch_if_exists dbid x) wks s) c) = c_watched_keys (s_client s c)"
  "CLIENT_DIRTY_CAS \<in> c_flags (s_client s c) \<Longrightarrow> CLIENT_DIRTY_CAS \<in> c_flags (s_client (fold (touch_if_exists dbid x) wks s) c)"
  by (induction wks arbitrary: s) simp_all

lemma fold_touch_marks:
  assumes "(key, db) \<in> set wks" and "dbid = - 1 \<or> int db = dbid" and "key \<in> s_keys s db"
  shows "CLIENT_DIRTY_CAS \<in> c_flags (s_client (fold (touch_if_exists dbid x) wks s) x)"
  using assms
proof (induction wks arbitrary: s)
  case (Cons wk wks)
  show ?case
  proof (cases "wk = (key, db)")
    case True
    then have "CLIENT_DIRTY_CAS \<in> c_flags (s_client (touch_if_exists dbid x wk s) x)"
      using Cons.prems by (auto simp: touch_if_exists_def)
    then show ?thesis by simp
  qed (use Cons in auto)
qed simp

lemma flush_loop_marks:
  assumes "(key, db) \<in> set (c_watched_keys (s_client s c))" and "dbid = - 1 \<or> int db = dbid" and "key \<in> s_keys s db"
    and "c \<in> set xs \<or> CLIENT_DIRTY_CAS \<in> c_flags (s_client s c)"
  shows "CLIENT_DIRTY_CAS \<in> c_flags (s_client (fold (touch_on_flush dbid) xs s) c)"
  using assms
proof (induction xs arbitrary: s)
  case (Cons x xs)
  have "x = c \<Longrightarrow> CLIENT_DIRTY_CAS \<in> c_flags (s_client (touch_on_flush dbid x s) c)"
    using Cons.prems unfolding touch_on_flush_def by (auto intro: fold_touch_marks)
  then show ?case using Cons by (auto simp: touch_on_flush_def)
qed simp

lemma server_step_marks:
  assumes "server_step env e s s'" and "touches e db key" and "watch_ok s" and "(key, db) \<in> set (c_watched_keys (s_client s c))" and "c \<in> set (s_clients s)"
  shows "CLIENT_DIRTY_CAS \<in> c_flags (s_client s' c)"
  using assms
proof (induction rule: server_step.induct)
  case (flushed env dbid s)
  then show ?case unfolding signalFlushedDb_def touchWatchedKeysOnFlush_def by (intro flush_loop_marks) (auto simp: touches_def)
qed (auto simp: touches_def signalModifiedKey_def touchWatchedKey_marks)

lemma server_run_marks:
  assumes "server_run env es s s'" and "tame env c" and "keeps_watch c es" and "e \<in> set es" and "touches e db key"
    and "watch_ok s" and "(key, db) \<in> set (c_watched_keys (s_client s c))" and "c \<in> set (s_clients s)"
  shows "watch_ok s' \<and> CLIENT_DIRTY_CAS \<in> c_flags (s_client s' c)"
  using assms
proof (induction rule: server_run.induct)
  case (move env e1 s s1 es s2)
  have k: "keeps_watch c [e1]" "keeps_watch c es" using move.prems(2) by (auto simp: keeps_watch_def)
  have c1: "calm c s s1" and c2: "calm c s1 s2" using calm_server_step [OF move.hyps(1)] calm_server_run [OF move.hyps(2)] move.prems(1) k by blast+
  show ?case
  proof (cases "e1 = e")
    case True
    then have "CLIENT_DIRTY_CAS \<in> c_flags (s_client s1 c)" using server_step_marks [OF move.hyps(1)] move.prems by blast
    then show ?thesis using c1 c2 move.prems(5) unfolding calm_def by blast
  next
    case False
    then show ?thesis using move.IH move.prems k c1 unfolding calm_def by auto
  qed
qed simp

subsection \<open>The refused transaction\<close>

lemma discardTransaction_ok:
  assumes "watch_ok s"
  shows "\<exists>s'. discardTransaction c s = Some s' \<and> watch_ok s' \<and>
    (\<exists>w. s' = upd_client c (\<lambda>cl. cl\<lparr>c_watched_keys := []\<rparr>)
      ((upd_client c (del_flags {CLIENT_MULTI, CLIENT_DIRTY_CAS, CLIENT_DIRTY_EXEC} \<circ> initClientMultiState) s)\<lparr>s_watched := w\<rparr>))"
proof -
  have "watch_ok (upd_client c (del_flags {CLIENT_MULTI, CLIENT_DIRTY_CAS, CLIENT_DIRTY_EXEC} \<circ> initClientMultiState) s)"
    by (subst watch_ok_same [OF same_watch_upd]) (simp_all add: initClientMultiState_def assms)
  from unwatchAllKeys_ok [OF this, of c] show ?thesis unfolding discardTransaction_def by blast
qed

lemma exec_abort_ok:
  assumes "watch_ok s"
  shows "\<exists>s'. exec_abort c r s = Some s' \<and> watch_ok s' \<and> s_data s' = s_data s \<and> s_keys s' = s_keys s \<and> s_dirty s' = s_dirty s \<and>
    s_aof s' = s_aof s \<and> s_repl s' = s_repl s \<and> c_reply (s_client s' c) = c_reply (s_client s c) @ [r] \<and>
    c_flags (s_client s' c) = c_flags (s_client s c) - {CLIENT_MULTI, CLIENT_DIRTY_CAS, CLIENT_DIRTY_EXEC} \<and>
    ms_commands (c_mstate (s_client s' c)) = [] \<and> c_watched_keys (s_client s' c) = []"
proof -
  have "watch_ok (addReply c r s)" using watch_ok_same [OF same_watch_addReply [of s c r]] assms by simp
  then obtain s1 w where s1: "discardTransaction c (addReply c r s) = Some s1" "watch_ok s1"
    "s1 = upd_client c (\<lambda>cl. cl\<lparr>c_watched_keys := []\<rparr>)
      ((upd_client c (del_flags {CLIENT_MULTI, CLIENT_DIRTY_CAS, CLIENT_DIRTY_EXEC} \<circ> initClientMultiState) (addReply c r s))\<lparr>s_watched := w\<rparr>)"
    using discardTransaction_ok [of "addReply c r s" c] by blast
  have m: "s_client (handle_monitor c s1) = s_client s1" "watch_ok (handle_monitor c s1)" "s_data (handle_monitor c s1) = s_data s1"
    "s_keys (handle_monitor c s1) = s_keys s1" "s_dirty (handle_monitor c s1) = s_dirty s1" "s_aof (handle_monitor c s1) = s_aof s1"
    "s_repl (handle_monitor c s1) = s_repl s1"
    using s1(2) by (simp_all add: handle_monitor_def replicationFeedMonitors_def watch_ok_def)
  show ?thesis unfolding exec_abort_def s1(1) by (simp add: m, simp add: s1(3) addReply_def initClientMultiState_def del_flags_def)
qed

subsection \<open>A small server\<close>

definition demo_cmd :: "proc_id \<Rightarrow> cmd_flag set \<Rightarrow> redisCommand" where
  "demo_cmd p fl = \<lparr>cmd_name = [109], cmd_proc = p, cmd_arity = - 1, cmd_flags = fl, cmd_getkeys = False, cmd_firstkey = 0\<rparr>"

definition demo_client :: client where
  "demo_client = \<lparr>c_db = 0, c_querybuf = [], c_qb_pos = 0, c_pending_querybuf = [], c_argv = [], c_cmd = None, c_lastcmd = None, c_reqtype = 0, c_multibulklen = 0,
     c_bulklen = - 1, c_reply = [], c_flags = {}, c_authenticated = False, c_read_reploff = 0, c_reploff = 0, c_repl_ack_time = 0,
     c_mstate = \<lparr>ms_commands = [], ms_cmd_flags = {}\<rparr>, c_btype = 0, c_woff = 0, c_watched_keys = []\<rparr>"

definition demo_server :: "unit server" where
  "demo_server = \<lparr>s_client = (\<lambda>_. demo_client), s_clients = [1, 2], s_current_client = Some 1, s_watched = (\<lambda>_ _. None), s_keys = (\<lambda>_. {}), s_data = (),
     s_loading = False, s_masterhost = False, s_repl_slave_ro = True, s_repl_connected = False, s_repl_serve_stale_data = True,
     s_repl_backlog = False, s_repl_min_slaves_to_write = 0, s_repl_min_slaves_max_lag = 10, s_repl_good_slaves_count = 0,
     s_requirepass = False, s_cluster_enabled = False, s_maxmemory = 0, s_lua_timedout = False, s_lua_caller = None, s_monitors = 0,
     s_aof_on = True, s_dirty = 0, s_also_propagate = [], s_aof = [], s_repl = [], s_backlog = [], s_monitor_feed = [],
     s_master_stream = [], s_stat_numcommands = 0, s_stat_net_input_bytes = 0, s_master_repl_offset = 0, s_ready_keys = 0, s_unixtime = 0\<rparr>"

text \<open>Its commands: \<^verbatim>\<open>m\<close> is MULTI, every other name a writing command that does nothing but count as a change.\<close>

definition demo_env :: "unit env" where
  "demo_env = \<lparr>e_commands = (\<lambda>name. Some (if name = [109] then demo_cmd multiCommand_p {} else demo_cmd (other_p 0) {CMD_WRITE})),
     e_multi_cmd = demo_cmd multiCommand_p {}, e_filters = (\<lambda>_ s. s), e_proc = (\<lambda>_ _ s. Some (s\<lparr>s_dirty := s_dirty s + 1\<rparr>)), e_mine = (\<lambda>_ _. True),
     e_redirect = (\<lambda>_ s. s), e_free_memory = (\<lambda>s. (False, s)), e_disk_error = (\<lambda>_. 0), e_blocked_keys = (\<lambda>s. s)\<rparr>"

lemma tame_demo: "tame demo_env c"
  by (auto simp: tame_def demo_env_def calm_proc_def intro: calm_same)

definition watching_server :: "unit server" where
  "watching_server = watchForKey 1 [107] demo_server"

lemma demo_multi:
  "\<exists>s. processCommand demo_env 1 (upd_client 1 (\<lambda>cl. cl\<lparr>c_argv := [[109]]\<rparr>) watching_server) = Some (True, s) \<and> c_flags (s_client s 1) = {CLIENT_MULTI}"
  by (simp add: Let_def processCommand_def watching_server_def watchForKey_def demo_server_def demo_env_def demo_client_def upd_client_def lookupCommand_def
     strcaseeq_def bytes_def demo_cmd_def check_request_def bad_arity_def redirected_def check_memory_def check_and_execute_def
     execute_command_def call_def call_before_def full_proc_def base_proc_def multiCommand_def call_after_def addReply_def add_flags_def del_flags_def
     force_lua_caller_def propagate_command_def propagate_targets_def propagate_also_def)

lemma fold_keeps_flags:
  "f \<in> c_flags (s_client s c) \<Longrightarrow> f \<in> c_flags (s_client (fold (\<lambda>c. upd_client c (add_flags {CLIENT_DIRTY_CAS})) cs s) c)"
proof (induction cs arbitrary: s)
  case (Cons x cs)
  then have "f \<in> c_flags (s_client (upd_client x (add_flags {CLIENT_DIRTY_CAS}) s) c)" by auto
  then show ?case using Cons.IH by simp
qed simp

lemma watch_ok_watching_server: "watch_ok watching_server"
  unfolding watching_server_def by (rule watchForKey_ok) (simp add: watch_ok_def demo_server_def demo_client_def)

subsection \<open>The property\<close>

text \<open>
  C30. Optimistic locking: let client \<open>c\<close> watch a key, and let the server process any sequence of requests of any clients, interleaved
  with modifications, in which \<open>c\<close> itself does not issue EXEC, DISCARD or UNWATCH. If the key is modified or flushed anywhere in the
  sequence and \<open>c\<close> has opened a transaction, its EXEC executes nothing: the data, the keys, the counter of changes, the append only file and the
  replication stream stay as they are, the client gets the null reply (or the abort error if queueing failed before), and its
  transaction and its watch are cleared.
\<close>

theorem watched_key_modified_refuses_exec:
  assumes "server_run env es s s'" and "tame env c" and "keeps_watch c es" and "e \<in> set es" and "touches e db key"
    and "watch_ok s" and "(key, db) \<in> set (c_watched_keys (s_client s c))" and "c \<in> set (s_clients s)"
    and "CLIENT_MULTI \<in> c_flags (s_client s' c)"
  shows "\<exists>s''. execCommand proc multi_cmd c s' = Some s'' \<and> watch_ok s'' \<and> s_data s'' = s_data s' \<and> s_keys s'' = s_keys s' \<and>
    s_dirty s'' = s_dirty s' \<and> s_aof s'' = s_aof s' \<and> s_repl s'' = s_repl s' \<and>
    c_reply (s_client s'' c) = c_reply (s_client s' c) @
      [Shared (if CLIENT_DIRTY_EXEC \<in> c_flags (s_client s' c) then shared_execaborterr else shared_nullmultibulk)] \<and>
    c_flags (s_client s'' c) = c_flags (s_client s' c) - {CLIENT_MULTI, CLIENT_DIRTY_CAS, CLIENT_DIRTY_EXEC} \<and>
    ms_commands (c_mstate (s_client s'' c)) = [] \<and> c_watched_keys (s_client s'' c) = []"
proof -
  have marked: "watch_ok s'" "CLIENT_DIRTY_CAS \<in> c_flags (s_client s' c)" using server_run_marks [OF assms(1-8)] by simp_all
  have "execCommand proc multi_cmd c s' =
      exec_abort c (Shared (if CLIENT_DIRTY_EXEC \<in> c_flags (s_client s' c) then shared_execaborterr else shared_nullmultibulk)) s'"
    using marked(2) assms(9) by (auto simp: execCommand_def)
  then show ?thesis using exec_abort_ok [OF marked(1)] by simp
qed

theorem watched_key_modified_refuses_exec_witness:
  "\<exists>s' s''. server_run demo_env [Request 1 (Some multiCommand_p), Modified 0 [107]] watching_server s' \<and>
     execCommand (base_proc demo_env) (demo_cmd multiCommand_p {}) 1 s' = Some s'' \<and> s_dirty s'' = s_dirty s' \<and>
     c_flags (s_client s'' 1) \<inter> {CLIENT_MULTI, CLIENT_DIRTY_CAS} = {}"
proof -
  let ?s0 = "upd_client 1 (\<lambda>cl. cl\<lparr>c_argv := [[109]]\<rparr>) watching_server"
  obtain s1 where s1: "processCommand demo_env 1 ?s0 = Some (True, s1)" "c_flags (s_client s1 1) = {CLIENT_MULTI}" using demo_multi by blast
  have p: "request_proc demo_env 1 ?s0 = Some multiCommand_p"
    by (simp add: request_proc_def demo_env_def upd_client_def lookupCommand_def demo_cmd_def)
  have run: "server_run demo_env [Request 1 (Some multiCommand_p), Modified 0 [107]] watching_server (signalModifiedKey 0 [107] s1)"
    using server_step.request [OF s1(1)] unfolding p by (blast intro: server_run.intros server_step.modified)
  have "c_watched_keys (s_client watching_server 1) = [([107], 0)]" "1 \<in> set (s_clients watching_server)"
    by (simp_all add: watching_server_def watchForKey_def demo_server_def demo_client_def upd_client_def)
  moreover have "CLIENT_MULTI \<in> c_flags (s_client (signalModifiedKey 0 [107] s1) 1)"
    using fold_keeps_flags [of CLIENT_MULTI s1 1] s1(2) by (auto simp: signalModifiedKey_def touchWatchedKey_def split: option.split)
  ultimately obtain s'' where "execCommand (base_proc demo_env) (demo_cmd multiCommand_p {}) 1 (signalModifiedKey 0 [107] s1) = Some s''"
      "s_dirty s'' = s_dirty (signalModifiedKey 0 [107] s1)"
      "c_flags (s_client s'' 1) = c_flags (s_client (signalModifiedKey 0 [107] s1) 1) - {CLIENT_MULTI, CLIENT_DIRTY_CAS, CLIENT_DIRTY_EXEC}"
    using watched_key_modified_refuses_exec [OF run tame_demo [of 1] _ _ _ watch_ok_watching_server, of "Modified 0 [107]" 0 "[107]"
        "base_proc demo_env" "demo_cmd multiCommand_p {}"]
    by (auto simp: keeps_watch_def ends_watch_def touches_def)
  then show ?thesis using run by blast
qed

end
