(* ===== verification/Multi_Block.thy ===== *)
theory Multi_Block
  imports Multi_Prop
begin

text \<open>
  What a transaction sends to the replicas: one block from MULTI to EXEC.
\<close>

subsection \<open>Steps that only add to the replication stream\<close>

definition grows :: "cid \<Rightarrow> 'd server \<Rightarrow> 'd server \<Rightarrow> bool" where
  "grows c s s' \<longleftrightarrow> (watch_ok s \<longrightarrow> watch_ok s') \<and> s_dirty s \<le> s_dirty s' \<and> (\<exists>ops. s_repl s' = s_repl s @ ops) \<and>
     s_loading s' = s_loading s \<and> (c_cmd (s_client s c) \<noteq> None \<longrightarrow> c_cmd (s_client s' c) \<noteq> None)"

text \<open>
  A command of client \<open>c\<close> is well behaved when it returns, keeps the watch tables consistent, does not take back changes from the
  counter \<^verbatim>\<open>server.dirty\<close>, does not leave the server loading a dataset, and sends to the replicas only by adding to the stream.
\<close>

definition well_behaved :: "(proc_id \<Rightarrow> cid \<Rightarrow> 'd server \<Rightarrow> 'd server option) \<Rightarrow> cid \<Rightarrow> bool" where
  "well_behaved proc c \<longleftrightarrow> (\<forall>p s. watch_ok s \<longrightarrow> (\<exists>s'. proc p c s = Some s' \<and> grows c s s'))"

lemma grows_refl [simp, intro]: "grows c s s"
  by (simp add: grows_def)

lemma grows_trans: "grows c s s1 \<Longrightarrow> grows c s1 s2 \<Longrightarrow> grows c s s2"
  by (auto simp: grows_def)

lemma grows_upd:
  assumes "c_watched_keys (f (s_client s x)) = c_watched_keys (s_client s x)"
    and "x = c \<Longrightarrow> c_cmd (s_client s x) \<noteq> None \<Longrightarrow> c_cmd (f (s_client s x)) \<noteq> None"
  shows "grows c s (upd_client x f s)"
  using watch_ok_same [OF same_watch_upd [of f s x]] assms by (auto simp: grows_def)

lemma grows_same:
  "s_client s' = s_client s \<Longrightarrow> s_watched s' = s_watched s \<Longrightarrow> s_dirty s \<le> s_dirty s' \<Longrightarrow> s_repl s' = s_repl s @ ops \<Longrightarrow>
    s_loading s' = s_loading s \<Longrightarrow> grows c s s'"
  by (auto simp: grows_def watch_ok_def)

lemma flag_cmd [simp]: "c_cmd (add_flags fs cl) = c_cmd cl" "c_cmd (del_flags fs cl) = c_cmd cl" "c_argv (add_flags fs cl) = c_argv cl"
  "c_argv (del_flags fs cl) = c_argv cl"
  by (simp_all add: add_flags_def del_flags_def)

lemma grows_addReply: "grows c s (addReply x r s)"
  unfolding addReply_def by (rule grows_upd) simp_all

text \<open>The parts of the server that only the commands and the end of EXEC change.\<close>

definition same_world :: "'d server \<Rightarrow> 'd server \<Rightarrow> bool" where
  "same_world s s' \<longleftrightarrow> s_data s' = s_data s \<and> s_keys s' = s_keys s \<and> s_masterhost s' = s_masterhost s \<and> s_dirty s' = s_dirty s \<and>
     s_repl_backlog s' = s_repl_backlog s \<and> s_backlog s' = s_backlog s"

lemma same_world_refl [simp, intro]: "same_world s s"
  by (simp add: same_world_def)

lemma same_world_trans: "same_world s s1 \<Longrightarrow> same_world s1 s2 \<Longrightarrow> same_world s s2"
  by (simp add: same_world_def)

lemma same_world_upd [simp, intro]: "same_world s (upd_client x f s)"
  by (simp add: same_world_def)

lemma propagate_same [simp]: "same_world s (propagate cmd db argv fl s)"
  "s_also_propagate (propagate cmd db argv fl s) = s_also_propagate s" "s_loading (propagate cmd db argv fl s) = s_loading s"
  "s_masterhost (propagate cmd db argv fl s) = s_masterhost s" "s_dirty (propagate cmd db argv fl s) = s_dirty s"
  by (simp_all add: propagate_def feed_stream_def same_world_def Let_def)

lemma propagate_repl:
  "s_repl (propagate cmd db argv fl s) = s_repl s @ (if PROPAGATE_REPL \<in> fl \<and> \<not> s_masterhost s then [(db, argv)] else [])"
  by (simp add: propagate_def feed_stream_def Let_def)

lemma grows_propagate: "grows c s (propagate cmd db argv fl s)"
  by (rule grows_same) (simp_all add: propagate_repl)

lemma grows_fold: "(\<And>a s. grows c s (f a s)) \<Longrightarrow> grows c s (fold f as s)"
  by (induction as arbitrary: s) (auto intro: grows_trans)

lemma grows_propagate_also: "grows c s (propagate_also flags s)"
  unfolding propagate_also_def by (auto simp: Let_def intro!: grows_fold grows_propagate)

lemma grows_propagate_command: "grows c s (propagate_command x cmd flags dirty s)"
  unfolding propagate_command_def Let_def by (auto intro!: grows_propagate)

lemma grows_force_lua_caller: "grows c s (force_lua_caller x s)"
  unfolding force_lua_caller_def Let_def by (auto split: option.split intro!: grows_upd)

lemma grows_call_before: "grows c s (call_before x cmd s)"
proof -
  let ?m = "if s_monitors s \<noteq> 0 \<and> \<not> s_loading s \<and> cmd_flags cmd \<inter> {CMD_SKIP_MONITOR, CMD_ADMIN} = {} then replicationFeedMonitors x s else s"
  have m: "grows c s ?m" by (auto simp: replicationFeedMonitors_def intro: grows_same)
  have u: "grows c ?m (upd_client x (del_flags PROP_FLAGS) ?m)" by (rule grows_upd) simp_all
  have e: "grows c s1 (s1\<lparr>s_also_propagate := []\<rparr>)" for s1 :: "'a server" by (rule grows_same) simp_all
  show ?thesis unfolding call_before_def Let_def using grows_trans [OF grows_trans [OF m u] e] .
qed

lemma call_before_frame [simp]:
  "s_dirty (call_before x cmd s) = s_dirty s" "s_repl (call_before x cmd s) = s_repl s" "s_also_propagate (call_before x cmd s) = []"
  "s_client (call_before x cmd s) = (s_client s)(x := del_flags PROP_FLAGS (s_client s x))"
  "s_loading (call_before x cmd s) = s_loading s" "s_masterhost (call_before x cmd s) = s_masterhost s"
  "s_repl_slave_ro (call_before x cmd s) = s_repl_slave_ro s" "same_world s (call_before x cmd s)"
  by (simp_all add: call_before_def Let_def replicationFeedMonitors_def same_world_def)

lemma fold_same_client: "(\<And>a s. s_client (f a s) = s_client s) \<Longrightarrow> s_client (fold f as s) = s_client s"
  by (induction as arbitrary: s) simp_all

lemma propagate_also_client [simp]: "s_client (propagate_also flags s) = s_client s"
  unfolding propagate_also_def Let_def by (simp add: fold_same_client)

lemma propagate_command_client [simp]: "s_client (propagate_command x cmd flags dirty s) = s_client s"
  by (simp add: propagate_command_def Let_def)

subsection \<open>What a command sends\<close>

text \<open>
  The contribution of one command to the replication stream, read off the states before and after its implementation ran: what it fed
  itself (an expired key, for instance); the request as it stands after the execution, if the data changed or replication was
  forced, unless it was prevented or the command belongs to a module; then the commands it scheduled for the replicas. The last two
  are sent by a master only.
\<close>

definition due :: "cid \<Rightarrow> 'd server \<Rightarrow> 'd server \<Rightarrow> bool" where
  "due c a b \<longleftrightarrow> (s_dirty a < s_dirty b \<or> CLIENT_FORCE_REPL \<in> c_flags (s_client b c)) \<and>
     CLIENT_PREVENT_REPL_PROP \<notin> c_flags (s_client b c) \<and> (\<forall>cmd. c_cmd (s_client b c) = Some cmd \<longrightarrow> CMD_MODULE \<notin> cmd_flags cmd)"

definition scheduled :: "redisOp list \<Rightarrow> (dbid \<times> byte list list) list" where
  "scheduled ops = map (\<lambda>rop. (op_dbid rop, op_argv rop)) (filter (\<lambda>rop. PROPAGATE_REPL \<in> op_target rop) ops)"

definition cmd_stream :: "cid \<Rightarrow> 'd server \<Rightarrow> 'd server \<Rightarrow> (dbid \<times> byte list list) list" where
  "cmd_stream c a b = drop (length (s_repl a)) (s_repl b) @
     (if s_masterhost b then [] else (if due c a b then [(c_db (s_client b c), c_argv (s_client b c))] else []) @ scheduled (s_also_propagate b))"

lemma fold_propagate_repl:
  "s_repl (fold (\<lambda>rop s. if op_target rop \<noteq> {} then propagate (op_cmd rop) (op_dbid rop) (op_argv rop) (op_target rop) s else s) ops s) =
     s_repl s @ (if s_masterhost s then [] else scheduled ops)"
  by (induction ops arbitrary: s) (auto simp: scheduled_def propagate_repl)

lemma fold_propagate_same:
  "same_world s (fold (\<lambda>rop s. if op_target rop \<noteq> {} then propagate (op_cmd rop) (op_dbid rop) (op_argv rop) (op_target rop) s else s) ops s)"
  by (induction ops arbitrary: s) (auto intro: same_world_trans [OF propagate_same(1)])

lemma propagate_also_full:
  "s_repl (propagate_also CMD_CALL_FULL s) = s_repl s @ (if s_masterhost s then [] else scheduled (s_also_propagate s))"
  "same_world s (propagate_also CMD_CALL_FULL s)"
  unfolding propagate_also_def Let_def by (simp_all add: fold_propagate_repl fold_propagate_same cong: if_cong)

lemma propagate_command_full:
  assumes "dirty \<longleftrightarrow> s_dirty a < s_dirty s" and "c_cmd (s_client s c) = Some cmd"
  shows "s_repl (propagate_command c cmd CMD_CALL_FULL dirty s) =
      s_repl s @ (if \<not> s_masterhost s \<and> due c a s then [(c_db (s_client s c), c_argv (s_client s c))] else [])"
    and "same_world s (propagate_command c cmd CMD_CALL_FULL dirty s)"
  using assms by (auto simp: propagate_command_def propagate_targets_def due_def Let_def propagate_repl)

lemma add_no_flags: "add_flags (c_flags cl \<inter> fs) cl = cl"
  by (cases cl) (auto simp: add_flags_def)

lemma force_lua_caller_frame [simp]:
  "s_client (force_lua_caller c s) c = s_client s c" "s_repl (force_lua_caller c s) = s_repl s"
  "s_also_propagate (force_lua_caller c s) = s_also_propagate s" "same_world s (force_lua_caller c s)"
  by (auto simp: force_lua_caller_def Let_def add_no_flags upd_client_def same_world_def split: option.split)

lemma call_after_ok:
  assumes "c_cmd (s_client b c) = Some cmd" and "s_repl b = s_repl a @ ops"
  shows "\<exists>s'. call_after c CMD_CALL_FULL fl prev (s_dirty a) b = Some s' \<and> grows c b s' \<and> s_also_propagate s' = prev \<and>
    c_flags (s_client s' c) \<inter> PROP_FLAGS = fl \<inter> PROP_FLAGS \<and> same_world b s' \<and> s_repl s' = s_repl a @ cmd_stream c a b \<and>
    c_db (s_client s' c) = c_db (s_client b c)"
proof -
  define s1 where "s1 = force_lua_caller c b"
  define s2 where "s2 = propagate_command c cmd CMD_CALL_FULL (max 0 (s_dirty b - s_dirty a) \<noteq> 0) s1"
  define s3 where "s3 = upd_client c (add_flags (fl \<inter> PROP_FLAGS) \<circ> del_flags PROP_FLAGS) s2"
  define s4 where "s4 = propagate_also CMD_CALL_FULL s3"
  define s5 where "s5 = s4\<lparr>s_also_propagate := prev, s_stat_numcommands := s_stat_numcommands s4 + 1\<rparr>"
  have w1: "same_world b s1" and c1: "s_client s1 c = s_client b c" unfolding s1_def by simp_all
  have "max 0 (s_dirty b - s_dirty a) \<noteq> 0 \<longleftrightarrow> s_dirty a < s_dirty s1" using w1 by (auto simp: same_world_def)
  note p2 = propagate_command_full [OF this, of c cmd, folded s2_def]
  have w2: "same_world s1 s2" using p2(2) assms(1) c1 by simp
  have r2: "s_repl s2 = s_repl b @ (if \<not> s_masterhost b \<and> due c a b then [(c_db (s_client b c), c_argv (s_client b c))] else [])"
    using p2(1) assms(1) c1 w1 by (simp add: s1_def same_world_def due_def)
  have a2: "s_also_propagate s2 = s_also_propagate b" unfolding s2_def s1_def propagate_command_def Let_def by simp
  have w3: "same_world s2 s3" "s_repl s3 = s_repl s2" "s_also_propagate s3 = s_also_propagate b" unfolding s3_def by (simp_all add: a2)
  have w4: "same_world s3 s4" "s_repl s4 = s_repl s3 @ (if s_masterhost s3 then [] else scheduled (s_also_propagate s3))"
    unfolding s4_def by (rule propagate_also_full)+
  have w: "same_world b s4" using same_world_trans [OF w1 same_world_trans [OF w2 same_world_trans [OF w3(1) w4(1)]]] .
  have m: "s_masterhost s3 = s_masterhost b" using w w4(1) by (simp add: same_world_def)
  have "call_after c CMD_CALL_FULL fl prev (s_dirty a) b = Some s5"
    unfolding s5_def s4_def s3_def s2_def s1_def using assms(1) by (simp add: call_after_def Let_def)
  moreover have "grows c b s5"
  proof -
    have "grows c b s2" unfolding s2_def s1_def by (rule grows_trans [OF grows_force_lua_caller grows_propagate_command])
    moreover have "grows c s2 s3" unfolding s3_def by (rule grows_upd) simp_all
    moreover have "grows c s3 s4" unfolding s4_def by (rule grows_propagate_also)
    moreover have "grows c s4 s5" unfolding s5_def by (rule grows_same) simp_all
    ultimately show ?thesis using grows_trans by blast
  qed
  moreover have "c_flags (s_client s5 c) \<inter> PROP_FLAGS = fl \<inter> PROP_FLAGS" unfolding s5_def s4_def s3_def by auto
  moreover have "same_world b s5" using w by (simp add: s5_def same_world_def)
  moreover have "s_repl s5 = s_repl a @ cmd_stream c a b" unfolding s5_def cmd_stream_def using w4(2) w3(2,3) r2 m assms(2) by auto
  moreover have "c_db (s_client s5 c) = c_db (s_client b c)"
    unfolding s5_def s4_def s3_def s2_def by (simp add: c1 add_flags_def del_flags_def)
  ultimately show ?thesis by (auto simp: s5_def)
qed

text \<open>What a command of a transaction keeps of the client that executes it, and of the list of the commands to propagate.\<close>

definition same_prop :: "cid \<Rightarrow> 'd server \<Rightarrow> 'd server \<Rightarrow> bool" where
  "same_prop c s s' \<longleftrightarrow> s_also_propagate s' = s_also_propagate s \<and> c_flags (s_client s' c) \<inter> PROP_FLAGS = c_flags (s_client s c) \<inter> PROP_FLAGS"

lemma call_ok:
  assumes "well_behaved proc c" and "watch_ok s" and "c_cmd (s_client s c) = Some cmd"
  shows "\<exists>a b s'. proc (cmd_proc cmd) c a = Some b \<and> call proc c CMD_CALL_FULL s = Some s' \<and> grows c s s' \<and> same_prop c s s' \<and>
    s_client a c = del_flags PROP_FLAGS (s_client s c) \<and> s_also_propagate a = [] \<and> same_world s a \<and> same_world b s' \<and>
    s_repl s' = s_repl s @ cmd_stream c a b"
proof -
  let ?a = "call_before c cmd s"
  have g0: "grows c s ?a" by (rule grows_call_before)
  then obtain b where b: "proc (cmd_proc cmd) c ?a = Some b" "grows c ?a b"
    using assms(1,2) by (auto simp: well_behaved_def grows_def [of c s])
  have g1: "grows c s b" by (rule grows_trans [OF g0 b(2)])
  then obtain cmd' where cmd': "c_cmd (s_client b c) = Some cmd'" using assms(3) by (auto simp: grows_def)
  obtain ops where "s_repl b = s_repl ?a @ ops" using b(2) by (auto simp: grows_def)
  from call_after_ok [OF cmd' this, of "c_flags (s_client s c)" "s_also_propagate s"] obtain s' where
    s': "call_after c CMD_CALL_FULL (c_flags (s_client s c)) (s_also_propagate s) (s_dirty ?a) b = Some s'" "grows c b s'"
      "same_prop c s s'" "same_world b s'" "s_repl s' = s_repl ?a @ cmd_stream c ?a b" by (auto simp: same_prop_def)
  have "call proc c CMD_CALL_FULL s = Some s'" using assms(3) b(1) s'(1) by (simp add: call_def)
  then show ?thesis using b(1) grows_trans [OF g1 s'(2)] s'(3-5) by (intro exI [of _ ?a] exI [of _ b] exI [of _ s']) simp
qed

subsection \<open>The loop of EXEC\<close>

definition writes :: "multiCmd \<Rightarrow> bool" where
  "writes mc \<longleftrightarrow> cmd_flags (mc_cmd mc) \<inter> {CMD_READONLY, CMD_ADMIN} = {}"

text \<open>
  The executions of the queued commands, as pairs of the states before and after each implementation ran: each command in the order of the
  queue, with its own arguments, on the data that the one before it left.
\<close>

fun executed ::
  "(proc_id \<Rightarrow> cid \<Rightarrow> 'd server \<Rightarrow> 'd server option) \<Rightarrow> cid \<Rightarrow> 'd server \<Rightarrow> multiCmd list \<Rightarrow> ('d server \<times> 'd server) list \<Rightarrow> 'd server \<Rightarrow> bool" where
  "executed proc c s [] [] s' \<longleftrightarrow> same_world s s'"
| "executed proc c s (mc # mcs) ((a, b) # rs) s' \<longleftrightarrow> same_world s a \<and> c_argv (s_client a c) = mc_argv mc \<and> c_cmd (s_client a c) = Some (mc_cmd mc) \<and>
     c_flags (s_client a c) \<inter> PROP_FLAGS = {} \<and> s_also_propagate a = [] \<and> proc (cmd_proc (mc_cmd mc)) c a = Some b \<and> executed proc c b mcs rs s'"
| "executed proc c s _ _ s' \<longleftrightarrow> False"

lemma executed_same_start: "executed proc c s1 mcs rs s' \<Longrightarrow> same_world s s1 \<Longrightarrow> executed proc c s mcs rs s'"
  by (cases "(proc, c, s1, mcs, rs, s')" rule: executed.cases) (auto intro: same_world_trans)

lemma executed_same_end: "executed proc c s mcs rs s1 \<Longrightarrow> same_world s1 s' \<Longrightarrow> executed proc c s mcs rs s'"
  by (induction proc c s mcs rs s1 rule: executed.induct) (auto intro: same_world_trans)

lemma executed_length: "executed proc c s mcs rs s' \<Longrightarrow> length rs = length mcs"
  by (induction proc c s mcs rs s' rule: executed.induct) auto

definition stream_of :: "cid \<Rightarrow> ('d server \<times> 'd server) list \<Rightarrow> (dbid \<times> byte list list) list" where
  "stream_of c rs = concat (map (\<lambda>(a, b). cmd_stream c a b) rs)"

lemma stream_of_simps [simp]: "stream_of c [] = []" "stream_of c ((a, b) # rs) = cmd_stream c a b @ stream_of c rs"
  by (simp_all add: stream_of_def)

text \<open>What MULTI adds: one request, sent by a master before its first writing command.\<close>

definition multi_at :: "cid \<Rightarrow> 'd server \<Rightarrow> (dbid \<times> byte list list) list" where
  "multi_at c a = (if s_masterhost a then [] else [(c_db (s_client a c), [multi_string])])"

lemma exec_prepare_ok:
  assumes "exec_prepare mcmd c mc must s = (s', must')"
  shows "grows c s s'" and "same_prop c s s'" and "same_world s s'" and "c_cmd (s_client s' c) = Some (mc_cmd mc)"
    and "c_argv (s_client s' c) = mc_argv mc" and "must' \<longleftrightarrow> must \<or> writes mc"
    and "s_repl s' = s_repl s @ (if \<not> must \<and> writes mc then multi_at c s' else [])"
proof -
  define s1 where "s1 = upd_client c (\<lambda>cl. cl\<lparr>c_argv := mc_argv mc, c_cmd := Some (mc_cmd mc)\<rparr>) s"
  have s': "s' = (if \<not> must \<and> writes mc then execCommandPropagateMulti mcmd c s1 else s1)" "must' \<longleftrightarrow> must \<or> writes mc"
    using assms unfolding exec_prepare_def Let_def writes_def [symmetric] s1_def [symmetric] by (auto split: if_splits)
  have g: "grows c s s1" unfolding s1_def by (rule grows_upd) simp_all
  have p: "same_prop c s s1" "same_world s s1" by (simp_all add: same_prop_def s1_def)
  show "grows c s s'" unfolding s'(1) execCommandPropagateMulti_def using g grows_trans [OF g grows_propagate] by simp
  show "same_prop c s s'" using p unfolding s'(1) execCommandPropagateMulti_def same_prop_def by simp
  show "same_world s s'" using p(2) same_world_trans [OF p(2) propagate_same(1)] unfolding s'(1) execCommandPropagateMulti_def by simp
  show "c_cmd (s_client s' c) = Some (mc_cmd mc)" "c_argv (s_client s' c) = mc_argv mc"
    unfolding s'(1) execCommandPropagateMulti_def by (simp_all add: s1_def)
  show "must' \<longleftrightarrow> must \<or> writes mc" by (rule s'(2))
  show "s_repl s' = s_repl s @ (if \<not> must \<and> writes mc then multi_at c s' else [])"
    unfolding s'(1) execCommandPropagateMulti_def multi_at_def by (simp add: propagate_repl s1_def)
qed

lemma same_prop_trans: "same_prop c s s1 \<Longrightarrow> same_prop c s1 s2 \<Longrightarrow> same_prop c s s2"
  by (simp add: same_prop_def)

lemma exec_one_ok:
  assumes "well_behaved proc c" and "watch_ok s" and "\<not> s_loading s" and "exec_prepare mcmd c mc must s = (s1, must1)"
  shows "\<exists>a b s'. call proc c (if s_loading s1 then {} else CMD_CALL_FULL) s1 = Some s' \<and> grows c s s' \<and> same_prop c s s' \<and>
    (\<forall>mcs rs s2. executed proc c s' mcs rs s2 \<longrightarrow> executed proc c s (mc # mcs) ((a, b) # rs) s2) \<and>
    s_repl s' = s_repl s @ (if \<not> must \<and> writes mc then multi_at c a else []) @ cmd_stream c a b"
proof -
  note prep = exec_prepare_ok [OF assms(4)]
  have s1: "watch_ok s1" "\<not> s_loading s1" using prep(1) assms(2,3) by (simp_all add: grows_def)
  from call_ok [OF assms(1) s1(1) prep(4)] obtain a b s' where
    s': "proc (cmd_proc (mc_cmd mc)) c a = Some b" "call proc c CMD_CALL_FULL s1 = Some s'" "grows c s1 s'" "same_prop c s1 s'"
      "s_client a c = del_flags PROP_FLAGS (s_client s1 c)" "s_also_propagate a = []" "same_world s1 a" "same_world b s'"
      "s_repl s' = s_repl s1 @ cmd_stream c a b" by blast
  have "multi_at c s1 = multi_at c a" using s'(5,7) by (simp add: multi_at_def same_world_def del_flags_def)
  moreover have "executed proc c s (mc # mcs) ((a, b) # rs) s2" if "executed proc c s' mcs rs s2" for mcs rs s2
    using executed_same_start [OF that s'(8)] same_world_trans [OF prep(3) s'(7)] prep(4,5) s'(1,5,6) by (auto simp: del_flags_def)
  ultimately show ?thesis
    using s1(2) s'(2,9) prep(7) grows_trans [OF prep(1) s'(3)] same_prop_trans [OF prep(2) s'(4)]
    by (intro exI [of _ a] exI [of _ b] exI [of _ s']) simp
qed

text \<open>The part of the stream between the first and the last queued command: MULTI comes before the first that writes, and only there.\<close>

definition block :: "cid \<Rightarrow> multiCmd list \<Rightarrow> ('d server \<times> 'd server) list \<Rightarrow> (dbid \<times> byte list list) list" where
  "block c mcs rs = (let k = length (takeWhile (Not \<circ> writes) mcs)
     in stream_of c (take k rs) @ (if k < length mcs then multi_at c (fst (rs ! k)) else []) @ stream_of c (drop k rs))"

lemma block_Cons: "block c (mc # mcs) ((a, b) # rs) =
    (if writes mc then multi_at c a @ stream_of c ((a, b) # rs) else cmd_stream c a b @ block c mcs rs)"
  by (simp add: block_def Let_def)

lemma exec_loop_ok:
  assumes "well_behaved proc c" and "watch_ok s" and "\<not> s_loading s"
  shows "\<exists>rs s'. exec_loop proc mcmd c mcs must s = Some (s', must \<or> (\<exists>mc\<in>set mcs. writes mc)) \<and> grows c s s' \<and> same_prop c s s' \<and>
    executed proc c s mcs rs s' \<and> s_repl s' = s_repl s @ (if must then stream_of c rs else block c mcs rs)"
  using assms(2,3)
proof (induction mcs arbitrary: s must)
  case Nil
  have "executed proc c s [] [] s" by simp
  then show ?case by (intro exI [of _ "[]"]) (simp add: same_prop_def block_def)
next
  case (Cons mc mcs)
  obtain s1 m1 where s1: "exec_prepare mcmd c mc must s = (s1, m1)" by fastforce
  have m1: "m1 \<longleftrightarrow> must \<or> writes mc" by (rule exec_prepare_ok(6) [OF s1])
  from exec_one_ok [OF assms(1) Cons.prems s1] obtain a b s2 where
    s2: "call proc c (if s_loading s1 then {} else CMD_CALL_FULL) s1 = Some s2" "grows c s s2" "same_prop c s s2"
      "\<And>mcs rs s3. executed proc c s2 mcs rs s3 \<Longrightarrow> executed proc c s (mc # mcs) ((a, b) # rs) s3"
      "s_repl s2 = s_repl s @ (if \<not> must \<and> writes mc then multi_at c a else []) @ cmd_stream c a b" by blast
  have "watch_ok s2" "\<not> s_loading s2" using s2(2) Cons.prems by (simp_all add: grows_def)
  from Cons.IH [OF this, of m1] obtain rs s3 where
    s3: "exec_loop proc mcmd c mcs m1 s2 = Some (s3, m1 \<or> (\<exists>mc\<in>set mcs. writes mc))" "grows c s2 s3" "same_prop c s2 s3"
      "executed proc c s2 mcs rs s3" "s_repl s3 = s_repl s2 @ (if m1 then stream_of c rs else block c mcs rs)" by blast
  have "exec_loop proc mcmd c (mc # mcs) must s = Some (s3, must \<or> (\<exists>mc\<in>set (mc # mcs). writes mc))"
    using s1 s2(1) s3(1) m1 by simp
  moreover have "s_repl s3 = s_repl s @ (if must then stream_of c ((a, b) # rs) else block c (mc # mcs) ((a, b) # rs))"
    using s2(5) s3(5) m1 by (simp add: block_Cons)
  ultimately show ?case using grows_trans [OF s2(2) s3(2)] same_prop_trans [OF s2(3) s3(3)] s2(4) [OF s3(4)] by blast
qed

text \<open>The end of EXEC: the counter is raised, and the backlog of a master that became a replica is closed with EXEC.\<close>

definition exec_closed :: "'d server \<Rightarrow> 'd server" where
  "exec_closed s = s\<lparr>s_dirty := s_dirty s + 1, s_backlog := s_backlog s @ (if s_masterhost s \<and> s_repl_backlog s then exec_text else [])\<rparr>"

lemma exec_finish_ok:
  assumes "watch_ok s"
  shows "\<exists>s'. discardTransaction c (upd_client c (\<lambda>cl. cl\<lparr>c_argv := argv, c_cmd := cmd\<rparr>) s) = Some s' \<and>
    same_world (exec_closed s) (handle_monitor c (exec_terminate True True s')) \<and> same_prop c s (handle_monitor c (exec_terminate True True s')) \<and>
    s_repl (handle_monitor c (exec_terminate True True s')) = s_repl s \<and>
    c_cmd (s_client (handle_monitor c (exec_terminate True True s')) c) = cmd \<and>
    c_argv (s_client (handle_monitor c (exec_terminate True True s')) c) = argv"
proof -
  let ?restore = "upd_client c (\<lambda>cl. cl\<lparr>c_argv := argv, c_cmd := cmd\<rparr>)"
  have "watch_ok (?restore s)" using assms by (subst watch_ok_same [OF same_watch_upd]) simp_all
  from discardTransaction_ok [OF this, of c] obtain s' w where s': "discardTransaction c (?restore s) = Some s'"
    "s' = upd_client c (\<lambda>cl. cl\<lparr>c_watched_keys := []\<rparr>)
      ((upd_client c (del_flags {CLIENT_MULTI, CLIENT_DIRTY_CAS, CLIENT_DIRTY_EXEC} \<circ> initClientMultiState) (?restore s))\<lparr>s_watched := w\<rparr>)"
    by blast
  then show ?thesis
    by (intro exI [of _ s'], simp add: handle_monitor_def replicationFeedMonitors_def exec_terminate_def Let_def,
      auto simp: same_world_def same_prop_def exec_closed_def initClientMultiState_def)
qed

lemma exec_all_ok:
  assumes "well_behaved proc c" and "watch_ok s" and "\<not> s_loading s" and "\<exists>mc\<in>set (ms_commands (c_mstate (s_client s c))). writes mc"
  shows "\<exists>rs s2 s'. exec_all proc mcmd c True s = Some s' \<and> executed proc c s (ms_commands (c_mstate (s_client s c))) rs s2 \<and>
    same_world (exec_closed s2) s' \<and> s_dirty s \<le> s_dirty s2 \<and> same_prop c s s' \<and> c_cmd (s_client s' c) = c_cmd (s_client s c) \<and>
    c_argv (s_client s' c) = c_argv (s_client s c) \<and> s_repl s' = s_repl s @ block c (ms_commands (c_mstate (s_client s c))) rs"
proof -
  define mcs where "mcs = ms_commands (c_mstate (s_client s c))"
  obtain w where w: "unwatchAllKeys c s = Some (upd_client c (\<lambda>cl. cl\<lparr>c_watched_keys := []\<rparr>) (s\<lparr>s_watched := w\<rparr>))"
    "watch_ok (upd_client c (\<lambda>cl. cl\<lparr>c_watched_keys := []\<rparr>) (s\<lparr>s_watched := w\<rparr>))" using unwatchAllKeys_ok [OF assms(2)] by blast
  define s1 where "s1 = addReply c (Multi_bulk_len (length mcs)) (upd_client c (\<lambda>cl. cl\<lparr>c_watched_keys := []\<rparr>) (s\<lparr>s_watched := w\<rparr>))"
  have s1: "watch_ok s1" unfolding s1_def using w(2) by (subst watch_ok_same [OF same_watch_addReply])
  have f1: "\<not> s_loading s1" "s_repl s1 = s_repl s" "same_prop c s s1" "same_world s s1"
    unfolding s1_def using assms(3) by (simp_all add: addReply_def same_prop_def same_world_def)
  from exec_loop_ok [OF assms(1) s1 f1(1), of mcmd mcs False] obtain rs s2 where
    s2: "exec_loop proc mcmd c mcs False s1 = Some (s2, True)" "grows c s1 s2" "same_prop c s1 s2" "executed proc c s1 mcs rs s2"
      "s_repl s2 = s_repl s1 @ block c mcs rs" using assms(4) unfolding mcs_def by auto
  have "watch_ok s2" using s2(2) s1 by (simp add: grows_def)
  from exec_finish_ok [OF this, of c "c_cmd (s_client s c)" "c_argv (s_client s c)"] obtain s3 where
    s3: "discardTransaction c (upd_client c (\<lambda>cl. cl\<lparr>c_argv := c_argv (s_client s c), c_cmd := c_cmd (s_client s c)\<rparr>) s2) = Some s3"
      "same_world (exec_closed s2) (handle_monitor c (exec_terminate True True s3))" "same_prop c s2 (handle_monitor c (exec_terminate True True s3))"
      "s_repl (handle_monitor c (exec_terminate True True s3)) = s_repl s2"
      "c_cmd (s_client (handle_monitor c (exec_terminate True True s3)) c) = c_cmd (s_client s c)"
      "c_argv (s_client (handle_monitor c (exec_terminate True True s3)) c) = c_argv (s_client s c)" by blast
  have "exec_all proc mcmd c True s = Some (handle_monitor c (exec_terminate True True s3))"
    using w(1) s2(1) s3(1) unfolding exec_all_def s1_def mcs_def by simp
  moreover have "s_dirty s \<le> s_dirty s2" using s2(2) f1(4) by (simp add: grows_def same_world_def)
  ultimately show ?thesis
    using executed_same_start [OF s2(4) f1(4)] s3(2,4-6) same_prop_trans [OF f1(3) same_prop_trans [OF s2(3) s3(3)]] s2(5) f1(2)
    unfolding mcs_def by (intro exI [of _ rs] exI [of _ s2] exI [of _ "handle_monitor c (exec_terminate True True s3)"]) simp
qed

text \<open>The commands of \<^verbatim>\<open>multi.c\<close> are well behaved.\<close>

lemma grows_unwatchAllKeys: "watch_ok s \<Longrightarrow> \<exists>s'. unwatchAllKeys c s = Some s' \<and> grows c s s'"
  using unwatchAllKeys_ok [of s c] by (auto simp: grows_def)

lemma grows_discardTransaction: "watch_ok s \<Longrightarrow> \<exists>s'. discardTransaction c s = Some s' \<and> grows c s s'"
  using discardTransaction_ok [of s c] by (auto simp: grows_def initClientMultiState_def)

lemma grows_watchForKey: "grows c s (watchForKey x key s)"
proof -
  have "s_dirty (watchForKey x key s) = s_dirty s" "s_repl (watchForKey x key s) = s_repl s" "s_loading (watchForKey x key s) = s_loading s"
    "c_cmd (s_client (watchForKey x key s) c) = c_cmd (s_client s c)" by (simp_all add: watchForKey_def Let_def)
  then show ?thesis using watchForKey_ok [of s x key] by (simp add: grows_def)
qed

lemma well_behaved_base_proc:
  assumes "well_behaved (e_proc env) c"
  shows "well_behaved (base_proc env) c"
  unfolding well_behaved_def
proof (intro allI impI)
  fix p and s :: "'a server"
  assume ok: "watch_ok s"
  have "\<exists>s'. multiCommand c s = Some s' \<and> grows c s s'"
    unfolding multiCommand_def by (auto intro!: grows_addReply intro: grows_trans [OF grows_upd grows_addReply])
  moreover have "\<exists>s'. discardCommand c s = Some s' \<and> grows c s s'"
    using grows_discardTransaction [OF ok] grows_trans [OF _ grows_addReply]
    unfolding discardCommand_def by (fastforce intro: grows_addReply)
  moreover have "\<exists>s'. watchCommand c s = Some s' \<and> grows c s s'"
    unfolding watchCommand_def by (auto intro!: grows_addReply grows_trans [OF grows_fold [OF grows_watchForKey] grows_addReply])
  moreover have "\<exists>s'. unwatchCommand c s = Some s' \<and> grows c s s'"
  proof -
    obtain s1 where "unwatchAllKeys c s = Some s1" "grows c s s1" using grows_unwatchAllKeys [OF ok] by blast
    moreover have "grows c s1 (upd_client c (del_flags {CLIENT_DIRTY_CAS}) s1)" by (rule grows_upd) simp_all
    ultimately show ?thesis unfolding unwatchCommand_def using grows_trans [OF grows_trans grows_addReply] by auto
  qed
  moreover have "\<exists>s'. e_proc env p c s = Some s' \<and> grows c s s'" using assms ok by (simp add: well_behaved_def)
  ultimately show "\<exists>s'. base_proc env p c s = Some s' \<and> grows c s s'" by (cases p) (simp_all add: base_proc_def)
qed

text \<open>
  C31. A transaction reaches the replicas as one block. Let EXEC run on a master for a client whose queue has a command that is neither
  read-only nor administrative. The call returns, the queued commands are executed in their order, each on the data the one before
  left, and the replication stream gets, in this order: what the commands before the first such command send; one MULTI; what
  this command and all behind it send; and the EXEC request. What a command sends is what it feeds itself, its request if it is due, and
  the commands it scheduled, with no further MULTI in between. A command of the queue that turns the instance into a replica
  (\<^verbatim>\<open>SLAVEOF\<close>) ends the stream there: what follows is not sent, a MULTI that was not sent before it neither, and EXEC goes to the
  backlog instead, also if there was no MULTI.
\<close>

theorem exec_propagates_as_block:
  assumes "well_behaved (e_proc env) c" and "watch_ok s" and "c_cmd (s_client s c) = Some cmd" and "cmd_proc cmd = execCommand_p" and "CMD_MODULE \<notin> cmd_flags cmd"
    and "CLIENT_MULTI \<in> c_flags (s_client s c)" and "c_flags (s_client s c) \<inter> {CLIENT_DIRTY_CAS, CLIENT_DIRTY_EXEC} = {}"
    and "\<not> s_masterhost s" and "\<not> s_loading s"
    and "mcs = ms_commands (c_mstate (s_client s c))" and "\<exists>mc\<in>set mcs. writes mc"
  shows "\<exists>s' rs s2. call (full_proc env) c CMD_CALL_FULL s = Some s' \<and> executed (base_proc env) c s mcs rs s2 \<and> same_world (exec_closed s2) s' \<and>
    s_repl s' = s_repl s @ block c mcs rs @ (if s_masterhost s2 then [] else [(c_db (s_client s' c), c_argv (s_client s c))])"
proof -
  let ?a = "call_before c cmd s"
  have a: "watch_ok ?a" "\<not> s_loading ?a" using grows_call_before [of c s c cmd] assms(2,9) by (simp_all add: grows_def)
  have ms: "ms_commands (c_mstate (s_client ?a c)) = mcs" using assms(10) by simp
  have fl: "CLIENT_MULTI \<in> c_flags (s_client ?a c)" "c_flags (s_client ?a c) \<inter> {CLIENT_DIRTY_CAS, CLIENT_DIRTY_EXEC} = {}" using assms(6,7) by auto
  from exec_all_ok [OF well_behaved_base_proc [OF assms(1)] a, of "e_multi_cmd env"] assms(11) obtain rs s2 b where
    b: "exec_all (base_proc env) (e_multi_cmd env) c True ?a = Some b" "executed (base_proc env) c ?a mcs rs s2" "same_world (exec_closed s2) b"
      "s_dirty ?a \<le> s_dirty s2" "same_prop c ?a b" "c_cmd (s_client b c) = Some cmd" "c_argv (s_client b c) = c_argv (s_client s c)"
      "s_repl b = s_repl ?a @ block c mcs rs" using assms(3) unfolding ms by auto
  have proc: "full_proc env (cmd_proc cmd) c ?a = Some b" using assms(4,8) fl b(1) by (auto simp: full_proc_def execCommand_def)
  from call_after_ok [OF b(6,8), of "c_flags (s_client s c)" "s_also_propagate s"] obtain s' where
    s': "call_after c CMD_CALL_FULL (c_flags (s_client s c)) (s_also_propagate s) (s_dirty ?a) b = Some s'" "same_world b s'"
      "s_repl s' = s_repl ?a @ cmd_stream c ?a b" "c_db (s_client s' c) = c_db (s_client b c)" by blast
  have "s_also_propagate b = []" "c_flags (s_client b c) \<inter> PROP_FLAGS = {}" using b(5) by (auto simp: same_prop_def)
  moreover have m: "s_dirty ?a < s_dirty b" "s_masterhost b = s_masterhost s2" using b(3,4) by (auto simp: same_world_def exec_closed_def)
  ultimately have "cmd_stream c ?a b = block c mcs rs @ (if s_masterhost s2 then [] else [(c_db (s_client s' c), c_argv (s_client s c))])"
    using b(6-8) s'(4) assms(5) by (auto simp: cmd_stream_def due_def scheduled_def)
  then have "s_repl s' = s_repl s @ block c mcs rs @ (if s_masterhost s2 then [] else [(c_db (s_client s' c), c_argv (s_client s c))])"
    using s'(3) by simp
  moreover have "call (full_proc env) c CMD_CALL_FULL s = Some s'" using assms(3) proc s'(1) by (simp add: call_def)
  moreover have "executed (base_proc env) c s mcs rs s2" using b(2) by (rule executed_same_start) simp
  ultimately show ?thesis using same_world_trans [OF b(3) s'(2)] by blast
qed

definition queued_server :: "unit server" where
  "queued_server = upd_client 1 (\<lambda>cl. cl\<lparr>c_argv := [[101]], c_cmd := Some (demo_cmd execCommand_p {CMD_SKIP_MONITOR}), c_flags := {CLIENT_MULTI},
     c_mstate := \<lparr>ms_commands = [\<lparr>mc_argv = [[114]], mc_cmd = demo_cmd (other_p 1) {CMD_READONLY}\<rparr>,
       \<lparr>mc_argv = [[119]], mc_cmd = demo_cmd (other_p 0) {CMD_WRITE}\<rparr>, \<lparr>mc_argv = [[120]], mc_cmd = demo_cmd (other_p 0) {CMD_WRITE}\<rparr>], ms_cmd_flags = {CMD_WRITE}\<rparr>\<rparr>) demo_server"


definition queue_env :: "unit env" where
  "queue_env = demo_env\<lparr>e_proc := \<lambda>p _ s. Some (if p = other_p 0 then s\<lparr>s_dirty := s_dirty s + 1\<rparr> else s)\<rparr>"

lemma executed_queue_env:
  assumes "executed (base_proc queue_env) c s [mc0, mc1, mc2] rs s2" and "\<not> s_masterhost s" and "cmd_proc (mc_cmd mc0) = other_p 1"
    and "cmd_proc (mc_cmd mc1) = other_p 0" and "cmd_proc (mc_cmd mc2) = other_p 0" and "\<not> writes mc0" and "writes mc1"
    and "cmd_flags (mc_cmd mc1) = {CMD_WRITE}" and "cmd_flags (mc_cmd mc2) = {CMD_WRITE}"
  shows "map snd (block c [mc0, mc1, mc2] rs) = [[multi_string], mc_argv mc1, mc_argv mc2] \<and> \<not> s_masterhost s2"
proof -
  obtain a0 b0 a1 b1 a2 b2 where rs: "rs = [(a0, b0), (a1, b1), (a2, b2)]"
    using executed_length [OF assms(1)] by (auto simp: length_Suc_conv)
  have x: "b0 = a0" "b1 = a1\<lparr>s_dirty := s_dirty a1 + 1\<rparr>" "b2 = a2\<lparr>s_dirty := s_dirty a2 + 1\<rparr>"
    using assms(1,3,4,5) unfolding rs by (simp_all add: base_proc_def queue_env_def)
  have y: "same_world s a0" "same_world a0 a1" "same_world b1 a2" "same_world b2 s2" using assms(1) x(1) unfolding rs by simp_all
  have m: "\<not> s_masterhost a0" "\<not> s_masterhost a1" "\<not> s_masterhost a2" "\<not> s_masterhost s2"
    using y assms(2) x(2,3) by (simp_all add: same_world_def)
  have z: "s_also_propagate a0 = []" "s_also_propagate a1 = []" "s_also_propagate a2 = []" "c_flags (s_client a0 c) \<inter> PROP_FLAGS = {}"
    "c_flags (s_client a1 c) \<inter> PROP_FLAGS = {}" "c_flags (s_client a2 c) \<inter> PROP_FLAGS = {}"
    "c_argv (s_client a1 c) = mc_argv mc1" "c_argv (s_client a2 c) = mc_argv mc2" "c_cmd (s_client a1 c) = Some (mc_cmd mc1)"
    "c_cmd (s_client a2 c) = Some (mc_cmd mc2)" using assms(1) unfolding rs by simp_all
  have "cmd_stream c a0 b0 = []" using z(1,4) unfolding x(1) by (auto simp: cmd_stream_def due_def scheduled_def)
  moreover have "map snd (cmd_stream c a1 b1) = [mc_argv mc1]" using z(2,5,7,9) m(2) assms(8) unfolding x(2) by (auto simp: cmd_stream_def due_def scheduled_def)
  moreover have "map snd (cmd_stream c a2 b2) = [mc_argv mc2]" using z(3,6,8,10) m(3) assms(9) unfolding x(3) by (auto simp: cmd_stream_def due_def scheduled_def)
  ultimately show ?thesis unfolding rs using m assms(6,7) by (simp add: block_def multi_at_def)
qed

theorem exec_propagates_as_block_witness:
  "\<exists>s'. call (full_proc queue_env) 1 CMD_CALL_FULL queued_server = Some s' \<and> map snd (s_repl s') = [[multi_string], [[119]], [[120]], [[101]]]"
proof -
  let ?mcs = "[\<lparr>mc_argv = [[114]], mc_cmd = demo_cmd (other_p 1) {CMD_READONLY}\<rparr>,
    \<lparr>mc_argv = [[119]], mc_cmd = demo_cmd (other_p 0) {CMD_WRITE}\<rparr>, \<lparr>mc_argv = [[120]], mc_cmd = demo_cmd (other_p 0) {CMD_WRITE}\<rparr>]"
  have wb: "well_behaved (e_proc queue_env) 1"
    by (auto simp: well_behaved_def queue_env_def intro!: grows_same)
  have ok: "watch_ok queued_server" by (simp add: watch_ok_def queued_server_def demo_server_def demo_client_def upd_client_def)
  have c: "c_cmd (s_client queued_server 1) = Some (demo_cmd execCommand_p {CMD_SKIP_MONITOR})" "c_flags (s_client queued_server 1) = {CLIENT_MULTI}"
    "c_argv (s_client queued_server 1) = [[101]]" "?mcs = ms_commands (c_mstate (s_client queued_server 1))"
    by (simp_all add: queued_server_def demo_server_def)
  have q: "s_repl queued_server = []" "\<not> s_masterhost queued_server" "\<not> s_loading queued_server" by (simp_all add: queued_server_def demo_server_def)
  have cmd: "cmd_proc (demo_cmd p fl) = p" "cmd_flags (demo_cmd p fl) = fl" for p fl by (simp_all add: demo_cmd_def)
  have fl: "CLIENT_MULTI \<in> c_flags (s_client queued_server 1)" "c_flags (s_client queued_server 1) \<inter> {CLIENT_DIRTY_CAS, CLIENT_DIRTY_EXEC} = {}"
    using c(2) by simp_all
  have "CMD_MODULE \<notin> cmd_flags (demo_cmd execCommand_p {CMD_SKIP_MONITOR})" "\<exists>mc\<in>set ?mcs. writes mc" by (simp_all add: cmd writes_def)
  from exec_propagates_as_block [OF wb ok c(1) cmd(1) this(1) fl q(2,3) c(4) this(2)] obtain s' rs s2 where
    s': "call (full_proc queue_env) 1 CMD_CALL_FULL queued_server = Some s'" "executed (base_proc queue_env) 1 queued_server ?mcs rs s2"
      "s_repl s' = s_repl queued_server @ block 1 ?mcs rs @ (if s_masterhost s2 then [] else [(c_db (s_client s' 1), c_argv (s_client queued_server 1))])"
    by blast
  have "map snd (block 1 ?mcs rs) = [[multi_string], [[119]], [[120]]] \<and> \<not> s_masterhost s2"
    by (rule executed_queue_env [OF s'(2) q(2), simplified multiCmd.simps]) (simp_all add: cmd writes_def)
  note b = this [THEN conjunct1] this [THEN conjunct2]
  have "map snd (s_repl s') = [[multi_string], [[119]], [[120]], [[101]]]"
    unfolding s'(3) q(1) c(3) map_append b(1) if_not_P [OF b(2)] by (simp only: list.map append.simps snd_conv)
  with s'(1) show ?thesis by (intro exI [of _ s'] conjI)
qed

end
