(* ===== verification/Multi_Queue.thy ===== *)
theory Multi_Queue
  imports Multi_Block
begin

text \<open>
  Queueing: what a request of a client does while a transaction of that client is open.
\<close>

text \<open>The part of a client that belongs to its transaction.\<close>

definition keeps_txn :: "cid \<Rightarrow> 'd server \<Rightarrow> 'd server \<Rightarrow> bool" where
  "keeps_txn c s s' \<longleftrightarrow> c_mstate (s_client s' c) = c_mstate (s_client s c) \<and> c_argv (s_client s' c) = c_argv (s_client s c) \<and>
     c_cmd (s_client s' c) = c_cmd (s_client s c) \<and>
     (CLIENT_MULTI \<in> c_flags (s_client s' c) \<longleftrightarrow> CLIENT_MULTI \<in> c_flags (s_client s c)) \<and>
     (CLIENT_DIRTY_EXEC \<in> c_flags (s_client s' c) \<longleftrightarrow> CLIENT_DIRTY_EXEC \<in> c_flags (s_client s c))"

text \<open>The outcomes: refused and flagged, queued, refused without a flag, or the eviction has disconnected the client.\<close>

definition flagged :: "cid \<Rightarrow> 'd server \<Rightarrow> 'd server \<Rightarrow> bool" where
  "flagged c s s' \<longleftrightarrow> ms_commands (c_mstate (s_client s' c)) = ms_commands (c_mstate (s_client s c)) \<and> CLIENT_DIRTY_EXEC \<in> c_flags (s_client s' c)"

definition queued :: "redisCommand \<Rightarrow> cid \<Rightarrow> 'd server \<Rightarrow> 'd server \<Rightarrow> bool" where
  "queued cmd c s s' \<longleftrightarrow>
     ms_commands (c_mstate (s_client s' c)) = ms_commands (c_mstate (s_client s c)) @ [\<lparr>mc_argv = c_argv (s_client s c), mc_cmd = cmd\<rparr>] \<and>
     ms_cmd_flags (c_mstate (s_client s' c)) = ms_cmd_flags (c_mstate (s_client s c)) \<union> cmd_flags cmd \<and>
     (CLIENT_DIRTY_EXEC \<in> c_flags (s_client s' c) \<longleftrightarrow> CLIENT_DIRTY_EXEC \<in> c_flags (s_client s c)) \<and>
     c_reply (s_client s' c) \<noteq> [] \<and> last (c_reply (s_client s' c)) = Shared shared_queued"

definition refused :: "cid \<Rightarrow> 'd server \<Rightarrow> 'd server \<Rightarrow> bool" where
  "refused c s s' \<longleftrightarrow> ms_commands (c_mstate (s_client s' c)) = ms_commands (c_mstate (s_client s c)) \<and>
     (CLIENT_DIRTY_EXEC \<in> c_flags (s_client s' c) \<longleftrightarrow> CLIENT_DIRTY_EXEC \<in> c_flags (s_client s c)) \<and>
     c_reply (s_client s' c) \<noteq> [] \<and> last (c_reply (s_client s' c)) \<in> unflagged_errors"

lemma reject_flags:
  assumes "CLIENT_MULTI \<in> c_flags (s_client s c)"
  shows "\<exists>s'. reject True r c s = Some (True, s') \<and> flagged c s s'"
  using assms by (simp add: reject_def flagTransaction_def addReply_def flagged_def)

lemma reject_refuses:
  assumes "r \<in> unflagged_errors"
  shows "\<exists>s'. reject False r c s = Some (True, s') \<and> refused c s s'"
  using assms by (simp add: reject_def addReply_def refused_def)

definition immediate :: "proc_id set" where
  "immediate = {execCommand_p, discardCommand_p, multiCommand_p, watchCommand_p}"

lemma execute_command_queues:
  assumes "CLIENT_MULTI \<in> c_flags (s_client s c)" and "cmd_proc cmd \<notin> immediate" and "c_cmd (s_client s c) = Some cmd"
  shows "\<exists>s'. execute_command env cmd c s = Some (True, s') \<and> queued cmd c s s'"
proof -
  have "execute_command env cmd c s = do { s \<leftarrow> queueMultiCommand c s; Some (True, addReply c (Shared shared_queued) s) }"
    using assms(1,2) by (simp add: execute_command_def immediate_def)
  then show ?thesis using assms(3) by (simp add: queueMultiCommand_def addReply_def queued_def)
qed

lemma check_and_execute_queues:
  assumes "CLIENT_MULTI \<in> c_flags (s_client s c)" and "cmd_proc cmd \<notin> immediate" and "c_cmd (s_client s c) = Some cmd"
  shows "\<exists>s'. check_and_execute env cmd c s = Some (True, s') \<and> (flagged c s s' \<or> queued cmd c s s' \<or> refused c s s')"
  using check_and_execute_outcome [of env cmd c s] reject_flags [OF assms(1)] reject_refuses execute_command_queues [OF assms, of env]
  unfolding outcome_def by metis

lemma keeps_txn_outcome:
  assumes "keeps_txn c s s1" and "flagged c s1 s2 \<or> queued cmd c s1 s2 \<or> refused c s1 s2"
  shows "flagged c s s2 \<or> queued cmd c s s2 \<or> refused c s s2"
  using assms unfolding keeps_txn_def flagged_def queued_def refused_def by auto

lemma check_memory_queues:
  assumes "CLIENT_MULTI \<in> c_flags (s_client s c)" and "cmd_proc cmd \<notin> immediate" and "c_cmd (s_client s c) = Some cmd"
    and k: "keeps_txn c s (snd (e_free_memory env s))"
  shows "\<exists>b s'. check_memory env cmd c s = Some (b, s') \<and>
    (flagged c s s' \<or> queued cmd c s s' \<or> refused c s s' \<or> \<not> b \<and> s_current_client s' = None)"
proof -
  obtain oom s1 where s1: "e_free_memory env s = (oom, s1)" by fastforce
  have k1: "keeps_txn c s s1" using k s1 by simp
  then have a1: "CLIENT_MULTI \<in> c_flags (s_client s1 c)" "c_cmd (s_client s1 c) = Some cmd" using assms(1,3) by (simp_all add: keeps_txn_def)
  consider "check_memory env cmd c s = check_and_execute env cmd c s" | "check_memory env cmd c s = Some (False, s1)" "s_current_client s1 = None"
    | "check_memory env cmd c s = reject True (Shared shared_oomerr) c s1" | "check_memory env cmd c s = check_and_execute env cmd c s1"
    unfolding check_memory_def s1 Let_def prod.case by metis
  then show ?thesis
  proof cases
    case 1
    then show ?thesis using check_and_execute_queues [OF assms(1-3), of env] by metis
  next
    case 3
    then show ?thesis using reject_flags [OF a1(1), of "Shared shared_oomerr"] keeps_txn_outcome [OF k1] by metis
  next
    case 4
    then show ?thesis using check_and_execute_queues [OF a1(1) assms(2) a1(2), of env] keeps_txn_outcome [OF k1] by metis
  qed auto
qed

lemma check_request_queues:
  assumes "CLIENT_MULTI \<in> c_flags (s_client s c)" and "cmd_proc cmd \<notin> immediate" and "c_cmd (s_client s c) = Some cmd"
    and "keeps_txn c s (snd (e_free_memory env s))" and r: "\<And>s. keeps_txn c s (e_redirect env c s)"
  shows "\<exists>b s'. check_request env cmd c s = Some (b, s') \<and>
    (flagged c s s' \<or> queued cmd c s s' \<or> refused c s s' \<or> \<not> b \<and> s_current_client s' = None)"
proof -
  define P where "P y \<longleftrightarrow> (\<exists>b s'. y = Some (b, s') \<and> (flagged c s s' \<or> queued cmd c s s' \<or> refused c s s' \<or> \<not> b \<and> s_current_client s' = None))" for y
  have "flagged c s (e_redirect env c (flagTransaction c s))"
    using r [of "flagTransaction c s"] assms(1) by (simp add: flagged_def keeps_txn_def flagTransaction_def)
  then have 1: "P (do { s \<leftarrow> (if cmd_proc cmd = execCommand_p then discardTransaction c s else Some (flagTransaction c s)); Some (True, e_redirect env c s) })"
    using assms(2) by (auto simp: immediate_def P_def)
  have both: "P y \<Longrightarrow> P z \<Longrightarrow> P (if x then y else z)" for x y z by simp
  have 2: "P (reject True r c s)" for r using reject_flags [OF assms(1), of r] unfolding P_def by blast
  have 3: "P (check_memory env cmd c s)" using check_memory_queues [OF assms(1-4)] unfolding P_def .
  have "P (check_request env cmd c s)" unfolding check_request_def by (intro both 1 2 3)
  then show ?thesis unfolding P_def .
qed

lemma processCommand_queues:
  assumes "e_filters env c s = s" and "c_argv (s_client s c) = name # args"
    and "\<not> strcaseeq (takeWhile (\<lambda>ch. ch \<noteq> 0) name) (bytes ''quit'')"
  shows "processCommand env c s =
    (let found = lookupCommand env name; s = upd_client c (\<lambda>cl. cl\<lparr>c_cmd := found, c_lastcmd := found\<rparr>) s
     in case found of None \<Rightarrow> reject True (Unknown_command name (unknown_args [] args)) c s | Some cmd \<Rightarrow> check_request env cmd c s)"
  using assms by (simp add: processCommand_def)

text \<open>
  C32. While a transaction is open, a request other than EXEC, DISCARD, MULTI, WATCH and QUIT is never executed. Whatever the configuration and
  whatever check fails, either it is appended to the queue with its arguments and answered QUEUED; or it is refused, the queue
  stays as it is and the transaction is flagged so that EXEC will abort; or it is refused with one of three errors - read-only replica,
  loading, Pub/Sub context - which do not flag the transaction; or the eviction that precedes the checks has disconnected the client.
\<close>

theorem open_transaction_queues_or_refuses:
  assumes "e_filters env c s = s" and "c_argv (s_client s c) = name # args"
    and "\<not> strcaseeq (takeWhile (\<lambda>ch. ch \<noteq> 0) name) (bytes ''quit'')" and "CLIENT_MULTI \<in> c_flags (s_client s c)"
    and "\<forall>cmd. lookupCommand env name = Some cmd \<longrightarrow> cmd_proc cmd \<notin> immediate"
    and "\<forall>s. keeps_txn c s (snd (e_free_memory env s)) \<and> keeps_txn c s (e_redirect env c s)"
  shows "\<exists>b s'. processCommand env c s = Some (b, s') \<and>
    (flagged c s s' \<or> (\<exists>cmd. lookupCommand env name = Some cmd \<and> queued cmd c s s') \<or> refused c s s' \<or> \<not> b \<and> s_current_client s' = None)"
proof -
  let ?s1 = "upd_client c (\<lambda>cl. cl\<lparr>c_cmd := lookupCommand env name, c_lastcmd := lookupCommand env name\<rparr>) s"
  have same: "flagged c ?s1 = flagged c s" "queued cmd c ?s1 = queued cmd c s" "refused c ?s1 = refused c s" for cmd
    by (simp_all add: flagged_def queued_def refused_def fun_eq_iff)
  have m: "CLIENT_MULTI \<in> c_flags (s_client ?s1 c)" using assms(4) by simp
  note pc = processCommand_queues [OF assms(1-3)]
  show ?thesis
  proof (cases "lookupCommand env name")
    case None
    then show ?thesis using reject_flags [OF m, of "Unknown_command name (unknown_args [] args)"] pc same by (fastforce simp: Let_def)
  next
    case (Some cmd)
    have "\<exists>b s'. check_request env cmd c ?s1 = Some (b, s') \<and>
        (flagged c ?s1 s' \<or> queued cmd c ?s1 s' \<or> refused c ?s1 s' \<or> \<not> b \<and> s_current_client s' = None)"
      using assms(5,6) Some by (intro check_request_queues [OF m]) simp_all
    moreover have "processCommand env c s = check_request env cmd c ?s1" using pc Some by (simp add: Let_def)
    ultimately show ?thesis unfolding same using Some by auto
  qed
qed

text \<open>A replica that serves reads only: a write inside a transaction is refused and the transaction not flagged.\<close>

definition replica_server :: "unit server" where
  "replica_server = upd_client 1 (\<lambda>cl. cl\<lparr>c_argv := [[119]], c_flags := {CLIENT_MULTI}\<rparr>) (demo_server\<lparr>s_masterhost := True\<rparr>)"

lemma replica_refuses:
  "\<exists>s'. processCommand demo_env 1 replica_server = Some (True, s') \<and> c_reply (s_client s' 1) = [Shared shared_roslaveerr] \<and> c_flags (s_client s' 1) = {CLIENT_MULTI}"
  by (simp add: Let_def processCommand_def replica_server_def demo_server_def demo_env_def demo_client_def upd_client_def lookupCommand_def
     strcaseeq_def bytes_def demo_cmd_def check_request_def bad_arity_def redirected_def check_memory_def check_and_execute_def reject_def addReply_def)

theorem open_transaction_queues_or_refuses_witness:
  "\<exists>b s'. processCommand demo_env 1 replica_server = Some (b, s') \<and> CLIENT_DIRTY_EXEC \<notin> c_flags (s_client s' 1) \<and>
     (flagged 1 replica_server s' \<or> (\<exists>cmd. lookupCommand demo_env [119] = Some cmd \<and> queued cmd 1 replica_server s') \<or> refused 1 replica_server s' \<or>
      \<not> b \<and> s_current_client s' = None)"
proof -
  have "\<exists>b s'. processCommand demo_env 1 replica_server = Some (b, s') \<and>
     (flagged 1 replica_server s' \<or> (\<exists>cmd. lookupCommand demo_env [119] = Some cmd \<and> queued cmd 1 replica_server s') \<or> refused 1 replica_server s' \<or>
      \<not> b \<and> s_current_client s' = None)"
    by (rule open_transaction_queues_or_refuses [where args = "[]"])
      (simp_all add: demo_env_def replica_server_def upd_client_def strcaseeq_def bytes_def lookupCommand_def demo_cmd_def immediate_def keeps_txn_def)
  then show ?thesis using replica_refuses by auto
qed

end
