(* ===== verification/Networking.thy ===== *)
theory Networking
  imports Command Sds_Args
begin

text \<open>
  The input side of a connection (\<^verbatim>\<open>networking.c\<close>): the two request formats, the loop that executes the requests of the query
  buffer, and the handler of a readable socket. The query buffer is the list of its bytes; the zero byte behind it ends the
  search of \<^verbatim>\<open>strchr\<close>. A function returns the result of the code (\<open>True\<close> is \<^verbatim>\<open>C_OK\<close>) and the client; \<open>None\<close> is a failed assertion.
\<close>

abbreviation (input) PROTO_INLINE_MAX_SIZE :: nat where "PROTO_INLINE_MAX_SIZE \<equiv> 1024 * 64"
abbreviation (input) PROTO_MBULK_BIG_ARG :: int where "PROTO_MBULK_BIG_ARG \<equiv> 1024 * 32"
abbreviation (input) PROTO_IOBUF_LEN :: nat where "PROTO_IOBUF_LEN \<equiv> 1024 * 16"
abbreviation (input) PROTO_REQ_INLINE :: nat where "PROTO_REQ_INLINE \<equiv> 1"
abbreviation (input) PROTO_REQ_MULTIBULK :: nat where "PROTO_REQ_MULTIBULK \<equiv> 2"
abbreviation (input) BLOCKED_MODULE :: nat where "BLOCKED_MODULE \<equiv> 3"

text \<open>The part of the buffer that is not parsed yet.\<close>

definition unread :: "client \<Rightarrow> byte list" where
  "unread cl = drop (c_qb_pos cl) (c_querybuf cl)"

definition strchr_pos :: "byte \<Rightarrow> byte list \<Rightarrow> nat option" where
  "strchr_pos ch bs =
     (let p = length (takeWhile (\<lambda>b. b \<noteq> ch \<and> b \<noteq> 0) bs) in if p < length bs \<and> bs ! p = ch then Some p else None)"

definition resetClient :: "client \<Rightarrow> client" where
  "resetClient cl =
     (let prevcmd = map_option cmd_proc (c_cmd cl);
          cl = cl\<lparr>c_argv := [], c_cmd := None, c_reqtype := 0, c_multibulklen := 0, c_bulklen := - 1\<rparr>;
          cl = (if CLIENT_MULTI \<notin> c_flags cl \<and> prevcmd \<noteq> Some askingCommand_p then del_flags {CLIENT_ASKING} cl else cl);
          cl = del_flags {CLIENT_REPLY_SKIP} cl
      in if CLIENT_REPLY_SKIP_NEXT \<in> c_flags cl then del_flags {CLIENT_REPLY_SKIP_NEXT} (add_flags {CLIENT_REPLY_SKIP} cl) else cl)"

text \<open>The error reply and \<^verbatim>\<open>setProtocolError\<close>, of which the log entry is left out.\<close>

definition setProtocolError :: "client \<Rightarrow> client" where
  "setProtocolError cl = add_flags {CLIENT_CLOSE_AFTER_REPLY} cl"

definition protocol_error :: "string \<Rightarrow> client \<Rightarrow> client" where
  "protocol_error msg cl = setProtocolError (cl\<lparr>c_reply := c_reply cl @ [Error_reply msg]\<rparr>)"

subsection \<open>Inline requests\<close>

definition sds_bytes :: "sds \<Rightarrow> byte list" where
  "sds_bytes s = take (sdslen s) (sds_buf s)"

definition processInlineBuffer :: "(nat \<Rightarrow> byte) \<Rightarrow> int \<Rightarrow> client \<Rightarrow> (bool \<times> client) option" where
  "processInlineBuffer junk unixtime cl =
     (case strchr_pos 10 (unread cl) of
       None \<Rightarrow>
         Some (False, if length (c_querybuf cl) - c_qb_pos cl > PROTO_INLINE_MAX_SIZE
                      then protocol_error ''Protocol error: too big inline request'' cl else cl)
     | Some newline \<Rightarrow>
         let (newline, linefeed_chars) =
               (if newline \<noteq> 0 \<and> unread cl ! (newline - 1) = 13 then (newline - 1, 2) else (newline, 1));
             querylen = newline
         in do { argv \<leftarrow> sdssplitargs junk (take querylen (unread cl));
                 case argv of
                   None \<Rightarrow> Some (False, protocol_error ''Protocol error: unbalanced quotes in request'' cl)
                 | Some argv \<Rightarrow>
                     let cl = (if querylen = 0 \<and> CLIENT_SLAVE \<in> c_flags cl then cl\<lparr>c_repl_ack_time := unixtime\<rparr> else cl);
                         cl = cl\<lparr>c_qb_pos := c_qb_pos cl + querylen + linefeed_chars\<rparr>
                     in Some (True, cl\<lparr>c_argv := map sds_bytes (filter (\<lambda>a. sdslen a \<noteq> 0) argv)\<rparr>) })"

subsection \<open>Multi bulk requests\<close>

text \<open>The number of arguments. The first component is the result if the function returns here.\<close>

definition read_multibulklen :: "client \<Rightarrow> (bool option \<times> client) option" where
  "read_multibulklen cl =
     (if c_argv cl \<noteq> [] then None
      else case strchr_pos 13 (unread cl) of
        None \<Rightarrow>
          Some (Some False, if length (c_querybuf cl) - c_qb_pos cl > PROTO_INLINE_MAX_SIZE
                            then protocol_error ''Protocol error: too big mbulk count string'' cl else cl)
      | Some newline \<Rightarrow>
          if int newline > int (length (c_querybuf cl)) - int (c_qb_pos cl) - 2 then Some (Some False, cl)
          else if unread cl ! 0 \<noteq> 42 then None
          else
            case string2ll (take (newline - 1) (drop 1 (unread cl))) of
              None \<Rightarrow> Some (Some False, protocol_error ''Protocol error: invalid multibulk length'' cl)
            | Some ll \<Rightarrow>
                if ll > 1024 * 1024 then Some (Some False, protocol_error ''Protocol error: invalid multibulk length'' cl)
                else
                  let cl = cl\<lparr>c_qb_pos := c_qb_pos cl + newline + 2\<rparr>
                  in if ll \<le> 0 then Some (Some True, cl) else Some (None, cl\<lparr>c_multibulklen := ll, c_argv := []\<rparr>))"

text \<open>
  The length of the next argument; \<open>False\<close> ends the loop. A big argument is moved to the start of the buffer when the buffer holds nothing
  behind it.
\<close>

definition read_bulklen :: "int \<Rightarrow> client \<Rightarrow> bool \<times> client" where
  "read_bulklen proto_max_bulk_len cl =
     (case strchr_pos 13 (unread cl) of
       None \<Rightarrow>
         (False, if length (c_querybuf cl) - c_qb_pos cl > PROTO_INLINE_MAX_SIZE
                 then protocol_error ''Protocol error: too big bulk count string'' cl else cl)
     | Some newline \<Rightarrow>
         if int newline > int (length (c_querybuf cl)) - int (c_qb_pos cl) - 2 then (False, cl)
         else if unread cl ! 0 \<noteq> 36 then 
           (False, protocol_error (''Protocol error: expected '' @ [CHR 0x27] @ ''$'' @ [CHR 0x27] @ '', got '' @
             [CHR 0x27, char_of (unat (unread cl ! 0)), CHR 0x27]) cl)
         else
           case string2ll (take (newline - 1) (drop 1 (unread cl))) of
             None \<Rightarrow> (False, protocol_error ''Protocol error: invalid bulk length'' cl)
           | Some ll \<Rightarrow>
               if ll < 0 \<or> ll > proto_max_bulk_len then (False, protocol_error ''Protocol error: invalid bulk length'' cl)
               else
                 let cl = cl\<lparr>c_qb_pos := c_qb_pos cl + newline + 2\<rparr>;
                     cl = (if ll \<ge> PROTO_MBULK_BIG_ARG \<and> int (length (c_querybuf cl) - c_qb_pos cl) \<le> ll + 2
                           then cl\<lparr>c_querybuf := drop (c_qb_pos cl) (c_querybuf cl), c_qb_pos := 0\<rparr> else cl)
                 in (True, cl\<lparr>c_bulklen := ll\<rparr>))"

text \<open>The argument itself. A buffer that holds just a big argument becomes the argument.\<close>

definition read_bulk :: "client \<Rightarrow> bool \<times> client" where
  "read_bulk cl =
     (let bulklen = c_bulklen cl
      in if int (length (c_querybuf cl) - c_qb_pos cl) < bulklen + 2 then (False, cl)
         else
           let cl = (if c_qb_pos cl = 0 \<and> bulklen \<ge> PROTO_MBULK_BIG_ARG \<and> int (length (c_querybuf cl)) = bulklen + 2 then
                       cl\<lparr>c_argv := c_argv cl @ [take (length (c_querybuf cl) - 2) (c_querybuf cl)], c_querybuf := []\<rparr>
                     else
                       cl\<lparr>c_argv := c_argv cl @ [take (nat bulklen) (unread cl)], c_qb_pos := c_qb_pos cl + nat bulklen + 2\<rparr>)
           in (True, cl\<lparr>c_bulklen := - 1, c_multibulklen := c_multibulklen cl - 1\<rparr>))"

lemma protocol_error_multibulklen [simp]: "c_multibulklen (protocol_error msg cl) = c_multibulklen cl"
  by (simp add: protocol_error_def setProtocolError_def add_flags_def)

lemma read_bulklen_multibulklen: "c_multibulklen (snd (read_bulklen m cl)) = c_multibulklen cl"
  by (simp add: read_bulklen_def Let_def split: option.split)

lemma read_bulk_multibulklen: "read_bulk cl = (True, cl') \<Longrightarrow> c_multibulklen cl' = c_multibulklen cl - 1"
  by (auto simp: read_bulk_def Let_def split: if_splits)

function mbulk_loop :: "int \<Rightarrow> client \<Rightarrow> bool \<times> client" where
  "mbulk_loop proto_max_bulk_len cl =
     (if 0 < c_multibulklen cl then
        case (if c_bulklen cl = - 1 then read_bulklen proto_max_bulk_len cl else (True, cl)) of
          (False, cl) \<Rightarrow> (False, cl)
        | (True, cl) \<Rightarrow>
            (case read_bulk cl of (False, cl) \<Rightarrow> (False, cl) | (True, cl) \<Rightarrow> mbulk_loop proto_max_bulk_len cl)
      else (True, cl))"
  by pat_completeness auto
termination
proof (relation "measure (\<lambda>(m, cl). nat (c_multibulklen cl))", goal_cases)
  case (2 m cl x cl1 y cl2)
  then have "c_multibulklen cl1 = c_multibulklen cl"
    using read_bulklen_multibulklen [of m cl] by (metis snd_conv)
  moreover have "c_multibulklen cl2 = c_multibulklen cl1 - 1" using 2(4,5) read_bulk_multibulklen [of cl1 cl2] by simp
  ultimately show ?case using 2(1) by simp
qed simp

declare mbulk_loop.simps [simp del]

definition processMultibulkBuffer :: "int \<Rightarrow> client \<Rightarrow> (bool \<times> client) option" where
  "processMultibulkBuffer proto_max_bulk_len cl =
     do { (r, cl) \<leftarrow> (if c_multibulklen cl = 0 then read_multibulklen cl else Some (None, cl));
          case r of
            Some b \<Rightarrow> Some (b, cl)
          | None \<Rightarrow> if c_multibulklen cl > 0 then Some (mbulk_loop proto_max_bulk_len cl) else None }"

subsection \<open>The loop over the query buffer\<close>

text \<open>
  The parts of the server that the input side consults: \<^verbatim>\<open>clientsArePaused\<close>, the limits of the configuration, \<^verbatim>\<open>freeClient\<close> and the
  fresh memory of the allocator.
\<close>

record 'd input_env =
  i_env :: "'d env"
  i_paused :: "'d server \<Rightarrow> bool \<times> 'd server"
  i_proto_max_bulk_len :: int
  i_client_max_querybuf_len :: nat
  i_freeClient :: "cid \<Rightarrow> 'd server \<Rightarrow> 'd server"
  i_junk :: "nat \<Rightarrow> byte"

definition set_reqtype :: "client \<Rightarrow> client" where
  "set_reqtype cl =
     (if c_reqtype cl = 0 then cl\<lparr>c_reqtype := if unread cl ! 0 = 42 then PROTO_REQ_MULTIBULK else PROTO_REQ_INLINE\<rparr> else cl)"

definition parse_request :: "'d input_env \<Rightarrow> int \<Rightarrow> client \<Rightarrow> (bool \<times> client) option" where
  "parse_request ie unixtime cl =
     (if c_reqtype cl = PROTO_REQ_INLINE then processInlineBuffer (i_junk ie) unixtime cl
      else if c_reqtype cl = PROTO_REQ_MULTIBULK then processMultibulkBuffer (i_proto_max_bulk_len ie) cl
      else None)"

text \<open>After a successful parse: an empty request, or the command. The result tells whether the loop goes on.\<close>

definition run_request :: "'d input_env \<Rightarrow> cid \<Rightarrow> 'd server \<Rightarrow> (bool \<times> 'd server) option" where
  "run_request ie c s =
     (if c_argv (s_client s c) = [] then Some (True, upd_client c resetClient s)
      else do { (ok, s) \<leftarrow> processCommand (i_env ie) c s;
                let cl = s_client s c;
                let s = (if ok then
                           let s = (if CLIENT_MASTER \<in> c_flags cl \<and> CLIENT_MULTI \<notin> c_flags cl then
                                      upd_client c (\<lambda>cl. cl\<lparr>c_reploff := c_read_reploff cl - int (length (c_querybuf cl)) + int (c_qb_pos cl)\<rparr>) s
                                    else s)
                           in if CLIENT_BLOCKED \<notin> c_flags cl \<or> c_btype cl \<noteq> BLOCKED_MODULE then upd_client c resetClient s else s
                         else s);
                Some (s_current_client s \<noteq> None, s) })"

definition input_step :: "'d input_env \<Rightarrow> cid \<Rightarrow> 'd server \<Rightarrow> (bool \<times> 'd server) option" where
  "input_step ie c s =
     (let (paused, s) = (if CLIENT_SLAVE \<notin> c_flags (s_client s c) then i_paused ie s else (False, s));
          cl = s_client s c
      in if paused \<or> CLIENT_BLOCKED \<in> c_flags cl \<or> s_lua_timedout s \<and> CLIENT_MASTER \<in> c_flags cl \<or>
            c_flags cl \<inter> {CLIENT_CLOSE_AFTER_REPLY, CLIENT_CLOSE_ASAP} \<noteq> {} then Some (False, s)
         else do { (ok, cl) \<leftarrow> parse_request ie (s_unixtime s) (set_reqtype cl);
                   let s = upd_client c (\<lambda>_. cl) s;
                   if ok then run_request ie c s else Some (False, s) })"

partial_function (option) input_loop :: "'d input_env \<Rightarrow> cid \<Rightarrow> 'd server \<Rightarrow> 'd server option" where
  "input_loop ie c s =
     (if c_qb_pos (s_client s c) < length (c_querybuf (s_client s c)) then
        do { (go, s) \<leftarrow> input_step ie c s;
             if go then input_loop ie c s else Some s }
      else Some s)"

declare input_loop.simps [code]

definition trim_querybuf :: "client \<Rightarrow> client" where
  "trim_querybuf cl = (if c_qb_pos cl \<noteq> 0 then cl\<lparr>c_querybuf := drop (c_qb_pos cl) (c_querybuf cl), c_qb_pos := 0\<rparr> else cl)"

definition processInputBuffer :: "'d input_env \<Rightarrow> cid \<Rightarrow> 'd server \<Rightarrow> 'd server option" where
  "processInputBuffer ie c s =
     do { s \<leftarrow> input_loop ie c (s\<lparr>s_current_client := Some c\<rparr>);
          let s = (if s_current_client s \<noteq> None then upd_client c trim_querybuf s else s);
          Some (s\<lparr>s_current_client := None\<rparr>) }"

definition processInputBufferAndReplicate :: "'d input_env \<Rightarrow> cid \<Rightarrow> 'd server \<Rightarrow> 'd server option" where
  "processInputBufferAndReplicate ie c s =
     (if CLIENT_MASTER \<notin> c_flags (s_client s c) then processInputBuffer ie c s
      else
        let prev_offset = c_reploff (s_client s c)
        in do { s \<leftarrow> processInputBuffer ie c s;
                let applied = nat (c_reploff (s_client s c) - prev_offset);
                let pending = c_pending_querybuf (s_client s c);
                Some (if applied \<noteq> 0 then
                        upd_client c (\<lambda>cl. cl\<lparr>c_pending_querybuf := drop applied pending\<rparr>)
                          (s\<lparr>s_master_stream := s_master_stream s @ take applied pending\<rparr>)
                      else s) })"

text \<open>The results of \<^verbatim>\<open>read(2)\<close>: an error, no data, the end of the stream, or data.\<close>

datatype read_result = Read_error | Read_again | Read_eof | Read_data "byte list"

definition read_length :: "client \<Rightarrow> nat" where
  "read_length cl =
     (if c_reqtype cl = PROTO_REQ_MULTIBULK \<and> c_multibulklen cl \<noteq> 0 \<and> c_bulklen cl \<noteq> - 1 \<and> c_bulklen cl \<ge> PROTO_MBULK_BIG_ARG then
        let remaining = c_bulklen cl + 2 - int (length (c_querybuf cl))
        in if remaining > 0 \<and> remaining < int PROTO_IOBUF_LEN then nat remaining else PROTO_IOBUF_LEN
      else PROTO_IOBUF_LEN)"

definition readQueryFromClient :: "'d input_env \<Rightarrow> (nat \<Rightarrow> read_result) \<Rightarrow> cid \<Rightarrow> 'd server \<Rightarrow> 'd server option" where
  "readQueryFromClient ie read_fd c s =
     (case read_fd (read_length (s_client s c)) of
       Read_again \<Rightarrow> Some s
     | Read_error \<Rightarrow> Some (i_freeClient ie c s)
     | Read_eof \<Rightarrow> Some (i_freeClient ie c s)
     | Read_data bs \<Rightarrow>
         let s = upd_client c (\<lambda>cl.
                   let cl = (if CLIENT_MASTER \<in> c_flags cl then cl\<lparr>c_pending_querybuf := c_pending_querybuf cl @ bs\<rparr> else cl);
                       cl = cl\<lparr>c_querybuf := c_querybuf cl @ bs\<rparr>
                   in if CLIENT_MASTER \<in> c_flags cl then cl\<lparr>c_read_reploff := c_read_reploff cl + int (length bs)\<rparr> else cl) s;
             s = s\<lparr>s_stat_net_input_bytes := s_stat_net_input_bytes s + length bs\<rparr>
         in if length (c_querybuf (s_client s c)) > i_client_max_querybuf_len ie then Some (i_freeClient ie c s)
            else processInputBufferAndReplicate ie c s)"

end
