(* ===== verification/Networking_Parse.thy ===== *)
theory Networking_Parse
  imports Networking Util_Num
begin

text \<open>
  The request parser reads what the encoder writes, no matter where the stream is cut: after any prefix of the encoded requests the
  client is in a state that waits exactly for the rest.
\<close>

subsection \<open>The encoding\<close>

definition count_text :: "byte \<Rightarrow> nat \<Rightarrow> byte list" where
  "count_text tag n = tag # int_dec (int n)"

definition enc_arg :: "byte list \<Rightarrow> byte list" where
  "enc_arg a = count_text 36 (length a) @ [13, 10] @ a @ [13, 10]"

definition enc_args :: "byte list list \<Rightarrow> byte list" where
  "enc_args as = concat (map enc_arg as)"

definition enc_request :: "byte list list \<Rightarrow> byte list" where
  "enc_request as = count_text 42 (length as) @ [13, 10] @ enc_args as"

definition enc_requests :: "byte list list list \<Rightarrow> byte list" where
  "enc_requests cmds = concat (map enc_request cmds)"

lemma enc_simps [simp]: "enc_args [] = []" "enc_args (a # as) = enc_arg a @ enc_args as" "enc_requests [] = []"
  "enc_requests (x # xs) = enc_request x @ enc_requests xs"
  by (simp_all add: enc_args_def enc_requests_def)

lemma count_text_clean: "tag \<notin> {0, 13} \<Longrightarrow> b \<in> set (count_text tag n) \<Longrightarrow> b \<noteq> 13 \<and> b \<noteq> 0"
proof -
  have "list_all isdigit (nat_dec n)" using nat_dec_parse by blast
  then have "b \<in> set (nat_dec n) \<Longrightarrow> b \<noteq> 13 \<and> b \<noteq> 0" by (auto simp: list_all_iff isdigit_def)
  then show "tag \<notin> {0, 13} \<Longrightarrow> b \<in> set (count_text tag n) \<Longrightarrow> b \<noteq> 13 \<and> b \<noteq> 0" by (auto simp: count_text_def int_dec_def)
qed

lemma length_count_text: "int n \<le> INT64_MAX \<Longrightarrow> length (count_text tag n) \<le> 21"
  using length_int_dec [of "int n"] by (simp add: count_text_def)

lemma string2ll_count_text: "int n \<le> INT64_MAX \<Longrightarrow> string2ll (take (length (count_text tag n) - 1) (drop 1 (count_text tag n @ bs))) = Some (int n)"
  by (simp add: count_text_def string2ll_iff)

subsection \<open>Finding the end of the line\<close>

lemma strchr_pos_line: "\<forall>b\<in>set line. b \<noteq> 13 \<and> b \<noteq> 0 \<Longrightarrow> strchr_pos 13 (line @ 13 # bs) = Some (length line)"
  by (simp add: strchr_pos_def takeWhile_append2)

lemma strchr_pos_none: "\<forall>b\<in>set bs. b \<noteq> 13 \<and> b \<noteq> 0 \<Longrightarrow> strchr_pos 13 bs = None"
  by (simp add: strchr_pos_def takeWhile_eq_all_conv [THEN iffD2])

text \<open>The unread bytes, when the whole stream starts with a line: less than the line, the line without its line feed, or more.\<close>

lemma line_cases:
  assumes "u @ fut = line @ [13, 10] @ rest" and clean: "\<forall>b\<in>set line. b \<noteq> 13 \<and> b \<noteq> 0"
  obtains (short) "strchr_pos 13 u = None" "length u \<le> length line" "fut \<noteq> []"
  | (cr) "strchr_pos 13 u = Some (length line)" "length u = length line + 1" "fut \<noteq> []"
  | (full) v where "strchr_pos 13 u = Some (length line)" "u = line @ [13, 10] @ v" "v @ fut = rest"
proof -
  have len: "length u + length fut = length line + 2 + length rest" using arg_cong [OF assms(1), of length] by simp
  consider "length u \<le> length line" | "length u = length line + 1" | "length line + 2 \<le> length u" by linarith
  then show thesis
  proof cases
    case 1
    have "take (length u) (u @ fut) = take (length u) (line @ [13, 10] @ rest)" by (simp only: assms(1))
    then have u: "u = take (length u) line" using 1 by simp
    have "set u \<subseteq> set line" by (subst u) (rule set_take_subset)
    then have "\<forall>b\<in>set u. b \<noteq> 13 \<and> b \<noteq> 0" using clean by blast
    then have "strchr_pos 13 u = None" by (rule strchr_pos_none)
    moreover have "fut \<noteq> []" using len 1 by auto
    ultimately show thesis using short 1 by blast
  next
    case 2
    have "take (length u) (u @ fut) = take (length u) (line @ [13, 10] @ rest)" by (simp only: assms(1))
    then have "u = line @ [13]" using 2 by simp
    moreover have "fut \<noteq> []" using len 2 by auto
    ultimately show thesis using cr strchr_pos_line [OF clean, of "[]"] 2 by simp
  next
    case 3
    have "take (length line + 2) (u @ fut) = take (length line + 2) (line @ [13, 10] @ rest)" by (simp only: assms(1))
    then have t: "take (length line + 2) u = line @ [13, 10]" using 3 by simp
    define v where "v = drop (length line + 2) u"
    have u: "u = line @ [13, 10] @ v" unfolding v_def using t append_take_drop_id [of "length line + 2" u] by (metis append.assoc)
    then have "v @ fut = rest" using assms(1) by simp
    then show thesis using full [OF _ u] strchr_pos_line [OF clean, of "10 # v"] u by simp
  qed
qed

subsection \<open>The state of the parser\<close>

text \<open>The client without the fields that the parser and \<^verbatim>\<open>resetClient\<close> set.\<close>

definition outside :: "client \<Rightarrow> client" where
  "outside cl = cl\<lparr>c_querybuf := [], c_qb_pos := 0, c_argv := [], c_reqtype := 0, c_multibulklen := 0, c_bulklen := 0, c_cmd := None,
     c_flags := c_flags cl - {CLIENT_ASKING, CLIENT_REPLY_SKIP, CLIENT_REPLY_SKIP_NEXT}\<rparr>"

text \<open>The bytes \<open>bs\<close>, of which a part is in the buffer, complete the requests \<open>cmds\<close>.\<close>

inductive awaits :: "client \<Rightarrow> byte list \<Rightarrow> byte list list list \<Rightarrow> bool" where
  idle: "c_reqtype cl = 0 \<or> c_reqtype cl = 2 \<Longrightarrow> c_argv cl = [] \<Longrightarrow> c_multibulklen cl = 0 \<Longrightarrow> c_bulklen cl = - 1 \<Longrightarrow>
    awaits cl (enc_requests cmds) cmds"
| args: "c_reqtype cl = 2 \<Longrightarrow> c_multibulklen cl = int (length rest) \<Longrightarrow> rest \<noteq> [] \<Longrightarrow> c_bulklen cl = - 1 \<Longrightarrow>
    awaits cl (enc_args rest @ enc_requests cmds) ((c_argv cl @ rest) # cmds)"
| body: "c_reqtype cl = 2 \<Longrightarrow> c_multibulklen cl = int (length rest) + 1 \<Longrightarrow> c_bulklen cl = int (length a) \<Longrightarrow>
    awaits cl (a @ [13, 10] @ enc_args rest @ enc_requests cmds) ((c_argv cl @ a # rest) # cmds)"

lemma awaits_cong:
  assumes "awaits cl bs cmds" and "c_reqtype cl' = c_reqtype cl" "c_argv cl' = c_argv cl" "c_multibulklen cl' = c_multibulklen cl" "c_bulklen cl' = c_bulklen cl"
  shows "awaits cl' bs cmds"
  using assms
proof (induction rule: awaits.induct)
  case (idle cl cmds)
  then show ?case by (intro awaits.idle) simp_all
next
  case (args cl rest cmds)
  then show ?case using awaits.args [of cl' rest cmds] by simp
next
  case (body cl rest a cmds)
  then show ?case using awaits.body [of cl' rest a cmds] by simp
qed

lemma length_unread: "length (c_querybuf cl) - c_qb_pos cl = length (unread cl)"
  by (simp add: unread_def)

lemma unread_move: "unread (cl\<lparr>c_qb_pos := c_qb_pos cl + n\<rparr>) = drop n (unread cl)"
  by (simp add: unread_def add.commute)

lemma read_bulk_ok:
  assumes "c_bulklen cl = int (length a)" and u: "unread cl @ fut = a @ [13, 10] @ post" and pos: "c_qb_pos cl \<le> length (c_querybuf cl)"
  obtains "read_bulk cl = (False, cl)" "fut \<noteq> []"
  | cl' where "read_bulk cl = (True, cl')" "unread cl' @ fut = post" "c_qb_pos cl' \<le> length (c_querybuf cl')" "c_argv cl' = c_argv cl @ [a]"
    "c_bulklen cl' = - 1" "c_multibulklen cl' = c_multibulklen cl - 1" "c_reqtype cl' = c_reqtype cl" "outside cl' = outside cl"
proof -
  have len: "length (unread cl) + length fut = length a + 2 + length post" using arg_cong [OF u, of length] by simp
  show thesis
  proof (cases "length (unread cl) < length a + 2")
    case True
    then have "read_bulk cl = (False, cl)" using assms(1) by (simp add: read_bulk_def Let_def length_unread)
    then show thesis using that(1) True len by fastforce
  next
    case False
    define v where "v = drop (length a + 2) (unread cl)"
    have "take (length a + 2) (unread cl @ fut) = take (length a + 2) (a @ [13, 10] @ post)" by (simp only: u)
    then have "take (length a + 2) (unread cl) = a @ [13, 10]" using False by simp
    then have uv: "unread cl = a @ [13, 10] @ v" unfolding v_def using append_take_drop_id [of "length a + 2" "unread cl"] by (metis append.assoc)
    then have v: "v @ fut = post" using u by simp
    show thesis
    proof (cases "c_qb_pos cl = 0 \<and> PROTO_MBULK_BIG_ARG \<le> c_bulklen cl \<and> int (length (c_querybuf cl)) = c_bulklen cl + 2")
      case True
      then have "c_querybuf cl = a @ [13, 10] @ v" using uv by (simp add: unread_def)
      then have "v = []" using True assms(1) by simp
      define cl' where "cl' = cl\<lparr>c_argv := c_argv cl @ [a], c_querybuf := [], c_bulklen := - 1, c_multibulklen := c_multibulklen cl - 1\<rparr>"
      have "read_bulk cl = (True, cl')"
        using False True \<open>c_querybuf cl = _\<close> \<open>v = []\<close> assms(1) by (simp add: read_bulk_def Let_def length_unread uv cl'_def)
      then show thesis using that(2) [of cl'] True v \<open>v = []\<close> by (simp add: cl'_def unread_def outside_def)
    next
      case big: False
      define cl' where "cl' = cl\<lparr>c_argv := c_argv cl @ [a], c_qb_pos := c_qb_pos cl + (length a + 2), c_bulklen := - 1,
        c_multibulklen := c_multibulklen cl - 1\<rparr>"
      have "unread cl' = v" unfolding v_def by (simp add: cl'_def unread_def add.commute add.left_commute)
      moreover have "read_bulk cl = (True, cl')"
        using False big assms(1) unfolding read_bulk_def Let_def length_unread if_not_P [OF big] by (simp add: uv cl'_def)
      moreover have "c_qb_pos cl' \<le> length (c_querybuf cl')" using arg_cong [OF uv, of length] pos by (simp add: cl'_def unread_def)
      ultimately show thesis using that(2) [of cl'] v by (simp add: cl'_def outside_def)
    qed
  qed
qed

lemma line_room:
  assumes "c_qb_pos cl \<le> length (c_querybuf cl)"
  shows "int n > int (length (c_querybuf cl)) - int (c_qb_pos cl) - 2 \<longleftrightarrow> length (unread cl) < n + 2"
proof -
  obtain k where k: "length (c_querybuf cl) = c_qb_pos cl + k" using le_Suc_ex [OF assms] by blast
  then have u: "length (unread cl) = k" by (simp add: unread_def)
  show ?thesis unfolding k u of_nat_add by (rule iffI; linarith)
qed

lemma read_bulklen_ok:
  assumes u: "unread cl @ fut = enc_arg a @ post" and pos: "c_qb_pos cl \<le> length (c_querybuf cl)" and max: "int (length a) \<le> m" "int (length a) \<le> INT64_MAX"
  obtains "read_bulklen m cl = (False, cl)" "fut \<noteq> []"
  | cl' where "read_bulklen m cl = (True, cl')" "unread cl' @ fut = a @ [13, 10] @ post" "c_qb_pos cl' \<le> length (c_querybuf cl')" "c_argv cl' = c_argv cl"
    "c_bulklen cl' = int (length a)" "c_multibulklen cl' = c_multibulklen cl" "c_reqtype cl' = c_reqtype cl" "outside cl' = outside cl"
proof -
  let ?line = "count_text 36 (length a)"
  have clean: "\<forall>b\<in>set ?line. b \<noteq> 13 \<and> b \<noteq> 0" by (intro ballI count_text_clean [of 36]) simp_all
  have l21: "length ?line \<le> 21" using length_count_text max(2) by simp
  have "unread cl @ fut = ?line @ [13, 10] @ (a @ [13, 10] @ post)" using u by (simp add: enc_arg_def)
  then show thesis using clean
  proof (cases rule: line_cases)
    case short
    then have "read_bulklen m cl = (False, cl)" using l21 by (simp add: read_bulklen_def length_unread)
    then show thesis using that(1) short(3) by blast
  next
    case cr
    then have "read_bulklen m cl = (False, cl)" by (simp add: read_bulklen_def line_room [OF pos])
    then show thesis using that(1) cr(3) by blast
  next
    case (full v)
    define cl1 where "cl1 = cl\<lparr>c_qb_pos := c_qb_pos cl + (length ?line + 2)\<rparr>"
    define cl2 where "cl2 = (if PROTO_MBULK_BIG_ARG \<le> int (length a) \<and> int (length (c_querybuf cl1) - c_qb_pos cl1) \<le> int (length a) + 2
        then cl1\<lparr>c_querybuf := drop (c_qb_pos cl1) (c_querybuf cl1), c_qb_pos := 0\<rparr> else cl1)"
    have v: "unread cl1 = v" unfolding cl1_def unread_move using full(2) by simp
    have pos1: "c_qb_pos cl1 \<le> length (c_querybuf cl1)" using arg_cong [OF full(2), of length] pos by (simp add: cl1_def unread_def)
    have "\<not> length (unread cl) < length ?line + 2" "unread cl ! 0 = 36" using full(2) by (simp_all add: count_text_def)
    moreover have "string2ll (take (length ?line - 1) (drop 1 (unread cl))) = Some (int (length a))"
      unfolding full(2) by (rule string2ll_count_text [OF max(2)])
    ultimately have "read_bulklen m cl = (True, cl2\<lparr>c_bulklen := int (length a)\<rparr>)"
      using full(1) max(1) unfolding read_bulklen_def cl2_def cl1_def by (simp add: line_room [OF pos] add.assoc Let_def)
    moreover have "unread (cl2\<lparr>c_bulklen := int (length a)\<rparr>) = v" using v by (simp add: cl2_def unread_def)
    moreover have "c_qb_pos cl2 \<le> length (c_querybuf cl2)" using pos1 by (simp add: cl2_def)
    ultimately show thesis using that(2) [of "cl2\<lparr>c_bulklen := int (length a)\<rparr>"] full(3) by (simp add: cl2_def cl1_def outside_def)
  qed
qed

text \<open>The arguments and requests that the limits of the configuration allow.\<close>

definition request_ok :: "int \<Rightarrow> byte list list \<Rightarrow> bool" where
  "request_ok m as \<longleftrightarrow> as \<noteq> [] \<and> int (length as) \<le> 1024 * 1024 \<and> (\<forall>a\<in>set as. int (length a) \<le> m \<and> int (length a) \<le> INT64_MAX)"

text \<open>The result of the loop: it waits, which it does only while a part of the stream is missing, or it has read the request.\<close>

definition loop_result :: "client \<Rightarrow> byte list \<Rightarrow> byte list list \<Rightarrow> byte list list list \<Rightarrow> bool \<times> client \<Rightarrow> bool" where
  "loop_result cl fut as cmds r \<longleftrightarrow>
     (case r of (ok, cl') \<Rightarrow>
       outside cl' = outside cl \<and> c_qb_pos cl' \<le> length (c_querybuf cl') \<and> c_reqtype cl' = 2 \<and>
       (if ok then c_argv cl' = as \<and> c_multibulklen cl' = 0 \<and> c_bulklen cl' = - 1 \<and> unread cl' @ fut = enc_requests cmds
        else fut \<noteq> [] \<and> awaits cl' (unread cl' @ fut) (as # cmds)))"

lemma mbulk_loop_body:
  assumes "c_reqtype cl = 2" "c_multibulklen cl = int (length rest) + 1" "c_bulklen cl = int (length a)"
    and "unread cl @ fut = a @ [13, 10] @ enc_args rest @ enc_requests cmds" and "c_qb_pos cl \<le> length (c_querybuf cl)"
    and args: "\<And>cl'. c_reqtype cl' = 2 \<Longrightarrow> c_multibulklen cl' = int (length rest) \<Longrightarrow> c_bulklen cl' = - 1 \<Longrightarrow>
      unread cl' @ fut = enc_args rest @ enc_requests cmds \<Longrightarrow> c_qb_pos cl' \<le> length (c_querybuf cl') \<Longrightarrow>
      loop_result cl' fut (c_argv cl' @ rest) cmds (mbulk_loop m cl')"
  shows "loop_result cl fut (c_argv cl @ a # rest) cmds (mbulk_loop m cl)"
proof -
  have nb: "c_bulklen cl \<noteq> - 1" "0 < c_multibulklen cl" using assms(2,3) by simp_all
  show ?thesis
    using assms(3,4,5)
  proof (cases rule: read_bulk_ok)
    case 1
    have "mbulk_loop m cl = (False, cl)" using nb 1(1) by (subst mbulk_loop.simps) simp
    then show ?thesis using 1(2) assms(1-5) awaits.body [OF assms(1-3), of cmds] by (simp add: loop_result_def)
  next
    case (2 cl')
    have "mbulk_loop m cl = mbulk_loop m cl'" using nb 2(1) by (subst mbulk_loop.simps) simp
    then show ?thesis using args [of cl'] 2 assms(1,2) by (simp add: loop_result_def)
  qed
qed

lemma mbulk_loop_args:
  assumes "c_reqtype cl = 2" "c_multibulklen cl = int (length rest)" "c_bulklen cl = - 1"
    and "unread cl @ fut = enc_args rest @ enc_requests cmds" and "c_qb_pos cl \<le> length (c_querybuf cl)"
    and "\<forall>a\<in>set rest. int (length a) \<le> m \<and> int (length a) \<le> INT64_MAX"
  shows "loop_result cl fut (c_argv cl @ rest) cmds (mbulk_loop m cl)"
  using assms
proof (induction rest arbitrary: cl)
  case Nil
  then have "mbulk_loop m cl = (True, cl)" by (subst mbulk_loop.simps) simp
  then show ?case using Nil by (simp add: loop_result_def)
next
  case (Cons a rest)
  have u: "unread cl @ fut = enc_arg a @ enc_args rest @ enc_requests cmds" using Cons.prems(4) by simp
  have pos: "0 < c_multibulklen cl" using Cons.prems(2) by simp
  have max: "int (length a) \<le> m" "int (length a) \<le> INT64_MAX" using Cons.prems(6) by simp_all
  show ?case
    using u Cons.prems(5) max
  proof (cases rule: read_bulklen_ok)
    case 1
    have "mbulk_loop m cl = (False, cl)" using Cons.prems(3) pos 1(1) by (subst mbulk_loop.simps) simp
    then show ?thesis using 1(2) Cons.prems(1-5) awaits.args [OF Cons.prems(1,2) _ Cons.prems(3), of cmds] by (simp add: loop_result_def)
  next
    case (2 cl')
    have "mbulk_loop m cl = mbulk_loop m cl'"
      using Cons.prems(3) pos 2(1,5,6) by (subst (1 2) mbulk_loop.simps) simp
    moreover have "loop_result cl' fut (c_argv cl' @ a # rest) cmds (mbulk_loop m cl')"
      using 2 Cons.prems by (intro mbulk_loop_body Cons.IH) simp_all
    ultimately show ?thesis using 2(4,8) by (simp add: loop_result_def)
  qed
qed

lemma read_multibulklen_ok:
  assumes u: "unread cl @ fut = enc_request as @ post" and pos: "c_qb_pos cl \<le> length (c_querybuf cl)" and "c_argv cl = []" and as: "request_ok m as"
  obtains "read_multibulklen cl = Some (Some False, cl)" "fut \<noteq> []"
  | cl' where "read_multibulklen cl = Some (None, cl')" "unread cl' @ fut = enc_args as @ post" "c_qb_pos cl' \<le> length (c_querybuf cl')" "c_argv cl' = []"
    "c_bulklen cl' = c_bulklen cl" "c_multibulklen cl' = int (length as)" "c_reqtype cl' = c_reqtype cl" "outside cl' = outside cl"
proof -
  let ?line = "count_text 42 (length as)"
  have n: "0 < int (length as)" "int (length as) \<le> 1024 * 1024" using as by (simp_all add: request_ok_def)
  have clean: "\<forall>b\<in>set ?line. b \<noteq> 13 \<and> b \<noteq> 0" by (intro ballI count_text_clean [of 42]) simp_all
  have l21: "length ?line \<le> 21" using length_count_text [of "length as" 42] n by simp
  have "unread cl @ fut = ?line @ [13, 10] @ (enc_args as @ post)" using u by (simp add: enc_request_def)
  then show thesis using clean
  proof (cases rule: line_cases)
    case short
    then have "read_multibulklen cl = Some (Some False, cl)" using l21 assms(3) by (simp add: read_multibulklen_def length_unread)
    then show thesis using that(1) short(3) by blast
  next
    case cr
    then have "read_multibulklen cl = Some (Some False, cl)" using assms(3) by (simp add: read_multibulklen_def line_room [OF pos])
    then show thesis using that(1) cr(3) by blast
  next
    case (full v)
    define cl1 where "cl1 = cl\<lparr>c_qb_pos := c_qb_pos cl + (length ?line + 2)\<rparr>"
    define cl' where "cl' = cl1\<lparr>c_multibulklen := int (length as), c_argv := []\<rparr>"
    have "unread cl1 = v" unfolding cl1_def unread_move using full(2) by simp
    then have v: "unread cl' = v" by (simp add: cl'_def unread_def)
    have pos1: "c_qb_pos cl' \<le> length (c_querybuf cl')" using arg_cong [OF full(2), of length] pos by (simp add: cl1_def cl'_def unread_def)
    have "\<not> length (unread cl) < length ?line + 2" "unread cl ! 0 = 42" using full(2) by (simp_all add: count_text_def)
    moreover have "string2ll (take (length ?line - 1) (drop 1 (unread cl))) = Some (int (length as))"
      unfolding full(2) using n by (intro string2ll_count_text) simp
    ultimately have "read_multibulklen cl = Some (None, cl')"
      using full(1) n assms(3) unfolding read_multibulklen_def cl'_def cl1_def by (simp add: line_room [OF pos] add.assoc Let_def)
    then show thesis using that(2) [of cl'] v full(3) pos1 by (simp add: cl'_def cl1_def outside_def)
  qed
qed

inductive_cases awaits_ConsE: "awaits cl bs (as # cmds)"

lemma processMultibulkBuffer_ok:
  assumes "awaits cl (unread cl @ fut) (as # cmds)" and "c_reqtype cl = 2" and pos: "c_qb_pos cl \<le> length (c_querybuf cl)" and as: "request_ok m as"
  shows "\<exists>r. processMultibulkBuffer m cl = Some r \<and> loop_result cl fut as cmds r"
  using assms(1)
proof (cases rule: awaits_ConsE [consumes 1, case_names idle args body])
  case idle
  have u: "unread cl @ fut = enc_request as @ enc_requests cmds" using idle(1) by simp
  show ?thesis using u pos idle(3) as
  proof (cases rule: read_multibulklen_ok)
    case 1
    then have "processMultibulkBuffer m cl = Some (False, cl)" using idle(4) by (simp add: processMultibulkBuffer_def)
    then show ?thesis using 1(2) assms pos by (simp add: loop_result_def)
  next
    case (2 cl')
    have ne: "0 < int (length as)" using as by (simp add: request_ok_def)
    then have "processMultibulkBuffer m cl = Some (mbulk_loop m cl')" using idle(4) 2(1,6) by (simp add: processMultibulkBuffer_def)
    moreover have "loop_result cl' fut (c_argv cl' @ as) cmds (mbulk_loop m cl')"
      using 2 assms(2) idle(5) as by (intro mbulk_loop_args) (simp_all add: request_ok_def)
    ultimately show ?thesis using 2(4,8) by (simp add: loop_result_def)
  qed
next
  case (args rest)
  have "processMultibulkBuffer m cl = Some (mbulk_loop m cl)" using args(4,5) by (simp add: processMultibulkBuffer_def)
  moreover have "loop_result cl fut (c_argv cl @ rest) cmds (mbulk_loop m cl)"
    using args pos as by (intro mbulk_loop_args) (simp_all add: request_ok_def)
  ultimately show ?thesis using args(2) by simp
next
  case (body rest a)
  have "processMultibulkBuffer m cl = Some (mbulk_loop m cl)" using body(4) by (simp add: processMultibulkBuffer_def)
  moreover have "loop_result cl fut (c_argv cl @ a # rest) cmds (mbulk_loop m cl)"
    using body pos as by (intro mbulk_loop_body mbulk_loop_args) (simp_all add: request_ok_def)
  ultimately show ?thesis using body(2) by simp
qed

lemma awaits_nil:
  assumes "awaits cl [] cmds" and "\<forall>as\<in>set cmds. as \<noteq> []"
  shows "cmds = []"
  using assms by (cases rule: awaits.cases) (auto simp: enc_requests_def enc_request_def enc_args_def enc_arg_def)

lemma awaits_length: "awaits cl bs cmds \<Longrightarrow> length bs \<le> length (enc_requests cmds)"
  by (induction rule: awaits.induct) (simp_all add: enc_request_def enc_args_def enc_arg_def)

end
