(* ===== verification/Aof.thy ===== *)
theory Aof
  imports Util_Num Networking_Parse
begin

text \<open>
  The append only file (\<^verbatim>\<open>aof.c\<close>): the encoding of executed commands, and what is appended for a command. A string object is the
  list of its bytes. The buffer of 32 bytes on the stack starts with the indeterminate bytes \<open>junk\<close>.
\<close>

subsection \<open>Encoding\<close>

text \<open>The line with a count: the tag, the number, and the end of the line, built in the buffer.\<close>

definition count_line :: "(nat \<Rightarrow> byte) \<Rightarrow> byte \<Rightarrow> int \<Rightarrow> byte list option" where
  "count_line junk tag n =
     do { (b, l) \<leftarrow> ll2string (map junk [1..<32]) n;
          let buf = tag # b;
          let len = 1 + l;
          if len + 1 < length buf then Some (take (len + 2) (buf[len := 13, len + 1 := 10])) else None }"

primrec cat_args :: "(nat \<Rightarrow> byte) \<Rightarrow> byte list \<Rightarrow> byte list list \<Rightarrow> byte list option" where
  "cat_args junk dst [] = Some dst"
| "cat_args junk dst (ob # obs) =
     do { line \<leftarrow> count_line junk 36 (int (length ob));
          let dst = dst @ line;
          let dst = dst @ ob;
          let dst = dst @ [13, 10];
          cat_args junk dst obs }"

definition catAppendOnlyGenericCommand :: "(nat \<Rightarrow> byte) \<Rightarrow> byte list \<Rightarrow> byte list list \<Rightarrow> byte list option" where
  "catAppendOnlyGenericCommand junk dst argv =
     do { line \<leftarrow> count_line junk 42 (int (length argv));
          cat_args junk (dst @ line) argv }"

text \<open>\<^verbatim>\<open>createStringObjectFromLongLong\<close> and \<^verbatim>\<open>getDecodedObject\<close>: the text of a number.\<close>

definition longlong_object :: "(nat \<Rightarrow> byte) \<Rightarrow> int \<Rightarrow> byte list option" where
  "longlong_object junk v = do { (b, l) \<leftarrow> ll2string (map junk [0..<32]) v; Some (take l b) }"

definition checked :: "int \<Rightarrow> int option" where
  "checked v = (if is_int64 v then Some v else None)"

definition catAppendOnlyExpireAtCommand ::
  "(nat \<Rightarrow> byte) \<Rightarrow> int \<Rightarrow> byte list \<Rightarrow> redisCommand \<Rightarrow> byte list \<Rightarrow> byte list \<Rightarrow> byte list option" where
  "catAppendOnlyExpireAtCommand junk mstime buf cmd key seconds =
     do { let when = fst (strtoll seconds);
          when \<leftarrow> (if cmd_proc cmd \<in> {expireCommand_p, setexCommand_p, expireatCommand_p} then checked (when * 1000) else Some when);
          when \<leftarrow> (if cmd_proc cmd \<in> {expireCommand_p, pexpireCommand_p, setexCommand_p, psetexCommand_p} then checked (when + mstime) else Some when);
          arg \<leftarrow> longlong_object junk when;
          catAppendOnlyGenericCommand junk buf [bytes ''PEXPIREAT'', key, arg] }"

subsection \<open>The buffers\<close>

abbreviation (input) AOF_RW_BUF_BLOCK_SIZE :: nat where "AOF_RW_BUF_BLOCK_SIZE \<equiv> 1024 * 1024 * 10"

record aofrwblock =
  rw_used :: nat
  rw_free :: nat
  rw_buf :: "byte list"

text \<open>The blocks in which the changes during a rewrite are collected, the last one first to be filled.\<close>

function aofRewriteBufferAppend :: "aofrwblock list \<Rightarrow> byte list \<Rightarrow> aofrwblock list" where
  "aofRewriteBufferAppend blocks s =
     (if s = [] then blocks
      else
        let (blocks, s) =
              (if blocks \<noteq> [] then
                 let block = last blocks; thislen = (if rw_free block < length s then rw_free block else length s)
                 in if thislen \<noteq> 0 then
                      (butlast blocks @ [\<lparr>rw_used = rw_used block + thislen, rw_free = rw_free block - thislen,
                         rw_buf = take (rw_used block) (rw_buf block) @ take thislen s\<rparr>], drop thislen s)
                    else (blocks, s)
               else (blocks, s))
        in if s \<noteq> [] then aofRewriteBufferAppend (blocks @ [\<lparr>rw_used = 0, rw_free = AOF_RW_BUF_BLOCK_SIZE, rw_buf = []\<rparr>]) s else blocks)"
  by pat_completeness auto
termination
proof (relation "measure (\<lambda>(blocks, s). 2 * length s + (if blocks \<noteq> [] \<and> rw_free (last blocks) \<noteq> 0 then 0 else 1))", goal_cases)
  case (2 blocks s x blocks' s')
  then show ?case by (auto simp: Let_def split: if_splits)
qed simp

declare aofRewriteBufferAppend.simps [simp del]

record aof_state =
  aof_selected_db :: int
  aof_on :: bool
  aof_child :: bool
  aof_buf :: "byte list"
  aof_rewrite_buf_blocks :: "aofrwblock list"

definition arg :: "byte list list \<Rightarrow> nat \<Rightarrow> byte list option" where
  "arg argv i = (if i < length argv then Some (argv ! i) else None)"

text \<open>The options EX and PX of SET: the arguments behind them.\<close>

fun set_options :: "byte list list \<Rightarrow> byte list option \<times> byte list option \<Rightarrow> (byte list option \<times> byte list option) option" where
  "set_options [] r = Some r"
| "set_options (a # as) (exarg, pxarg) =
     do { exarg \<leftarrow> (if strcaseeq (cstr a) (bytes ''ex'') then do { x \<leftarrow> arg as 0; Some (Some x) } else Some exarg);
          pxarg \<leftarrow> (if strcaseeq (cstr a) (bytes ''px'') then do { x \<leftarrow> arg as 0; Some (Some x) } else Some pxarg);
          set_options as (exarg, pxarg) }"

definition select_text :: "int \<Rightarrow> byte list" where
  "select_text dictid =
     (let seldb = int_dec dictid
      in bytes ''*2'' @ [13, 10] @ bytes ''$6'' @ [13, 10] @ bytes ''SELECT'' @ [13, 10] @ bytes ''$'' @ int_dec (int (length seldb)) @ [13, 10] @
         seldb @ [13, 10])"

text \<open>The translation of the command, with relative times made absolute. \<open>expire_cmd\<close> and \<open>pexpire_cmd\<close> are \<^verbatim>\<open>server.expireCommand\<close> and
  \<^verbatim>\<open>server.pexpireCommand\<close>.\<close>

definition cat_command :: "(nat \<Rightarrow> byte) \<Rightarrow> int \<Rightarrow> redisCommand \<Rightarrow> redisCommand \<Rightarrow> byte list \<Rightarrow> redisCommand \<Rightarrow> byte list list \<Rightarrow> byte list option" where
  "cat_command junk mstime expire_cmd pexpire_cmd buf cmd argv =
     (if cmd_proc cmd \<in> {expireCommand_p, pexpireCommand_p, expireatCommand_p} then
        do { key \<leftarrow> arg argv 1; t \<leftarrow> arg argv 2; catAppendOnlyExpireAtCommand junk mstime buf cmd key t }
      else if cmd_proc cmd \<in> {setexCommand_p, psetexCommand_p} then
        do { key \<leftarrow> arg argv 1; t \<leftarrow> arg argv 2; v \<leftarrow> arg argv 3;
             buf \<leftarrow> catAppendOnlyGenericCommand junk buf [bytes ''SET'', key, v];
             catAppendOnlyExpireAtCommand junk mstime buf cmd key t }
      else if cmd_proc cmd = setCommand_p \<and> length argv > 3 then
        do { key \<leftarrow> arg argv 1;
             buf \<leftarrow> catAppendOnlyGenericCommand junk buf (take 3 argv);
             (exarg, pxarg) \<leftarrow> set_options (drop 3 argv) (None, None);
             if exarg \<noteq> None \<and> pxarg \<noteq> None then None
             else do { buf \<leftarrow> (case exarg of None \<Rightarrow> Some buf | Some t \<Rightarrow> catAppendOnlyExpireAtCommand junk mstime buf expire_cmd key t);
                       case pxarg of None \<Rightarrow> Some buf | Some t \<Rightarrow> catAppendOnlyExpireAtCommand junk mstime buf pexpire_cmd key t } }
      else catAppendOnlyGenericCommand junk buf argv)"

definition feedAppendOnlyFile ::
  "(nat \<Rightarrow> byte) \<Rightarrow> int \<Rightarrow> redisCommand \<Rightarrow> redisCommand \<Rightarrow> redisCommand \<Rightarrow> int \<Rightarrow> byte list list \<Rightarrow> aof_state \<Rightarrow> aof_state option" where
  "feedAppendOnlyFile junk mstime expire_cmd pexpire_cmd cmd dictid argv st =
     do { let (buf, st) = (if dictid \<noteq> aof_selected_db st then (select_text dictid, st\<lparr>aof_selected_db := dictid\<rparr>) else ([], st));
          buf \<leftarrow> cat_command junk mstime expire_cmd pexpire_cmd buf cmd argv;
          let st = (if aof_on st then st\<lparr>aof_buf := aof_buf st @ buf\<rparr> else st);
          Some (if aof_child st then st\<lparr>aof_rewrite_buf_blocks := aofRewriteBufferAppend (aof_rewrite_buf_blocks st) buf\<rparr> else st) }"

end
