(* ===== verification/Networking_Run.thy ===== *)
theory Networking_Run
  imports Networking_Parse Refine Multi_Prop
begin

text \<open>
  Delivering the requests of a client in pieces: the server executes exactly the encoded requests, in their order.
\<close>

subsection \<open>What the parser leaves alone\<close>

definition front :: "cid \<Rightarrow> 'd server \<Rightarrow> 'd server" where
  "front c s = upd_client c outside (s\<lparr>s_current_client := None, s_stat_net_input_bytes := 0\<rparr>)"

definition plain :: "client \<Rightarrow> bool" where
  "plain cl \<longleftrightarrow> c_flags cl \<inter> {CLIENT_SLAVE, CLIENT_MASTER, CLIENT_BLOCKED, CLIENT_CLOSE_AFTER_REPLY, CLIENT_CLOSE_ASAP} = {}"

lemma plain_outside: "plain (outside cl) = plain cl"
  by (auto simp: plain_def outside_def)

lemma plain_cong: "outside cl' = outside cl \<Longrightarrow> plain cl' = plain cl"
  using plain_outside by metis

lemma outside_idem [simp]: "outside (outside cl) = outside cl"
  by (simp add: outside_def)

lemma front_upd: "outside (f (s_client s c)) = outside (s_client s c) \<Longrightarrow> front c (upd_client c f s) = front c s"
  by (simp add: front_def upd_client_def)

lemma front_current [simp]: "front c (s\<lparr>s_current_client := x\<rparr>) = front c s" "front c (s\<lparr>s_stat_net_input_bytes := n\<rparr>) = front c s"
  by (simp_all add: front_def upd_client_def)

lemma outside_resetClient [simp]: "outside (resetClient cl) = outside cl"
  by (rule client.equality) (auto simp: outside_def resetClient_def del_flags_def add_flags_def Let_def)

lemma outside_trim [simp]: "outside (trim_querybuf cl) = outside cl"
  by (simp add: outside_def trim_querybuf_def)

lemma outside_set_reqtype [simp]: "outside (set_reqtype cl) = outside cl"
  by (simp add: outside_def set_reqtype_def)

lemma resetClient_simps [simp]:
  "c_querybuf (resetClient cl) = c_querybuf cl" "c_qb_pos (resetClient cl) = c_qb_pos cl" "c_argv (resetClient cl) = []"
  "c_reqtype (resetClient cl) = 0" "c_multibulklen (resetClient cl) = 0" "c_bulklen (resetClient cl) = - 1"
  by (simp_all add: resetClient_def del_flags_def add_flags_def Let_def)

subsection \<open>Executed requests\<close>

text \<open>
  The requests are executed one after the other: each by \<^verbatim>\<open>processCommand\<close> with its arguments in \<^verbatim>\<open>c->argv\<close>, and between them only the input side of
  the client changes.
\<close>

inductive executes :: "'d env \<Rightarrow> cid \<Rightarrow> byte list list list \<Rightarrow> 'd server \<Rightarrow> 'd server \<Rightarrow> bool" where
  none: "front c s' = front c s \<Longrightarrow> executes env c [] s s'"
| one: "front c s1 = front c s \<Longrightarrow> c_argv (s_client s1 c) = as \<Longrightarrow> processCommand env c s1 = Some (True, s2) \<Longrightarrow> executes env c cmds s2 s3 \<Longrightarrow>
    executes env c (as # cmds) s s3"

lemma executes_front: "executes env c cmds s s' \<Longrightarrow> front c s = front c s0 \<Longrightarrow> executes env c cmds s0 s'"
  by (induction arbitrary: s0 rule: executes.induct) (auto intro: executes.intros)

lemma executes_front_right: "executes env c cmds s s' \<Longrightarrow> front c s'' = front c s' \<Longrightarrow> executes env c cmds s s''"
  by (induction rule: executes.induct) (auto intro: executes.intros)

lemma executes_append: "executes env c xs s s1 \<Longrightarrow> executes env c ys s1 s2 \<Longrightarrow> executes env c (xs @ ys) s s2"
  by (induction rule: executes.induct) (auto intro: executes.intros executes_front)

text \<open>
  Commands that do not touch the connection: they succeed, and the client is afterwards neither blocked nor about to be closed, and its query
  buffer is as before.
\<close>

definition keeps_input :: "'d env \<Rightarrow> cid \<Rightarrow> byte list list list \<Rightarrow> bool" where
  "keeps_input env c cmds \<longleftrightarrow> (\<forall>s. c_argv (s_client s c) \<in> set cmds \<longrightarrow> plain (s_client s c) \<longrightarrow> s_current_client s = Some c \<longrightarrow>
     (\<exists>s'. processCommand env c s = Some (True, s') \<and> s_current_client s' = Some c \<and> plain (s_client s' c) \<and>
       c_querybuf (s_client s' c) = c_querybuf (s_client s c) \<and> c_qb_pos (s_client s' c) = c_qb_pos (s_client s c)))"

text \<open>The state between two requests.\<close>

definition ready :: "cid \<Rightarrow> byte list \<Rightarrow> byte list list list \<Rightarrow> 'd server \<Rightarrow> bool" where
  "ready c fut cmds s \<longleftrightarrow> plain (s_client s c) \<and> c_qb_pos (s_client s c) \<le> length (c_querybuf (s_client s c)) \<and>
     awaits (s_client s c) (unread (s_client s c) @ fut) cmds"

lemma set_reqtype_ok:
  assumes "awaits cl (unread cl @ fut) (as # cmds)" and "unread cl \<noteq> []"
  shows "awaits (set_reqtype cl) (unread cl @ fut) (as # cmds)" "c_reqtype (set_reqtype cl) = 2"
proof -
  have "awaits (set_reqtype cl) (unread cl @ fut) (as # cmds) \<and> c_reqtype (set_reqtype cl) = 2"
    using assms(1)
  proof (cases rule: awaits_ConsE [consumes 1, case_names idle args body])
    case idle
    have "(unread cl @ fut) ! 0 = 42" using idle(1) by (simp add: enc_request_def count_text_def)
    then have "unread cl ! 0 = 42" using assms(2) by (simp add: nth_append)
    then have "c_reqtype (set_reqtype cl) = 2" using idle(2) by (auto simp: set_reqtype_def)
    moreover have "awaits (set_reqtype cl) (enc_requests (as # cmds)) (as # cmds)"
      using idle(2-5) \<open>unread cl ! 0 = 42\<close> by (intro awaits.idle) (auto simp: set_reqtype_def)
    ultimately show ?thesis using idle(1) by simp
  qed (use assms(1) in \<open>simp_all add: set_reqtype_def\<close>)
  then show "awaits (set_reqtype cl) (unread cl @ fut) (as # cmds)" "c_reqtype (set_reqtype cl) = 2" by blast+
qed

text \<open>One round of the loop: the parser waits for more of the stream, or one request is executed.\<close>

lemma input_step_ok:
  assumes r: "ready c fut (as # cmds) s" and cur: "s_current_client s = Some c" and u: "unread (s_client s c) \<noteq> []"
    and paused: "\<And>s. i_paused ie s = (False, s)" and keep: "keeps_input (i_env ie) c (as # cmds)" and as: "request_ok (i_proto_max_bulk_len ie) as"
  obtains s' where "input_step ie c s = Some (False, s')" "ready c fut (as # cmds) s'" "front c s' = front c s" "fut \<noteq> []" "s_current_client s' = Some c"
  | s1 s2 s' where "input_step ie c s = Some (True, s')" "ready c fut cmds s'" "front c s1 = front c s" "c_argv (s_client s1 c) = as"
    "processCommand (i_env ie) c s1 = Some (True, s2)" "front c s' = front c s2" "s_current_client s' = Some c"
proof -
  let ?cl = "s_client s c"
  let ?cl1 = "set_reqtype ?cl"
  have pl: "plain ?cl" and pos: "c_qb_pos ?cl \<le> length (c_querybuf ?cl)" and aw: "awaits ?cl (unread ?cl @ fut) (as # cmds)"
    using r by (simp_all add: ready_def)
  have un: "unread ?cl1 = unread ?cl" "c_qb_pos ?cl1 \<le> length (c_querybuf ?cl1)" using pos by (simp_all add: set_reqtype_def unread_def)
  note sr = set_reqtype_ok [OF aw u]
  obtain ok cl2 where p: "processMultibulkBuffer (i_proto_max_bulk_len ie) ?cl1 = Some (ok, cl2)" "loop_result ?cl1 fut as cmds (ok, cl2)"
    using processMultibulkBuffer_ok [OF _ sr(2) un(2) as, of fut cmds] sr(1) un(1) by auto
  define s1 where "s1 = upd_client c (\<lambda>_. cl2) s"
  have out: "outside cl2 = outside ?cl" using p(2) by (simp add: loop_result_def)
  have f1: "front c s1 = front c s" unfolding s1_def using out by (intro front_upd)
  have pl2: "plain cl2" using plain_cong [OF out] pl by simp
  have step: "input_step ie c s = (if ok then run_request ie c s1 else Some (False, s1))"
    using pl paused p(1) sr(2) unfolding input_step_def s1_def by (auto simp: plain_def parse_request_def)
  have s1: "s_client s1 c = cl2" "s_current_client s1 = Some c" using cur by (simp_all add: s1_def upd_client_def)
  show thesis
  proof (cases ok)
    case False
    then have "fut \<noteq> []" "ready c fut (as # cmds) s1" using p(2) pl2 s1(1) by (simp_all add: loop_result_def ready_def)
    then show thesis using that(1) [of s1] step False f1 s1(2) by simp
  next
    case True
    have argv: "c_argv (s_client s1 c) = as" "as \<noteq> []" using True p(2) as s1(1) by (simp_all add: loop_result_def request_ok_def)
    obtain s2 where s2: "processCommand (i_env ie) c s1 = Some (True, s2)" "s_current_client s2 = Some c" "plain (s_client s2 c)"
        "c_querybuf (s_client s2 c) = c_querybuf cl2" "c_qb_pos (s_client s2 c) = c_qb_pos cl2"
      using keep argv pl2 s1 unfolding keeps_input_def by force
    define s3 where "s3 = upd_client c resetClient s2"
    have "run_request ie c s1 = Some (True, s3)"
      using s2 argv by (auto simp: run_request_def plain_def s3_def upd_client_def Let_def)
    then have "input_step ie c s = Some (True, s3)" using step True by simp
    moreover have "front c s3 = front c s2" unfolding s3_def by (rule front_upd) simp
    moreover have "ready c fut cmds s3"
    proof -
      have un3: "unread (s_client s3 c) = unread cl2" using s2(4,5) by (simp add: s3_def unread_def)
      have "awaits (s_client s3 c) (enc_requests cmds) cmds" by (rule awaits.idle) (simp_all add: s3_def)
      moreover have "plain (s_client s3 c)" using s2(3) plain_cong [of "s_client s3 c" "s_client s2 c"] by (simp add: s3_def)
      ultimately show ?thesis using p(2) True un3 s2(4,5) unfolding ready_def loop_result_def by (simp add: s3_def)
    qed
    moreover have "s_current_client s3 = Some c" using s2(2) by (simp add: s3_def upd_client_def)
    ultimately show thesis using that(2) [of s3 s1 s2] f1 argv(1) s2(1) by simp
  qed
qed

lemma input_loop_ok:
  assumes "ready c fut cmds s" and "s_current_client s = Some c" and paused: "\<And>s. i_paused ie s = (False, s)"
    and "keeps_input (i_env ie) c cmds" and "\<forall>as\<in>set cmds. request_ok (i_proto_max_bulk_len ie) as"
  shows "\<exists>s' xs ys. input_loop ie c s = Some s' \<and> cmds = xs @ ys \<and> executes (i_env ie) c xs s s' \<and> ready c fut ys s' \<and>
    s_current_client s' = Some c \<and> (fut = [] \<longrightarrow> ys = [])"
  using assms(1,2,4,5)
proof (induction cmds arbitrary: s)
  case Nil
  then have "unread (s_client s c) @ fut = []" by (auto simp: ready_def elim: awaits.cases)
  then have "input_loop ie c s = Some s" using Nil(1) by (subst input_loop.simps) (simp add: unread_def ready_def)
  then show ?case using Nil(1,2) executes.none [of c s s] by auto
next
  case (Cons as cmds)
  show ?case
  proof (cases "unread (s_client s c) = []")
    case True
    then have "fut \<noteq> []" using awaits_nil [of "s_client s c" "as # cmds"] Cons.prems(1,4) by (auto simp: ready_def request_ok_def)
    moreover have "input_loop ie c s = Some s" using True by (subst input_loop.simps) (simp add: unread_def)
    moreover have "as # cmds = [] @ as # cmds" by simp
    ultimately show ?thesis using Cons.prems(1,2) executes.none [of c s s] by metis
  next
    case False
    have pos: "c_qb_pos (s_client s c) < length (c_querybuf (s_client s c))" using False by (simp add: unread_def)
    have as: "request_ok (i_proto_max_bulk_len ie) as" using Cons.prems(4) by simp
    show ?thesis using Cons.prems(1,2) False paused Cons.prems(3) as
    proof (cases rule: input_step_ok)
      case (1 s')
      have "input_loop ie c s = Some s'" using 1(1) pos by (subst input_loop.simps) simp
      moreover have "as # cmds = [] @ as # cmds" by simp
      ultimately show ?thesis using 1 executes.none [of c s' s] by metis
    next
      case (2 s1 s2 s')
      have keep: "keeps_input (i_env ie) c cmds" using Cons.prems(3) by (simp add: keeps_input_def)
      have ok: "\<forall>as\<in>set cmds. request_ok (i_proto_max_bulk_len ie) as" using Cons.prems(4) by simp
      obtain s'' xs ys where e: "input_loop ie c s' = Some s''" "cmds = xs @ ys" "executes (i_env ie) c xs s' s''" "ready c fut ys s''"
          "s_current_client s'' = Some c" "fut = [] \<longrightarrow> ys = []"
        using Cons.IH [OF 2(2,7) keep ok] by blast
      have "input_loop ie c s = Some s''" using 2(1) pos e(1) by (subst input_loop.simps) simp
      moreover have "executes (i_env ie) c (as # xs) s s''"
        using executes.one [OF 2(3,4,5)] executes_front [OF e(3) 2(6)] by blast
      moreover have "as # cmds = (as # xs) @ ys" using e(2) by simp
      ultimately show ?thesis using e(4-6) by metis
    qed
  qed
qed

end
