(* ===== verification/Aof_Spec.thy ===== *)
theory Aof_Spec
  imports Aof Networking_Run
begin

text \<open>
  What is appended to the append only file for a command is the encoding of requests that a client may send, with absolute times;
  and the encoded requests are executed when they are delivered.
\<close>

subsection \<open>The encoder\<close>

lemma count_line_eq:
  assumes "is_int64 (int n)"
  shows "count_line junk tag (int n) = Some (count_text tag n @ [13, 10])"
proof -
  let ?d = "int_dec (int n)"
  have l: "length ?d \<le> 20" by (rule length_int_dec [OF assms])
  have ll: "ll2string (map junk [1..<32]) (int n) = Some (?d @ 0 # drop (length ?d + 1) (map junk [1..<32]), length ?d)"
    using l by (intro ll2string_fits [OF assms]) simp
  obtain x y zs where xs: "0 # drop (length ?d + 1) (map junk [1..<32]) = x # y # zs"
    using l by (cases "drop (length ?d + 1) (map junk [1..<32])") auto
  have "length (tag # ?d @ x # y # zs) = length ?d + 3 + length zs" by simp
  moreover have "(tag # ?d @ x # y # zs)[1 + length ?d := 13, 1 + length ?d + 1 := 10] = tag # ?d @ 13 # 10 # zs"
    by (simp add: list_update_append)
  ultimately show ?thesis using ll unfolding count_line_def xs by (simp add: count_text_def)
qed

lemma cat_args_eq: "\<forall>a\<in>set as. is_int64 (int (length a)) \<Longrightarrow> cat_args junk dst as = Some (dst @ enc_args as)"
  by (induction as arbitrary: dst) (simp_all add: count_line_eq enc_arg_def)

definition encodable :: "byte list list \<Rightarrow> bool" where
  "encodable as \<longleftrightarrow> is_int64 (int (length as)) \<and> (\<forall>a\<in>set as. is_int64 (int (length a)))"

lemma catAppendOnlyGenericCommand_eq: "encodable as \<Longrightarrow> catAppendOnlyGenericCommand junk dst as = Some (dst @ enc_request as)"
  by (simp add: encodable_def catAppendOnlyGenericCommand_def count_line_eq cat_args_eq enc_request_def)

lemma longlong_object_eq:
  assumes "is_int64 v"
  shows "longlong_object junk v = Some (int_dec v)"
  using ll2string_fits [OF assms, of "map junk [0..<32]"] length_int_dec [OF assms] by (simp add: longlong_object_def)

lemma run_cat:
  "\<forall>as\<in>set cmds. encodable as \<Longrightarrow> run_steps (\<lambda>as dst. catAppendOnlyGenericCommand junk dst as) cmds dst = Some (dst @ enc_requests cmds)"
  by (induction cmds arbitrary: dst) (simp_all add: catAppendOnlyGenericCommand_eq)

subsection \<open>Delivery in pieces\<close>

definition fresh :: "client \<Rightarrow> bool" where
  "fresh cl \<longleftrightarrow> plain cl \<and> c_querybuf cl = [] \<and> c_qb_pos cl = 0 \<and> c_reqtype cl = 0 \<and> c_argv cl = [] \<and> c_multibulklen cl = 0 \<and> c_bulklen cl = - 1"

text \<open>The handler of the readable socket is called once for every piece.\<close>

definition deliver :: "'d input_env \<Rightarrow> cid \<Rightarrow> byte list list \<Rightarrow> 'd server \<Rightarrow> 'd server option" where
  "deliver ie c = run_steps (\<lambda>chunk. readQueryFromClient ie (\<lambda>_. Read_data chunk) c)"

lemma processInputBuffer_ok:
  assumes "ready c fut cmds s" and "\<And>s. i_paused ie s = (False, s)"
    and "keeps_input (i_env ie) c cmds" and "\<forall>as\<in>set cmds. request_ok (i_proto_max_bulk_len ie) as"
  shows "\<exists>s' xs ys. processInputBuffer ie c s = Some s' \<and> cmds = xs @ ys \<and> executes (i_env ie) c xs s s' \<and> ready c fut ys s' \<and>
    c_qb_pos (s_client s' c) = 0 \<and> (fut = [] \<longrightarrow> ys = [])"
proof -
  let ?s0 = "s\<lparr>s_current_client := Some c\<rparr>"
  have "ready c fut cmds ?s0" using assms(1) by (simp add: ready_def)
  then obtain s1 xs ys where s1: "input_loop ie c ?s0 = Some s1" "cmds = xs @ ys" "executes (i_env ie) c xs ?s0 s1" "ready c fut ys s1"
      "s_current_client s1 = Some c" "fut = [] \<longrightarrow> ys = []" using input_loop_ok [OF _ _ assms(2-4), of fut ?s0] by auto
  define s2 where "s2 = (upd_client c trim_querybuf s1)\<lparr>s_current_client := None\<rparr>"
  have "processInputBuffer ie c s = Some s2" using s1(1,5) by (simp add: processInputBuffer_def s2_def)
  moreover have f2: "front c s2 = front c s1" unfolding s2_def front_current by (rule front_upd) simp
  have "executes (i_env ie) c xs s s2" using executes_front_right [OF executes_front [OF s1(3)] f2] by simp
  moreover have "c_qb_pos (s_client s2 c) = 0" by (simp add: s2_def trim_querybuf_def)
  moreover have "ready c fut ys s2"
  proof -
    let ?cl = "s_client s1 c"
    have c2: "s_client s2 c = trim_querybuf ?cl" by (simp add: s2_def)
    have u: "unread (trim_querybuf ?cl) = unread ?cl" by (simp add: trim_querybuf_def unread_def)
    have "awaits (trim_querybuf ?cl) bs ys" if "awaits ?cl bs ys" for bs
      using that by (rule awaits_cong) (simp_all add: trim_querybuf_def)
    moreover have "plain (trim_querybuf ?cl)" using plain_cong [of "trim_querybuf ?cl" ?cl] s1(4) by (simp add: ready_def)
    ultimately show ?thesis using s1(4) unfolding ready_def c2 u by (simp add: trim_querybuf_def)
  qed
  ultimately show ?thesis using s1(2,6) by blast
qed

lemma deliver_ok:
  assumes "ready c (concat chunks) cmds s" and "c_qb_pos (s_client s c) = 0" and "\<And>s. i_paused ie s = (False, s)"
    and "keeps_input (i_env ie) c cmds" and "\<forall>as\<in>set cmds. request_ok (i_proto_max_bulk_len ie) as"
    and "length (enc_requests cmds) \<le> i_client_max_querybuf_len ie"
  shows "\<exists>s'. deliver ie c chunks s = Some s' \<and> (chunks \<noteq> [] \<longrightarrow> executes (i_env ie) c cmds s s' \<and> ready c [] [] s' \<and> c_qb_pos (s_client s' c) = 0)"
  using assms(1,2,4-6)
proof (induction chunks arbitrary: s cmds)
  case Nil
  then show ?case by (simp add: deliver_def)
next
  case (Cons chunk chunks)
  let ?cl = "s_client s c"
  have q: "unread ?cl = c_querybuf ?cl" using Cons.prems(2) by (simp add: unread_def)
  define s1 where "s1 = (upd_client c (\<lambda>cl. cl\<lparr>c_querybuf := c_querybuf cl @ chunk\<rparr>) s)\<lparr>s_stat_net_input_bytes := s_stat_net_input_bytes s + length chunk\<rparr>"
  have nm: "CLIENT_MASTER \<notin> c_flags ?cl" using Cons.prems(1) by (auto simp: ready_def plain_def)
  have cl1: "s_client s1 c = ?cl\<lparr>c_querybuf := c_querybuf ?cl @ chunk\<rparr>" by (simp add: s1_def)
  have u1: "unread (s_client s1 c) = c_querybuf ?cl @ chunk" using Cons.prems(2) by (simp add: cl1 unread_def)
  have f1: "front c s1 = front c s" unfolding s1_def front_current by (rule front_upd) (simp add: outside_def)
  have aw: "awaits ?cl (c_querybuf ?cl @ chunk @ concat chunks) cmds" using Cons.prems(1) q by (simp add: ready_def)
  have r1: "ready c (concat chunks) cmds s1"
    using Cons.prems(1,2) awaits_cong [OF aw] unfolding ready_def u1 by (simp add: cl1 plain_def)
  have "length (c_querybuf ?cl @ chunk) \<le> i_client_max_querybuf_len ie" using awaits_length [OF aw] Cons.prems(5) by simp
  then have rd: "readQueryFromClient ie (\<lambda>_. Read_data chunk) c s = processInputBuffer ie c s1"
    using nm by (simp add: readQueryFromClient_def processInputBufferAndReplicate_def s1_def upd_client_def Let_def)
  obtain s2 xs ys where s2: "processInputBuffer ie c s1 = Some s2" "cmds = xs @ ys" "executes (i_env ie) c xs s1 s2" "ready c (concat chunks) ys s2"
      "c_qb_pos (s_client s2 c) = 0" "concat chunks = [] \<longrightarrow> ys = []"
    using processInputBuffer_ok [OF r1 assms(3) Cons.prems(3,4)] by blast
  have e: "executes (i_env ie) c xs s s2" by (rule executes_front [OF s2(3) f1])
  have prems: "keeps_input (i_env ie) c ys" "\<forall>as\<in>set ys. request_ok (i_proto_max_bulk_len ie) as" "length (enc_requests ys) \<le> i_client_max_querybuf_len ie"
    using Cons.prems(3-5) s2(2) by (simp_all add: keeps_input_def enc_requests_def)
  from Cons.IH [OF s2(4,5) prems] obtain s3 where s3: "deliver ie c chunks s2 = Some s3"
      "chunks \<noteq> [] \<longrightarrow> executes (i_env ie) c ys s2 s3 \<and> ready c [] [] s3 \<and> c_qb_pos (s_client s3 c) = 0" by blast
  have "deliver ie c (chunk # chunks) s = Some s3" using rd s2(1) s3(1) by (simp add: deliver_def)
  moreover have "executes (i_env ie) c cmds s s3 \<and> ready c [] [] s3 \<and> c_qb_pos (s_client s3 c) = 0"
  proof (cases "chunks = []")
    case True
    then show ?thesis using s3(1) s2 e by (simp add: deliver_def)
  next
    case False
    then show ?thesis using s3(2) executes_append [OF e] s2(2) by auto
  qed
  ultimately show ?case by blast
qed

text \<open>
  C33. Requests survive their transport: let the encoder of the append only file write any sequence of requests, and let the bytes reach the
  server in pieces that are cut anywhere. Then the handler of the socket returns for every piece, the requests are executed by
  \<^verbatim>\<open>processCommand\<close> exactly once, completely and in their order, and afterwards nothing is left in the query buffer and the parser is at rest.
  The hypotheses are the limits of the protocol and that the commands neither block nor close the connection.
\<close>

theorem delivered_requests_are_executed:
  assumes "run_steps (\<lambda>as dst. catAppendOnlyGenericCommand junk dst as) cmds [] = Some bs" and "concat chunks = bs" and "chunks \<noteq> []"
    and "\<forall>as\<in>set cmds. encodable as \<and> request_ok (i_proto_max_bulk_len ie) as" and "length bs \<le> i_client_max_querybuf_len ie"
    and "fresh (s_client s c)" and "\<forall>s. i_paused ie s = (False, s)" and "keeps_input (i_env ie) c cmds"
  shows "\<exists>s'. deliver ie c chunks s = Some s' \<and> executes (i_env ie) c cmds s s' \<and> c_querybuf (s_client s' c) = [] \<and> c_argv (s_client s' c) = [] \<and>
    c_multibulklen (s_client s' c) = 0"
proof -
  have bs: "bs = enc_requests cmds" using run_cat [of cmds junk "[]"] assms(1,4) by simp
  have "awaits (s_client s c) (enc_requests cmds) cmds" using assms(6) by (intro awaits.idle) (simp_all add: fresh_def)
  then have r: "ready c (concat chunks) cmds s" using assms(2,6) bs by (simp add: ready_def fresh_def unread_def)
  have z: "c_qb_pos (s_client s c) = 0" using assms(6) by (simp add: fresh_def)
  have p: "\<And>s. i_paused ie s = (False, s)" using assms(7) by simp
  obtain s' where s': "deliver ie c chunks s = Some s'" "executes (i_env ie) c cmds s s'" "ready c [] [] s'" "c_qb_pos (s_client s' c) = 0"
    using deliver_ok [OF r z p assms(8)] assms(3-5) bs by auto
  then have "awaits (s_client s' c) (c_querybuf (s_client s' c)) []" by (simp add: ready_def unread_def)
  then have "c_querybuf (s_client s' c) = [] \<and> c_argv (s_client s' c) = [] \<and> c_multibulklen (s_client s' c) = 0" by (cases rule: awaits.cases) simp_all
  then show ?thesis using s' by blast
qed

text \<open>A server without commands, which answers every request with an error.\<close>

definition bare_env :: "unit env" where
  "bare_env = demo_env\<lparr>e_commands := \<lambda>_. None\<rparr>"

definition bare_input :: "unit input_env" where
  "bare_input = \<lparr>i_env = bare_env, i_paused = (\<lambda>s. (False, s)), i_proto_max_bulk_len = 1024, i_client_max_querybuf_len = 4096,
     i_freeClient = (\<lambda>_ s. s), i_junk = (\<lambda>_. 0)\<rparr>"

lemma keeps_input_bare: "keeps_input bare_env c [[[103], [107]]]"
  unfolding keeps_input_def
proof (intro allI impI)
  fix s :: "unit server"
  assume a: "c_argv (s_client s c) \<in> set [[[103], [107]]]" and p: "plain (s_client s c)" and cur: "s_current_client s = Some c"
  define s1 where "s1 = upd_client c (\<lambda>cl. cl\<lparr>c_cmd := None, c_lastcmd := None\<rparr>) s"
  define s' where "s' = addReply c (Unknown_command [103] (unknown_args [] [[107]])) (flagTransaction c s1)"
  have "processCommand bare_env c s = Some (True, s')"
    using a by (simp add: processCommand_def bare_env_def demo_env_def lookupCommand_def strcaseeq_def bytes_def reject_def s1_def s'_def)
  moreover have "s_current_client s' = Some c" using cur by (simp add: s'_def s1_def addReply_def flagTransaction_def upd_client_def)
  moreover have "plain (s_client s' c)" "c_querybuf (s_client s' c) = c_querybuf (s_client s c)" "c_qb_pos (s_client s' c) = c_qb_pos (s_client s c)"
    using p by (auto simp: s'_def s1_def addReply_def flagTransaction_def plain_def add_flags_def)
  ultimately show "\<exists>s'. processCommand bare_env c s = Some (True, s') \<and> s_current_client s' = Some c \<and> plain (s_client s' c) \<and>
      c_querybuf (s_client s' c) = c_querybuf (s_client s c) \<and> c_qb_pos (s_client s' c) = c_qb_pos (s_client s c)" by blast
qed

text \<open>The request \<^verbatim>\<open>g k\<close>, cut behind the third byte.\<close>

definition demo_stream :: "byte list" where
  "demo_stream = [42, 50, 13, 10, 36, 49, 13, 10, 103, 13, 10, 36, 49, 13, 10, 107, 13, 10]"

theorem delivered_requests_are_executed_witness:
  "\<exists>s'. deliver bare_input 1 [take 3 demo_stream, drop 3 demo_stream] demo_server = Some s' \<and>
     executes (i_env bare_input) 1 [[[103], [107]]] demo_server s' \<and> c_querybuf (s_client s' 1) = [] \<and> c_argv (s_client s' 1) = [] \<and> c_multibulklen (s_client s' 1) = 0"
proof (rule delivered_requests_are_executed [where junk = "\<lambda>_. 0" and bs = demo_stream])
  have dec: "int_dec 1 = [49]" "int_dec 2 = [50]" by (simp_all add: int_dec_def nat_dec_small digit_def)
  have "enc_requests [[[103], [107]]] = demo_stream"
    by (simp add: enc_request_def enc_arg_def count_text_def dec demo_stream_def)
  then show "run_steps (\<lambda>as dst. catAppendOnlyGenericCommand (\<lambda>_. 0) dst as) [[[103], [107]]] [] = Some demo_stream"
    using run_cat [of "[[[103], [107]]]" "\<lambda>_. 0" "[]"] by (simp add: encodable_def)
qed (simp_all add: demo_stream_def encodable_def request_ok_def bare_input_def fresh_def plain_def demo_server_def demo_client_def keeps_input_bare)

end
