(* ===== verification/Aof_Feed.thy ===== *)
theory Aof_Feed
  imports Aof_Spec
begin

text \<open>
  \<^verbatim>\<open>feedAppendOnlyFile\<close>: the bytes that it appends for a command, to the buffer of the file and to the blocks of a running rewrite.
\<close>

subsection \<open>The blocks of a rewrite\<close>

definition block_ok :: "aofrwblock \<Rightarrow> bool" where
  "block_ok b \<longleftrightarrow> length (rw_buf b) = rw_used b \<and> rw_used b + rw_free b = AOF_RW_BUF_BLOCK_SIZE"

definition blocks_text :: "aofrwblock list \<Rightarrow> byte list" where
  "blocks_text bs = concat (map rw_buf bs)"

lemma fill_last:
  assumes "blocks \<noteq> []" and "list_all block_ok blocks" and "n \<le> rw_free (last blocks)" "n \<le> length s"
  defines "blocks' \<equiv> butlast blocks @ [\<lparr>rw_used = rw_used (last blocks) + n, rw_free = rw_free (last blocks) - n,
    rw_buf = take (rw_used (last blocks)) (rw_buf (last blocks)) @ take n s\<rparr>]"
  shows "list_all block_ok blocks' \<and> blocks_text blocks' = blocks_text blocks @ take n s"
proof -
  obtain bs b where b: "blocks = bs @ [b]" using assms(1) by (metis append_butlast_last_id)
  then show ?thesis using assms(2-4) unfolding blocks'_def by (auto simp: block_ok_def blocks_text_def)
qed

lemma aofRewriteBufferAppend_ok:
  "list_all block_ok blocks \<Longrightarrow> list_all block_ok (aofRewriteBufferAppend blocks s) \<and> blocks_text (aofRewriteBufferAppend blocks s) = blocks_text blocks @ s"
proof (induction blocks s rule: aofRewriteBufferAppend.induct)
  case (1 blocks s)
  let ?fresh = "\<lparr>rw_used = 0, rw_free = AOF_RW_BUF_BLOCK_SIZE, rw_buf = []\<rparr>"
  define n where "n = (if blocks \<noteq> [] then if rw_free (last blocks) < length s then rw_free (last blocks) else length s else 0)"
  define blocks' where "blocks' = (if n \<noteq> 0 then butlast blocks @ [\<lparr>rw_used = rw_used (last blocks) + n, rw_free = rw_free (last blocks) - n,
    rw_buf = take (rw_used (last blocks)) (rw_buf (last blocks)) @ take n s\<rparr>] else blocks)"
  have eq: "aofRewriteBufferAppend blocks s =
      (if s = [] then blocks else if drop n s \<noteq> [] then aofRewriteBufferAppend (blocks' @ [?fresh]) (drop n s) else blocks')"
    by (subst aofRewriteBufferAppend.simps) (simp add: n_def blocks'_def Let_def)
  have ok: "list_all block_ok blocks' \<and> blocks_text blocks' = blocks_text blocks @ take n s"
    using fill_last [of blocks n s] 1(2) by (simp add: blocks'_def n_def)
  show ?case
  proof (cases "s = [] \<or> drop n s = []")
    case True
    then have "take n s = s" by auto
    then show ?thesis using True ok 1(2) eq by auto
  next
    case False
    have "list_all block_ok (blocks' @ [?fresh])" "blocks_text (blocks' @ [?fresh]) = blocks_text blocks @ take n s"
      using ok by (simp_all add: block_ok_def blocks_text_def)
    moreover have "list_all block_ok (blocks' @ [?fresh]) \<Longrightarrow>
        list_all block_ok (aofRewriteBufferAppend (blocks' @ [?fresh]) (drop n s)) \<and>
        blocks_text (aofRewriteBufferAppend (blocks' @ [?fresh]) (drop n s)) = blocks_text (blocks' @ [?fresh]) @ drop n s"
      using 1(1) [of "(blocks', drop n s)" blocks' "drop n s"] False by (simp add: n_def blocks'_def Let_def)
    ultimately show ?thesis using eq False by auto
  qed
qed

subsection \<open>The translation of commands\<close>

text \<open>
  The times to live that commands give, and the absolute time in milliseconds that each means; \<open>time_fits\<close> says that the time and
  the intermediate results fit a \<^verbatim>\<open>long long\<close>.
\<close>

datatype expiry = Seconds int | Milliseconds int | Unix_seconds int

primrec deadline :: "int \<Rightarrow> expiry \<Rightarrow> int" where
  "deadline now (Seconds n) = now + 1000 * n"
| "deadline now (Milliseconds n) = now + n"
| "deadline now (Unix_seconds n) = 1000 * n"

primrec amount :: "expiry \<Rightarrow> int" where
  "amount (Seconds n) = n"
| "amount (Milliseconds n) = n"
| "amount (Unix_seconds n) = n"

definition time_fits :: "int \<Rightarrow> expiry \<Rightarrow> bool" where
  "time_fits now t \<longleftrightarrow> is_int64 (deadline now t) \<and> is_int64 (if \<exists>n. t = Milliseconds n then amount t else 1000 * amount t)"

text \<open>The options of SET as the documentation of the command has them, with the times they give; NX and XX give none.\<close>

inductive set_args :: "byte list list \<Rightarrow> expiry list \<Rightarrow> bool" where
  no_args: "set_args [] []"
| condition: "spells a ''nx'' \<or> spells a ''xx'' \<Longrightarrow> set_args as ts \<Longrightarrow> set_args (a # as) ts"
| seconds: "spells a ''ex'' \<Longrightarrow> set_args as ts \<Longrightarrow> set_args (a # int_dec n # as) (Seconds n # ts)"
| milliseconds: "spells a ''px'' \<Longrightarrow> set_args as ts \<Longrightarrow> set_args (a # int_dec n # as) (Milliseconds n # ts)"

definition one_unit :: "expiry list \<Rightarrow> bool" where
  "one_unit ts \<longleftrightarrow> (\<exists>ns. ts = map Seconds ns) \<or> (\<exists>ns. ts = map Milliseconds ns)"

text \<open>
  The requests by which a command is logged: \<open>argv\<close> is the request that was executed, and its times are the decimal numbers that the commands
  accept.
\<close>

definition pexpireat :: "byte list \<Rightarrow> int \<Rightarrow> byte list list" where
  "pexpireat key t = [bytes ''PEXPIREAT'', key, int_dec t]"

inductive logged_as :: "int \<Rightarrow> proc_id \<Rightarrow> byte list list \<Rightarrow> byte list list list \<Rightarrow> bool" for now where
  expire: "time_fits now (Seconds n) \<Longrightarrow> logged_as now expireCommand_p [name, key, int_dec n] [pexpireat key (deadline now (Seconds n))]"
| pexpire: "time_fits now (Milliseconds n) \<Longrightarrow> logged_as now pexpireCommand_p [name, key, int_dec n] [pexpireat key (deadline now (Milliseconds n))]"
| expireat: "time_fits now (Unix_seconds n) \<Longrightarrow> logged_as now expireatCommand_p [name, key, int_dec n] [pexpireat key (deadline now (Unix_seconds n))]"
| setex: "time_fits now (Seconds n) \<Longrightarrow>
    logged_as now setexCommand_p [name, key, int_dec n, v] [[bytes ''SET'', key, v], pexpireat key (deadline now (Seconds n))]"
| psetex: "time_fits now (Milliseconds n) \<Longrightarrow>
    logged_as now psetexCommand_p [name, key, int_dec n, v] [[bytes ''SET'', key, v], pexpireat key (deadline now (Milliseconds n))]"
| set_plain: "set_args args [] \<Longrightarrow> logged_as now setCommand_p (name # key # v # args) [[name, key, v]]"
| set_timed: "set_args args ts \<Longrightarrow> one_unit ts \<Longrightarrow> ts \<noteq> [] \<Longrightarrow> time_fits now (last ts) \<Longrightarrow>
    logged_as now setCommand_p (name # key # v # args) [[name, key, v], pexpireat key (deadline now (last ts))]"
| others: "p \<notin> {expireCommand_p, pexpireCommand_p, expireatCommand_p, setexCommand_p, psetexCommand_p, setCommand_p} \<Longrightarrow> logged_as now p argv [argv]"

lemma strtoll_int_dec:
  assumes "is_int64 n"
  shows "strtoll (int_dec n) = (n, [])"
proof -
  let ?ds = "nat_dec (nat \<bar>n\<bar>)"
  have t: "int_dec n = signed_text (n < 0) ?ds" and v: "signed_value (n < 0) ?ds = n"
    using nat_dec_parse [of "nat \<bar>n\<bar>"] by (auto simp: int_dec_def signed_text_def signed_value_def)
  show ?thesis using strtoll_signed [of ?ds "n < 0"] nat_dec_parse [of "nat \<bar>n\<bar>"] assms unfolding t v by simp
qed

text \<open>The unit of the time that each command is given.\<close>

definition gives :: "proc_id \<Rightarrow> expiry \<Rightarrow> bool" where
  "gives p t \<longleftrightarrow> (case t of Seconds _ \<Rightarrow> p \<in> {expireCommand_p, setexCommand_p} | Milliseconds _ \<Rightarrow> p \<in> {pexpireCommand_p, psetexCommand_p}
     | Unix_seconds _ \<Rightarrow> p = expireatCommand_p)"

lemma catAppendOnlyExpireAtCommand_eq:
  assumes "gives (cmd_proc cmd) t" and "time_fits now t" and "is_int64 (int (length key))"
  shows "catAppendOnlyExpireAtCommand junk now buf cmd key (int_dec (amount t)) = Some (buf @ enc_request (pexpireat key (deadline now t)))"
proof -
  have v: "is_int64 (deadline now t)" using assms(2) by (simp add: time_fits_def)
  have a: "is_int64 (amount t)" using assms(2) by (cases t) (auto simp: time_fits_def)
  have "catAppendOnlyExpireAtCommand junk now buf cmd key (int_dec (amount t)) =
      do { arg \<leftarrow> longlong_object junk (deadline now t); catAppendOnlyGenericCommand junk buf [bytes ''PEXPIREAT'', key, arg] }"
    using assms(1,2) unfolding catAppendOnlyExpireAtCommand_def strtoll_int_dec [OF a]
    by (cases t) (auto simp: gives_def time_fits_def checked_def algebra_simps)
  moreover have "encodable (pexpireat key (deadline now t))"
    using assms(3) length_int_dec [OF v] by (simp add: encodable_def pexpireat_def bytes_def)
  ultimately show ?thesis using longlong_object_eq [OF v] catAppendOnlyGenericCommand_eq by (simp add: pexpireat_def)
qed

subsection \<open>The options of SET\<close>

lemma tolower_option_letter:
  "tolower (sint c) = 101 \<longleftrightarrow> c = 101 \<or> c = 69" "tolower (sint c) = 112 \<longleftrightarrow> c = 112 \<or> c = 80" "tolower (sint c) = 120 \<longleftrightarrow> c = 120 \<or> c = 88" for c :: byte
proof -
  have s: "sint c = sint d \<longleftrightarrow> c = d" for d :: byte by (auto dest: signed_word_eqI)
  have l: "tolower (sint c) = k \<longleftrightarrow> sint c = k \<or> sint c = k - 32" if "97 \<le> k" "k \<le> 122" for k using that by (auto simp: tolower_def)
  show "tolower (sint c) = 101 \<longleftrightarrow> c = 101 \<or> c = 69" using l [of 101] s [of 101] s [of 69] by simp
  show "tolower (sint c) = 112 \<longleftrightarrow> c = 112 \<or> c = 80" using l [of 112] s [of 112] s [of 80] by simp
  show "tolower (sint c) = 120 \<longleftrightarrow> c = 120 \<or> c = 88" using l [of 120] s [of 120] s [of 88] by simp
qed

definition is_option :: "byte list \<Rightarrow> string \<Rightarrow> bool" where
  "is_option a kw \<longleftrightarrow> strcaseeq (cstr a) (bytes kw)"

lemma option_keyword:
  "spells a ''ex'' \<Longrightarrow> is_option a ''ex'' \<and> \<not> is_option a ''px''" "spells a ''px'' \<Longrightarrow> is_option a ''px'' \<and> \<not> is_option a ''ex''"
  "spells a ''nx'' \<or> spells a ''xx'' \<Longrightarrow> \<not> is_option a ''ex'' \<and> \<not> is_option a ''px''"
  by (auto simp: is_option_def spells_def list_all2_Cons2 strcaseeq_def cstr_def bytes_def tolower_def)

lemma option_number: "\<not> is_option (int_dec n) ''ex'' \<and> \<not> is_option (int_dec n) ''px''"
proof -
  obtain c cs where c: "int_dec n = c # cs" by (cases "int_dec n") (auto simp: int_dec_def split: if_splits)
  then have "isdigit c \<or> c = MINUS" using nat_dec_parse [of "nat n"] by (auto simp: int_dec_def split: if_splits)
  then have "c \<notin> {101, 69, 112, 80, 0}" by (auto simp: isdigit_def)
  then show ?thesis unfolding c is_option_def strcaseeq_def cstr_def bytes_def by (simp add: tolower_option_letter tolower_def [of 101] tolower_def [of 112])
qed

lemma set_options_Cons:
  "set_options (a # as) (e, p) = (if (is_option a ''ex'' \<or> is_option a ''px'') \<and> as = [] then None
     else set_options as (if is_option a ''ex'' then Some (hd as) else e, if is_option a ''px'' then Some (hd as) else p))"
  unfolding is_option_def by (cases as) (simp_all add: arg_def)

lemma set_options_seconds:
  "set_args as ts \<Longrightarrow> ts = map Seconds ns \<Longrightarrow> set_options as (e, p) = Some (if ts = [] then e else Some (int_dec (amount (last ts))), p)"
  by (induction arbitrary: ns e p rule: set_args.induct) (auto simp: set_options_Cons option_keyword option_number simp del: set_options.simps(2))

lemma set_options_milliseconds:
  "set_args as ts \<Longrightarrow> ts = map Milliseconds ns \<Longrightarrow> set_options as (e, p) = Some (e, if ts = [] then p else Some (int_dec (amount (last ts))))"
  by (induction arbitrary: ns e p rule: set_args.induct) (auto simp: set_options_Cons option_keyword option_number simp del: set_options.simps(2))

lemma encodable_sub: "encodable as \<Longrightarrow> set bs \<subseteq> set as \<Longrightarrow> length bs \<le> length as \<Longrightarrow> encodable bs"
  by (auto simp: encodable_def)

lemma cat_set_eq:
  assumes "set_args args ts" and "one_unit ts" and "ts \<noteq> [] \<longrightarrow> time_fits now (last ts)" and "encodable (name # key # v # args)"
    and "cmd_proc cmd = setCommand_p" and "cmd_proc ec = expireCommand_p" and "cmd_proc pc = pexpireCommand_p"
  shows "cat_command junk now ec pc buf cmd (name # key # v # args) =
    Some (buf @ enc_requests ([name, key, v] # (if ts = [] then [] else [pexpireat key (deadline now (last ts))])))"
proof -
  have e: "encodable [name, key, v]" using assms(4) by (rule encodable_sub) auto
  have k: "is_int64 (int (length key))" using assms(4) by (simp add: encodable_def)
  note generic = catAppendOnlyGenericCommand_eq [OF e]
  show ?thesis
  proof (cases "args = []")
    case True
    then have "ts = []" using assms(1) by (auto elim: set_args.cases)
    then show ?thesis using True generic assms(5) by (simp add: cat_command_def)
  next
    case False
    then have l: "length (name # key # v # args) > 3" by (cases args) simp_all
    consider ns where "ts = map Seconds ns" | ns where "ts = map Milliseconds ns" using assms(2) by (auto simp: one_unit_def)
    then show ?thesis
    proof cases
      case 1
      have "gives (cmd_proc ec) (last ts)" if "ts \<noteq> []" using that assms(6) unfolding 1 by (simp add: gives_def last_map)
      then show ?thesis using l generic assms(3,5) set_options_seconds [OF assms(1) 1] catAppendOnlyExpireAtCommand_eq [OF _ _ k, of ec "last ts"]
        by (auto simp: cat_command_def arg_def)
    next
      case 2
      have "gives (cmd_proc pc) (last ts)" if "ts \<noteq> []" using that assms(7) unfolding 2 by (simp add: gives_def last_map)
      then show ?thesis using l generic assms(3,5) set_options_milliseconds [OF assms(1) 2] catAppendOnlyExpireAtCommand_eq [OF _ _ k, of pc "last ts"]
        by (auto simp: cat_command_def arg_def)
    qed
  qed
qed

lemma cat_expire_eq:
  assumes "gives (cmd_proc cmd) t" and "time_fits now t" and "encodable [name, key, int_dec (amount t)]"
    and "cmd_proc cmd \<in> {expireCommand_p, pexpireCommand_p, expireatCommand_p}"
  shows "cat_command junk now ec pc buf cmd [name, key, int_dec (amount t)] = Some (buf @ enc_requests [pexpireat key (deadline now t)])"
proof -
  have "is_int64 (int (length key))" using assms(3) by (simp add: encodable_def)
  then show ?thesis using catAppendOnlyExpireAtCommand_eq [OF assms(1,2)] assms(4) by (simp add: cat_command_def arg_def)
qed

lemma cat_setex_eq:
  assumes "gives (cmd_proc cmd) t" and "time_fits now t" and "encodable [name, key, int_dec (amount t), v]"
    and "cmd_proc cmd \<in> {setexCommand_p, psetexCommand_p}"
  shows "cat_command junk now ec pc buf cmd [name, key, int_dec (amount t), v] =
    Some (buf @ enc_requests [[bytes ''SET'', key, v], pexpireat key (deadline now t)])"
proof -
  have k: "is_int64 (int (length key))" "encodable [bytes ''SET'', key, v]" using assms(3) by (simp_all add: encodable_def bytes_def)
  have "\<not> cmd_proc cmd \<in> {expireCommand_p, pexpireCommand_p, expireatCommand_p}" using assms(4) by auto
  then show ?thesis
    using catAppendOnlyExpireAtCommand_eq [OF assms(1,2) k(1)] catAppendOnlyGenericCommand_eq [OF k(2)] assms(4) by (simp add: cat_command_def arg_def)
qed

lemma cat_command_eq:
  assumes "logged_as now (cmd_proc cmd) argv reqs" and "encodable argv" and "cmd_proc ec = expireCommand_p" and "cmd_proc pc = pexpireCommand_p"
  shows "cat_command junk now ec pc buf cmd argv = Some (buf @ enc_requests reqs)"
  using assms(1)
proof cases
  case (expire n name key)
  then show ?thesis using cat_expire_eq [of cmd "Seconds n" now name key] assms(2) by (simp add: gives_def)
next
  case (pexpire n name key)
  then show ?thesis using cat_expire_eq [of cmd "Milliseconds n" now name key] assms(2) by (simp add: gives_def)
next
  case (expireat n name key)
  then show ?thesis using cat_expire_eq [of cmd "Unix_seconds n" now name key] assms(2) by (simp add: gives_def)
next
  case (setex n name key v)
  then show ?thesis using cat_setex_eq [of cmd "Seconds n" now name key v] assms(2) by (simp add: gives_def)
next
  case (psetex n name key v)
  then show ?thesis using cat_setex_eq [of cmd "Milliseconds n" now name key v] assms(2) by (simp add: gives_def)
next
  case (set_plain args name key v)
  have "one_unit []" by (simp add: one_unit_def)
  then show ?thesis using cat_set_eq [of args "[]" now name key v cmd ec pc junk buf] set_plain assms(2-4) by simp
next
  case (set_timed args ts name key v)
  then show ?thesis using cat_set_eq [of args ts now name key v cmd ec pc junk buf] assms(2-4) by simp
next
  case others
  then show ?thesis using catAppendOnlyGenericCommand_eq [OF assms(2)] by (auto simp: cat_command_def)
qed

lemma select_text_eq: "select_text dictid = enc_request [bytes ''SELECT'', int_dec dictid]"
proof -
  have dec: "int_dec 2 = [50]" "int_dec 6 = [54]" by (simp_all add: int_dec_def nat_dec_small digit_def)
  show ?thesis by (simp add: select_text_def enc_request_def enc_arg_def count_text_def dec bytes_def Let_def)
qed

text \<open>
  C34. For every command that is propagated, \<^verbatim>\<open>feedAppendOnlyFile\<close> appends whole requests in the format that clients use: SELECT if the database
  changes, and then the command as \<open>logged_as\<close> specifies. EXPIRE, PEXPIRE and EXPIREAT become PEXPIREAT with the absolute time in
  milliseconds: the current time plus \<open>1000 * n\<close>, plus \<open>n\<close>, and \<open>1000 * n\<close>. SETEX and PSETEX become SET and
  PEXPIREAT. SET loses its options: a time in seconds (EX, in any case of the letters, between NX and XX, the last one if it is repeated)
  or in milliseconds (PX) becomes a PEXPIREAT behind it. Every other command is logged as it is. With a rewrite in progress the
  same bytes are added to its blocks, which stay well formed and hold the concatenation of all that was added.
  \<open>expire_cmd\<close> and \<open>pexpire_cmd\<close> are the entries of EXPIRE and PEXPIRE in the table of commands.
\<close>

theorem feedAppendOnlyFile_appends_requests:
  assumes "logged_as now (cmd_proc cmd) argv reqs" and "encodable argv" and "cmd_proc expire_cmd = expireCommand_p" and "cmd_proc pexpire_cmd = pexpireCommand_p"
    and "list_all block_ok (aof_rewrite_buf_blocks st)"
  shows "\<exists>st' bs. feedAppendOnlyFile junk now expire_cmd pexpire_cmd cmd dictid argv st = Some st' \<and>
    bs = enc_requests ((if dictid \<noteq> aof_selected_db st then [[bytes ''SELECT'', int_dec dictid]] else []) @ reqs) \<and>
    aof_selected_db st' = dictid \<and> aof_buf st' = (if aof_on st then aof_buf st @ bs else aof_buf st) \<and>
    list_all block_ok (aof_rewrite_buf_blocks st') \<and>
    blocks_text (aof_rewrite_buf_blocks st') = (if aof_child st then blocks_text (aof_rewrite_buf_blocks st) @ bs else blocks_text (aof_rewrite_buf_blocks st))"
  using assms(5) cat_command_eq [OF assms(1-4)] aofRewriteBufferAppend_ok [OF assms(5)]
  by (simp add: feedAppendOnlyFile_def select_text_eq)

theorem feedAppendOnlyFile_appends_requests_witness:
  "\<exists>st'. feedAppendOnlyFile (\<lambda>_. 0) 1000 (demo_cmd expireCommand_p {}) (demo_cmd pexpireCommand_p {}) (demo_cmd setCommand_p {}) 0
      [bytes ''SET'', [107], [118], bytes ''NX'', bytes ''eX'', bytes ''10'']
      \<lparr>aof_selected_db = 0, aof_on = True, aof_child = True, aof_buf = [], aof_rewrite_buf_blocks = []\<rparr> = Some st' \<and>
    aof_buf st' = enc_request [bytes ''SET'', [107], [118]] @ enc_request [bytes ''PEXPIREAT'', [107], int_dec 11000] \<and>
    blocks_text (aof_rewrite_buf_blocks st') = aof_buf st'"
proof -
  have ten: "bytes ''10'' = int_dec 10" by (simp add: int_dec_def nat_dec_step nat_dec_small digit_def bytes_def)
  have "set_args [bytes ''NX'', bytes ''eX'', int_dec 10] [Seconds 10]"
    by (intro set_args.intros) (simp_all add: spells_def bytes_def)
  moreover have "one_unit [Seconds 10]" unfolding one_unit_def by (rule disjI1, rule exI [of _ "[10]"]) simp
  ultimately have l: "logged_as 1000 setCommand_p [bytes ''SET'', [107], [118], bytes ''NX'', bytes ''eX'', int_dec 10]
      [[bytes ''SET'', [107], [118]], pexpireat [107] 11000]"
    using logged_as.set_timed [of "[bytes ''NX'', bytes ''eX'', int_dec 10]" "[Seconds 10]" 1000] by (simp add: time_fits_def)
  have p: "cmd_proc (demo_cmd p {}) = p" for p by (simp add: demo_cmd_def)
  have "encodable [bytes ''SET'', [107], [118], bytes ''NX'', bytes ''eX'', int_dec 10]" by (simp add: encodable_def bytes_def ten [symmetric])
  from feedAppendOnlyFile_appends_requests [of 1000 "demo_cmd setCommand_p {}", unfolded p, OF l this p p,
      of "\<lparr>aof_selected_db = 0, aof_on = True, aof_child = True, aof_buf = [], aof_rewrite_buf_blocks = []\<rparr>" "\<lambda>_. 0" 0]
  show ?thesis unfolding ten by (auto simp: pexpireat_def blocks_text_def)
qed

end
