(* ===== verification/Replication.thy ===== *)
theory Replication
  imports Util_Num Sds
begin

text \<open>
  The replication stream of a master (\<^verbatim>\<open>replication.c\<close>): the circular backlog, feeding it and the attached replicas, and the
  partial resynchronisation of a replica that comes back. \<open>sl_out\<close> is the output of a client: for a client that is not a replica the pending
  bytes, for a replica every byte added since it was attached; \<open>sl_wire\<close> is what is written to its socket directly. Log entries, statistics,
  acknowledgement times and the output buffer limits are left out; a replica has not switched its replies off (\<^verbatim>\<open>CLIENT REPLY\<close>), for
  which \<^verbatim>\<open>addReply\<close> adds nothing. Replication offsets are unbounded integers: a \<^verbatim>\<open>long long\<close> overflows after \<open>2 ^ 63\<close> bytes
  of the stream. \<open>None\<close> is a failed assertion, an access outside of the backlog, or a loop that makes no progress.
\<close>

datatype slave_state = SLAVE_STATE_WAIT_BGSAVE_START | SLAVE_STATE_WAIT_BGSAVE_END | SLAVE_STATE_SEND_BULK | SLAVE_STATE_ONLINE

datatype slave_capa = SLAVE_CAPA_EOF | SLAVE_CAPA_PSYNC2

text \<open>\<open>sl_from\<close> is no field of the code: it records the offset from which the replica wants the stream: the argument of PSYNC, or the offset behind the one announced by FULLRESYNC.\<close>

record slave =
  sl_id :: nat
  sl_replstate :: slave_state
  sl_out :: "byte list"
  sl_psync_initial_offset :: int
  sl_close_asap :: bool
  sl_is_slave :: bool
  sl_pre_psync :: bool
  sl_capa :: "slave_capa set"
  sl_wire :: "byte list"
  sl_from :: int

datatype rdb_child = No_child | RDB_CHILD_TYPE_DISK | RDB_CHILD_TYPE_SOCKET

record repl =
  rp_masterhost :: bool
  rp_backlog :: "byte list option"
  rp_backlog_size :: nat
  rp_backlog_idx :: nat
  rp_backlog_histlen :: nat
  rp_backlog_off :: int
  rp_master_repl_offset :: int
  rp_slaveseldb :: int
  rp_slaves :: "slave list"
  rp_replid :: "byte list"
  rp_replid2 :: "byte list"
  rp_second_replid_offset :: int
  rp_link_connected :: bool
  rp_rdb_child :: rdb_child
  rp_aof_child :: bool
  rp_diskless_sync :: bool

abbreviation (input) CONFIG_REPL_BACKLOG_MIN_SIZE :: nat where "CONFIG_REPL_BACKLOG_MIN_SIZE \<equiv> 1024 * 16"

subsection \<open>The backlog\<close>

definition fresh_backlog :: "(nat \<Rightarrow> byte) \<Rightarrow> repl \<Rightarrow> repl" where
  "fresh_backlog junk r = r\<lparr>rp_backlog := Some (map junk [0..<rp_backlog_size r]), rp_backlog_histlen := 0, rp_backlog_idx := 0,
     rp_backlog_off := rp_master_repl_offset r + 1\<rparr>"

definition createReplicationBacklog :: "(nat \<Rightarrow> byte) \<Rightarrow> repl \<Rightarrow> repl option" where
  "createReplicationBacklog junk r = (if rp_backlog r \<noteq> None then None else Some (fresh_backlog junk r))"

definition resizeReplicationBacklog :: "(nat \<Rightarrow> byte) \<Rightarrow> nat \<Rightarrow> repl \<Rightarrow> repl" where
  "resizeReplicationBacklog junk newsize r =
     (let newsize = (if newsize < CONFIG_REPL_BACKLOG_MIN_SIZE then CONFIG_REPL_BACKLOG_MIN_SIZE else newsize)
      in if rp_backlog_size r = newsize then r
         else let r = r\<lparr>rp_backlog_size := newsize\<rparr>
              in if rp_backlog r \<noteq> None then fresh_backlog junk r else r)"

definition freeReplicationBacklog :: "repl \<Rightarrow> repl option" where
  "freeReplicationBacklog r = (if rp_slaves r \<noteq> [] then None else Some (r\<lparr>rp_backlog := None\<rparr>))"

text \<open>The copy loop: the buffer, the index and the length of the history.\<close>

function feed_loop :: "nat \<Rightarrow> byte list \<Rightarrow> nat \<Rightarrow> nat \<Rightarrow> byte list \<Rightarrow> (byte list \<times> nat \<times> nat) option" where
  "feed_loop sz buf idx histlen p =
     (if p = [] then Some (buf, idx, histlen)
      else
        let thislen = sz - idx; thislen = (if thislen > length p then length p else thislen)
        in if thislen = 0 then None
           else do { buf \<leftarrow> wr buf idx (take thislen p);
                     let idx = idx + thislen;
                     let idx = (if idx = sz then 0 else idx);
                     feed_loop sz buf idx (histlen + thislen) (drop thislen p) })"
  by pat_completeness auto
termination by (relation "measure (\<lambda>(sz, buf, idx, histlen, p). length p)") (auto split: if_splits)

declare feed_loop.simps [simp del]

definition feedReplicationBacklog :: "byte list \<Rightarrow> repl \<Rightarrow> repl option" where
  "feedReplicationBacklog p r =
     do { let offset = rp_master_repl_offset r + int (length p);
          buf \<leftarrow> rp_backlog r;
          (buf, idx, histlen) \<leftarrow> feed_loop (rp_backlog_size r) buf (rp_backlog_idx r) (rp_backlog_histlen r) p;
          let histlen = (if histlen > rp_backlog_size r then rp_backlog_size r else histlen);
          Some (r\<lparr>rp_backlog := Some buf, rp_backlog_idx := idx, rp_backlog_histlen := histlen, rp_master_repl_offset := offset,
            rp_backlog_off := offset - int histlen + 1\<rparr>) }"

text \<open>String objects: a string, or an integer that is stored in the pointer.\<close>

datatype robj = Sds_obj "byte list" | Int_obj int

definition feedReplicationBacklogWithObject :: "(nat \<Rightarrow> byte) \<Rightarrow> robj \<Rightarrow> repl \<Rightarrow> repl option" where
  "feedReplicationBacklogWithObject junk ob r =
     (case ob of
       Int_obj v \<Rightarrow> do { (llstr, len) \<leftarrow> ll2string (map junk [0..<21]) v; feedReplicationBacklog (take len llstr) r }
     | Sds_obj t \<Rightarrow> feedReplicationBacklog t r)"

definition stringObjectLen :: "robj \<Rightarrow> nat" where
  "stringObjectLen ob = (case ob of Sds_obj t \<Rightarrow> length t | Int_obj v \<Rightarrow> sdigits10 v)"

subsection \<open>Replies to replicas\<close>

abbreviation (input) OBJ_SHARED_BULKHDR_LEN :: int where "OBJ_SHARED_BULKHDR_LEN \<equiv> 32"
abbreviation (input) PROTO_SHARED_SELECT_CMDS :: int where "PROTO_SHARED_SELECT_CMDS \<equiv> 10"

text \<open>A header line built in a buffer of \<open>n\<close> bytes: the prefix, the number and the end of the line.\<close>

definition header_line :: "(nat \<Rightarrow> byte) \<Rightarrow> nat \<Rightarrow> byte \<Rightarrow> int \<Rightarrow> byte list option" where
  "header_line junk n prefix ll =
     do { (b, len) \<leftarrow> ll2string (map junk [1..<n]) ll;
          let buf = prefix # b;
          if len + 2 < length buf then Some (take (len + 3) (buf[len + 1 := 13, len + 2 := 10])) else None }"

text \<open>The objects \<^verbatim>\<open>shared.mbulkhdr\<close>, \<^verbatim>\<open>shared.bulkhdr\<close> and \<^verbatim>\<open>shared.select\<close>, with the decimal numbers that \<^verbatim>\<open>printf\<close> writes.\<close>

definition shared_header :: "byte \<Rightarrow> int \<Rightarrow> byte list" where
  "shared_header prefix j = prefix # int_dec j @ [13, 10]"

definition select_command :: "(nat \<Rightarrow> byte) \<Rightarrow> nat \<Rightarrow> int \<Rightarrow> byte list option" where
  "select_command junk n dictid =
     do { (llstr, dictid_len) \<leftarrow> ll2string (map junk [0..<n]) dictid;
          Some (bytes ''*2'' @ [13, 10] @ bytes ''$6'' @ [13, 10] @ bytes ''SELECT'' @ [13, 10] @ bytes ''$'' @ int_dec (int dictid_len) @ [13, 10] @
            cstr llstr @ [13, 10]) }"

definition addReplyLongLongWithPrefix :: "(nat \<Rightarrow> byte) \<Rightarrow> slave \<Rightarrow> int \<Rightarrow> byte \<Rightarrow> slave option" where
  "addReplyLongLongWithPrefix junk sl ll prefix =
     (if (prefix = 42 \<or> prefix = 36) \<and> ll < OBJ_SHARED_BULKHDR_LEN \<and> ll \<ge> 0 then
        Some (sl\<lparr>sl_out := sl_out sl @ shared_header prefix ll\<rparr>)
      else do { t \<leftarrow> header_line junk 128 prefix ll; Some (sl\<lparr>sl_out := sl_out sl @ t\<rparr>) })"

definition addReplyMultiBulkLen :: "(nat \<Rightarrow> byte) \<Rightarrow> slave \<Rightarrow> int \<Rightarrow> slave option" where
  "addReplyMultiBulkLen junk sl len =
     (if len < OBJ_SHARED_BULKHDR_LEN then if len < 0 then None else Some (sl\<lparr>sl_out := sl_out sl @ shared_header 42 len\<rparr>)
      else addReplyLongLongWithPrefix junk sl len 42)"

text \<open>The number of decimal digits of an integer object. The division of C truncates; a number is not negative here.\<close>

fun digits_loop :: "nat \<Rightarrow> nat \<Rightarrow> nat" where
  "digits_loop len n = (let n = n div 10 in if n \<noteq> 0 then digits_loop (len + 1) n else len)"

declare digits_loop.simps [simp del]

definition bulk_len :: "robj \<Rightarrow> nat option" where
  "bulk_len ob =
     (case ob of
       Sds_obj t \<Rightarrow> Some (length t)
     | Int_obj n \<Rightarrow> if n = INT64_MIN then None else Some (digits_loop (if n < 0 then 2 else 1) (nat \<bar>n\<bar>)))"

definition addReplyBulkLen :: "(nat \<Rightarrow> byte) \<Rightarrow> slave \<Rightarrow> robj \<Rightarrow> slave option" where
  "addReplyBulkLen junk sl ob =
     do { len \<leftarrow> bulk_len ob;
          if int len < OBJ_SHARED_BULKHDR_LEN then Some (sl\<lparr>sl_out := sl_out sl @ shared_header 36 (int len)\<rparr>)
          else addReplyLongLongWithPrefix junk sl (int len) 36 }"

text \<open>\<^verbatim>\<open>addReply\<close> of a string object; the text of an integer is made in a buffer of 32 bytes.\<close>

definition addReply_obj :: "(nat \<Rightarrow> byte) \<Rightarrow> slave \<Rightarrow> robj \<Rightarrow> slave option" where
  "addReply_obj junk sl ob =
     (case ob of
       Sds_obj t \<Rightarrow> Some (sl\<lparr>sl_out := sl_out sl @ t\<rparr>)
     | Int_obj v \<Rightarrow> do { (b, len) \<leftarrow> ll2string (map junk [0..<32]) v; Some (sl\<lparr>sl_out := sl_out sl @ take len b\<rparr>) })"

definition addReplyBulk :: "(nat \<Rightarrow> byte) \<Rightarrow> slave \<Rightarrow> robj \<Rightarrow> slave option" where
  "addReplyBulk junk sl ob =
     do { sl \<leftarrow> addReplyBulkLen junk sl ob; sl \<leftarrow> addReply_obj junk sl ob; Some (sl\<lparr>sl_out := sl_out sl @ [13, 10]\<rparr>) }"

subsection \<open>Feeding the replicas\<close>

primrec each_slave :: "(slave \<Rightarrow> slave option) \<Rightarrow> slave list \<Rightarrow> slave list option" where
  "each_slave f [] = Some []"
| "each_slave f (sl # sls) =
     do { sl \<leftarrow> (if sl_replstate sl = SLAVE_STATE_WAIT_BGSAVE_START then Some sl else f sl); sls \<leftarrow> each_slave f sls; Some (sl # sls) }"

primrec feed_args :: "(nat \<Rightarrow> byte) \<Rightarrow> robj list \<Rightarrow> repl \<Rightarrow> repl option" where
  "feed_args junk [] r = Some r"
| "feed_args junk (ob # obs) r =
     do { aux \<leftarrow> header_line junk 24 36 (int (stringObjectLen ob));
          r \<leftarrow> feedReplicationBacklog aux r;
          r \<leftarrow> feedReplicationBacklogWithObject junk ob r;
          r \<leftarrow> feedReplicationBacklog [13, 10] r;
          feed_args junk obs r }"

primrec reply_args :: "(nat \<Rightarrow> byte) \<Rightarrow> robj list \<Rightarrow> slave \<Rightarrow> slave option" where
  "reply_args junk [] sl = Some sl"
| "reply_args junk (ob # obs) sl = do { sl \<leftarrow> addReplyBulk junk sl ob; reply_args junk obs sl }"

definition feed_select :: "(nat \<Rightarrow> byte) \<Rightarrow> int \<Rightarrow> repl \<Rightarrow> repl option" where
  "feed_select junk dictid r =
     (if rp_slaveseldb r \<noteq> dictid then
        do { selectcmd \<leftarrow> select_command junk (if dictid \<ge> 0 \<and> dictid < PROTO_SHARED_SELECT_CMDS then 64 else 21) dictid;
             r \<leftarrow> (if rp_backlog r \<noteq> None then feedReplicationBacklogWithObject junk (Sds_obj selectcmd) r else Some r);
             sls \<leftarrow> each_slave (\<lambda>sl. addReply_obj junk sl (Sds_obj selectcmd)) (rp_slaves r);
             Some (r\<lparr>rp_slaves := sls\<rparr>) }
      else Some r)"

definition replicationFeedSlaves :: "(nat \<Rightarrow> byte) \<Rightarrow> int \<Rightarrow> robj list \<Rightarrow> repl \<Rightarrow> repl option" where
  "replicationFeedSlaves junk dictid argv r =
     (if rp_masterhost r then Some r
      else if rp_backlog r = None \<and> rp_slaves r = [] then Some r
      else if rp_slaves r \<noteq> [] \<and> rp_backlog r = None then None
      else
        do { r \<leftarrow> feed_select junk dictid r;
             let r = r\<lparr>rp_slaveseldb := dictid\<rparr>;
             r \<leftarrow> (if rp_backlog r \<noteq> None then
                      do { aux \<leftarrow> header_line junk 24 42 (int (length argv));
                           r \<leftarrow> feedReplicationBacklog aux r;
                           feed_args junk argv r }
                    else Some r);
             sls \<leftarrow> each_slave (\<lambda>sl. do { sl \<leftarrow> addReplyMultiBulkLen junk sl (int (length argv)); reply_args junk argv sl }) (rp_slaves r);
             Some (r\<lparr>rp_slaves := sls\<rparr>) })"

definition replicationFeedSlavesFromMasterStream :: "byte list \<Rightarrow> repl \<Rightarrow> repl option" where
  "replicationFeedSlavesFromMasterStream buf r =
     do { r \<leftarrow> (if rp_backlog r \<noteq> None then feedReplicationBacklog buf r else Some r);
          sls \<leftarrow> each_slave (\<lambda>sl. Some (sl\<lparr>sl_out := sl_out sl @ buf\<rparr>)) (rp_slaves r);
          Some (r\<lparr>rp_slaves := sls\<rparr>) }"

subsection \<open>Resynchronisation\<close>

function reply_loop :: "nat \<Rightarrow> byte list \<Rightarrow> nat \<Rightarrow> nat \<Rightarrow> byte list option" where
  "reply_loop sz buf j len =
     (if len = 0 then Some []
      else
        let thislen = (if sz - j < len then sz - j else len)
        in if thislen = 0 then None
           else do { bs \<leftarrow> rd buf j thislen; rest \<leftarrow> reply_loop sz buf 0 (len - thislen); Some (bs @ rest) })"
  by pat_completeness auto
termination by (relation "measure (\<lambda>(sz, buf, j, len). len)") (auto split: if_splits)

declare reply_loop.simps [simp del]

text \<open>The caller has checked that the offset is covered by the backlog.\<close>

definition addReplyReplicationBacklog :: "slave \<Rightarrow> int \<Rightarrow> repl \<Rightarrow> (int \<times> slave) option" where
  "addReplyReplicationBacklog sl offset r =
     (if rp_backlog_histlen r = 0 then Some (0, sl)
      else
        let skip = offset - rp_backlog_off r
        in if skip < 0 \<or> skip > int (rp_backlog_histlen r) then None
           else do { buf \<leftarrow> rp_backlog r;
                     let j = (rp_backlog_idx r + (rp_backlog_size r - rp_backlog_histlen r)) mod rp_backlog_size r;
                     let j = (j + nat skip) mod rp_backlog_size r;
                     let len = rp_backlog_histlen r - nat skip;
                     bs \<leftarrow> reply_loop (rp_backlog_size r) buf j len;
                     Some (int (rp_backlog_histlen r) - skip, sl\<lparr>sl_out := sl_out sl @ bs\<rparr>) })"

definition getPsyncInitialOffset :: "repl \<Rightarrow> int" where
  "getPsyncInitialOffset r = rp_master_repl_offset r"

text \<open>\<open>written\<close> tells whether \<^verbatim>\<open>write\<close> put the whole reply on the socket. A replica that used SYNC gets no reply.\<close>

definition replicationSetupSlaveForFullResync :: "bool \<Rightarrow> int \<Rightarrow> slave \<Rightarrow> repl \<Rightarrow> slave \<times> repl" where
  "replicationSetupSlaveForFullResync written offset sl r =
     (let sl = sl\<lparr>sl_psync_initial_offset := offset, sl_replstate := SLAVE_STATE_WAIT_BGSAVE_END, sl_from := offset + 1\<rparr>;
          r = r\<lparr>rp_slaveseldb := - 1\<rparr>
      in if sl_pre_psync sl then (sl, r)
         else if \<not> written then (sl\<lparr>sl_close_asap := True\<rparr>, r)
         else (sl\<lparr>sl_wire := sl_wire sl @ bytes ''+FULLRESYNC '' @ cstr (rp_replid r) @ bytes '' '' @ int_dec offset @ [13, 10]\<rparr>, r))"

text \<open>
  The id and the offset that the replica sends are arguments. The result is \<open>False\<close> when a full resynchronisation is needed; an offset that is
  not a number leaves the error reply of \<^verbatim>\<open>getLongLongFromObjectOrReply\<close> in the output of the client.
\<close>

definition error_text :: "string \<Rightarrow> byte list" where
  "error_text msg = bytes ''-ERR '' @ bytes msg @ [13, 10]"

definition masterTryPartialResynchronization :: "bool \<Rightarrow> slave \<Rightarrow> byte list \<Rightarrow> byte list \<Rightarrow> repl \<Rightarrow> (bool \<times> slave \<times> repl) option" where
  "masterTryPartialResynchronization written sl master_replid offset_arg r =
     (case string2ll offset_arg of
       None \<Rightarrow> Some (False, sl\<lparr>sl_out := sl_out sl @ error_text ''value is not an integer or out of range''\<rparr>, r)
     | Some psync_offset \<Rightarrow>
         if \<not> strcaseeq (cstr master_replid) (cstr (rp_replid r)) \<and>
            (\<not> strcaseeq (cstr master_replid) (cstr (rp_replid2 r)) \<or> psync_offset > rp_second_replid_offset r) then Some (False, sl, r)
         else if rp_backlog r = None \<or> psync_offset < rp_backlog_off r \<or> psync_offset > rp_backlog_off r + int (rp_backlog_histlen r) then Some (False, sl, r)
         else
           let sl = sl\<lparr>sl_is_slave := True, sl_replstate := SLAVE_STATE_ONLINE, sl_from := psync_offset\<rparr>;
               reply = (if SLAVE_CAPA_PSYNC2 \<in> sl_capa sl then bytes ''+CONTINUE '' @ cstr (rp_replid r) @ [13, 10] else bytes ''+CONTINUE'' @ [13, 10])
           in if \<not> written then
                let sl = sl\<lparr>sl_close_asap := True\<rparr> in Some (True, sl, r\<lparr>rp_slaves := rp_slaves r @ [sl]\<rparr>)
              else do { (psync_len, sl) \<leftarrow> addReplyReplicationBacklog (sl\<lparr>sl_wire := sl_wire sl @ reply\<rparr>) psync_offset r;
                        Some (True, sl, r\<lparr>rp_slaves := rp_slaves r @ [sl]\<rparr>) })"

end
