(* ===== verification/Replication_Ring.thy ===== *)
theory Replication_Ring
  imports Replication
begin

text \<open>
  The backlog as a ring: read from the write position, the buffer is the sequence of the last bytes, the oldest first.
\<close>

definition ring :: "byte list \<Rightarrow> nat \<Rightarrow> byte list" where
  "ring buf idx = rotate idx buf"

lemma length_ring [simp]: "length (ring buf idx) = length buf"
  by (simp add: ring_def)

lemma ring_split: "idx < length buf \<Longrightarrow> ring buf idx = drop idx buf @ take idx buf"
  by (simp add: ring_def rotate_drop_take)

lemma ring_mod: "ring buf (n mod length buf) = ring buf n"
  by (simp add: ring_def rotate_conv_mod [symmetric])

lemma ring_add: "ring buf (m + n) = rotate n (ring buf m)"
  by (simp add: ring_def rotate_rotate add.commute)

lemma ring_write:
  assumes "idx < length buf" and "idx + length c \<le> length buf" and "buf' = take idx buf @ c @ drop (idx + length c) buf"
  shows "ring buf' (if idx + length c = length buf then 0 else idx + length c) = drop (length c) (ring buf idx @ c)"
proof -
  have l: "length buf' = length buf" using assms(2,3) by simp
  have r: "drop (length c) (ring buf idx @ c) = drop (idx + length c) buf @ take idx buf @ c"
    using assms(1,2) by (simp add: ring_split add.commute)
  show ?thesis
  proof (cases "idx + length c = length buf")
    case True
    then show ?thesis using r assms(3) by (simp add: ring_def)
  next
    case False
    then have "idx + length c < length buf'" using assms(2) l by simp
    then show ?thesis using False r assms by (simp add: ring_split l)
  qed
qed

lemma drop_append_drop: "length c \<le> length xs \<Longrightarrow> drop (length q) (drop (length c) (xs @ c) @ q) = drop (length (c @ q)) (xs @ c @ q)"
  by (simp add: add.commute)

lemma feed_loop_ring:
  assumes "length buf = sz" and "idx < sz"
  shows "\<exists>buf' idx'. feed_loop sz buf idx histlen p = Some (buf', idx', histlen + length p) \<and> length buf' = sz \<and> idx' < sz \<and>
    ring buf' idx' = drop (length p) (ring buf idx @ p)"
  using assms
proof (induction sz buf idx histlen p rule: feed_loop.induct)
  case (1 sz buf idx histlen p)
  define n where "n = (if sz - idx > length p then length p else sz - idx)"
  define idx1 where "idx1 = (if idx + n = sz then 0 else idx + n)"
  define c where "c = take n p"
  define buf1 where "buf1 = take idx buf @ c @ drop (idx + n) buf"
  show ?case
  proof (cases "p = []")
    case True
    then show ?thesis using 1(2,3) by (subst feed_loop.simps) simp
  next
    case False
    have n: "n \<noteq> 0" "n \<le> length p" "idx + n \<le> sz" "length c = n" using False 1(3) by (auto simp: n_def c_def)
    have w: "wr buf idx (take n p) = Some buf1" using n 1(2) by (simp add: wr_def buf1_def c_def)
    have step: "feed_loop sz buf idx histlen p = feed_loop sz buf1 idx1 (histlen + n) (drop n p)"
      using False n w by (subst feed_loop.simps) (simp add: n_def [symmetric] idx1_def [symmetric] Let_def)
    have l1: "length buf1 = sz" "idx1 < sz" using n 1(2,3) by (simp_all add: buf1_def idx1_def)
    have "ring buf1 (if idx + length c = length buf then 0 else idx + length c) = drop (length c) (ring buf idx @ c)"
      using n 1(2,3) by (intro ring_write) (simp_all add: buf1_def)
    then have r1: "ring buf1 idx1 = drop n (ring buf idx @ c)" by (simp only: n(4) 1(2) idx1_def)
    obtain buf' idx' where ih: "feed_loop sz buf1 idx1 (histlen + n) (drop n p) = Some (buf', idx', histlen + n + length (drop n p))" "length buf' = sz" "idx' < sz"
        "ring buf' idx' = drop (length (drop n p)) (ring buf1 idx1 @ drop n p)"
      using 1(1) [OF False refl, of n buf1 "idx + n" idx1] n w l1 by (auto simp: n_def [symmetric] idx1_def [symmetric] Let_def)
    have "drop (length p - n) (drop n (ring buf idx @ c) @ drop n p) = drop (length p) (ring buf idx @ p)"
      using drop_append_drop [of c "ring buf idx" "drop n p"] n 1(2,3) by (simp add: c_def)
    then show ?thesis using step ih r1 n(2) by simp
  qed
qed

lemma reply_loop_straight:
  assumes "length buf = sz" and "j + len \<le> sz"
  shows "reply_loop sz buf j len = Some (take len (drop j buf))"
proof (cases "len = 0")
  case False
  then have "\<not> sz - j < len" using assms(2) by linarith
  then show ?thesis using False assms by (subst reply_loop.simps, subst reply_loop.simps) (simp add: rd_def)
qed (simp add: reply_loop.simps)

lemma reply_loop_ring:
  assumes "length buf = sz" and "j < sz" and "len \<le> sz"
  shows "reply_loop sz buf j len = Some (take len (ring buf j))"
proof (cases "j + len \<le> sz")
  case True
  then show ?thesis using assms reply_loop_straight [OF assms(1) True] by (simp add: ring_split)
next
  case False
  then have less: "sz - j < len" using assms(2) by linarith
  have second: "reply_loop sz buf 0 (len - (sz - j)) = Some (take (len - (sz - j)) buf)"
    using reply_loop_straight [OF assms(1), of 0 "len - (sz - j)"] assms False by simp
  have "reply_loop sz buf j len = do { bs \<leftarrow> rd buf j (sz - j); rest \<leftarrow> reply_loop sz buf 0 (len - (sz - j)); Some (bs @ rest) }"
    using assms False less by (subst reply_loop.simps) simp
  moreover have "take len (ring buf j) = drop j buf @ take (len - (sz - j)) buf" 
  proof -
    have "take len (ring buf j) = drop j buf @ take (len - (sz - j)) (take j buf)" using assms less by (simp add: ring_split)
    moreover have "len - (sz - j) \<le> j" using assms(2,3) by linarith
    ultimately show ?thesis by (simp add: min_absorb1)
  qed
  ultimately show ?thesis using assms second by (simp add: rd_def)
qed

end
