(* ===== verification/Replication_Spec.thy ===== *)
theory Replication_Spec
  imports Replication_Ring Aof_Spec
begin

text \<open>
  The replication stream as one growing list of bytes: the backlog holds its end, every attached replica has been sent exactly the part from
  the offset that it asked for.
\<close>

subsection \<open>The backlog holds the end of the stream\<close>

text \<open>\<open>hist\<close> is the stream since the offset \<open>base\<close>.\<close>

definition last_n :: "nat \<Rightarrow> 'a list \<Rightarrow> 'a list" where
  "last_n n xs = drop (length xs - n) xs"

lemma last_n_append: "n \<le> length xs \<Longrightarrow> last_n (n + length p) (xs @ p) = last_n n xs @ p"
  by (simp add: last_n_def)

lemma last_n_less: "m \<le> n \<Longrightarrow> n \<le> length xs \<Longrightarrow> last_n m (last_n n xs) = last_n m xs"
  by (simp add: last_n_def)

lemma length_last_n: "length (last_n n xs) = min n (length xs)"
  by (simp add: last_n_def min_def)

definition backlog_ok :: "int \<Rightarrow> byte list \<Rightarrow> repl \<Rightarrow> bool" where
  "backlog_ok base hist r \<longleftrightarrow>
     (case rp_backlog r of
       None \<Rightarrow> False
     | Some buf \<Rightarrow>
         length buf = rp_backlog_size r \<and> rp_backlog_idx r < rp_backlog_size r \<and> rp_backlog_histlen r \<le> rp_backlog_size r \<and>
         rp_backlog_histlen r \<le> length hist \<and> rp_master_repl_offset r = base + int (length hist) \<and>
         rp_backlog_off r = rp_master_repl_offset r - int (rp_backlog_histlen r) + 1 \<and>
         last_n (rp_backlog_histlen r) (ring buf (rp_backlog_idx r)) = last_n (rp_backlog_histlen r) hist)"

lemma feedReplicationBacklog_ok:
  assumes "backlog_ok base hist r"
  shows "\<exists>r'. feedReplicationBacklog p r = Some r' \<and> backlog_ok base (hist @ p) r' \<and> rp_slaves r' = rp_slaves r \<and> rp_slaveseldb r' = rp_slaveseldb r \<and>
    rp_masterhost r' = rp_masterhost r \<and> rp_backlog_size r' = rp_backlog_size r"
proof -
  obtain buf where b: "rp_backlog r = Some buf" using assms by (auto simp: backlog_ok_def split: option.splits)
  let ?sz = "rp_backlog_size r" and ?h = "rp_backlog_histlen r"
  have ok: "length buf = ?sz" "rp_backlog_idx r < ?sz" "?h \<le> ?sz" "?h \<le> length hist" "rp_master_repl_offset r = base + int (length hist)"
      "last_n ?h (ring buf (rp_backlog_idx r)) = last_n ?h hist"
    using assms b by (simp_all add: backlog_ok_def)
  obtain buf' idx' where f: "feed_loop ?sz buf (rp_backlog_idx r) ?h p = Some (buf', idx', ?h + length p)" "length buf' = ?sz" "idx' < ?sz"
      "ring buf' idx' = drop (length p) (ring buf (rp_backlog_idx r) @ p)"
    using feed_loop_ring [OF ok(1,2), of ?h p] by blast
  define h' where "h' = (if ?sz < ?h + length p then ?sz else ?h + length p)"
  have h': "h' \<le> ?sz" "h' \<le> ?h + length p" by (simp_all add: h'_def)
  have "last_n (?h + length p) (ring buf (rp_backlog_idx r) @ p) = last_n (?h + length p) (hist @ p)"
    using last_n_append [of ?h "ring buf (rp_backlog_idx r)" p] last_n_append [of ?h hist p] ok by simp
  then have "last_n h' (ring buf (rp_backlog_idx r) @ p) = last_n h' (hist @ p)"
    using last_n_less [of h' "?h + length p"] h'(2) ok(1,3,4) by (metis length_append length_ring add_le_mono1)
  moreover have "last_n h' (ring buf' idx') = last_n h' (ring buf (rp_backlog_idx r) @ p)"
    unfolding f(4) using last_n_less [of h' ?sz "ring buf (rp_backlog_idx r) @ p"] h'(1) ok(1) by (simp add: last_n_def)
  ultimately have "last_n h' (ring buf' idx') = last_n h' (hist @ p)" by simp
  then show ?thesis using b f ok h' unfolding feedReplicationBacklog_def by (simp add: backlog_ok_def h'_def [symmetric] Let_def)
qed

lemma addReplyReplicationBacklog_ok:
  assumes "backlog_ok base hist r" and "rp_backlog_off r \<le> offset" and "offset \<le> rp_backlog_off r + int (rp_backlog_histlen r)"
  shows "addReplyReplicationBacklog sl offset r =
    Some (rp_master_repl_offset r - offset + 1, sl\<lparr>sl_out := sl_out sl @ drop (nat (offset - base - 1)) hist\<rparr>)"
proof -
  obtain buf where b: "rp_backlog r = Some buf" using assms(1) by (auto simp: backlog_ok_def split: option.splits)
  let ?sz = "rp_backlog_size r" and ?h = "rp_backlog_histlen r" and ?idx = "rp_backlog_idx r"
  have ok: "length buf = ?sz" "?idx < ?sz" "?h \<le> ?sz" "?h \<le> length hist" "rp_master_repl_offset r = base + int (length hist)"
      "rp_backlog_off r = rp_master_repl_offset r - int ?h + 1" "last_n ?h (ring buf ?idx) = last_n ?h hist"
    using assms(1) b by (simp_all add: backlog_ok_def)
  define skip where "skip = nat (offset - rp_backlog_off r)"
  have skip: "offset = rp_backlog_off r + int skip" "skip \<le> ?h" using assms(2,3) by (simp_all add: skip_def)
  have n: "nat (offset - base - 1) = length hist - ?h + skip" using skip ok(4-6) by simp
  show ?thesis
  proof (cases "?h = 0")
    case True
    then show ?thesis using n skip ok(4-6) by (cases sl) (simp add: addReplyReplicationBacklog_def)
  next
    case False
    define j where "j = ((?idx + (?sz - ?h)) mod ?sz + skip) mod ?sz"
    have j: "j = (?idx + (?sz - ?h + skip)) mod ?sz" "j < ?sz" using ok(2) by (simp_all add: j_def mod_add_left_eq add.assoc)
    have "ring buf j = rotate (?sz - ?h + skip) (ring buf ?idx)"
      unfolding j(1) using ring_mod [of buf "?idx + (?sz - ?h + skip)"] ok(1) by (simp add: ring_add)
    moreover have "rotate (?sz - ?h + skip) (ring buf ?idx) = drop (?sz - ?h + skip) (ring buf ?idx) @ take (?sz - ?h + skip) (ring buf ?idx)"
      using ok(1-3) skip(2) by (cases "skip = ?h") (simp_all add: rotate_drop_take)
    ultimately have "take (?h - skip) (ring buf j) = drop (?sz - ?h + skip) (ring buf ?idx)" using ok(1,3) skip(2) by simp
    also have "\<dots> = drop skip (last_n ?h (ring buf ?idx))" using ok(1) by (simp add: last_n_def add.commute)
    also have "\<dots> = drop (nat (offset - base - 1)) hist" unfolding ok(7) n by (simp add: last_n_def add.commute)
    finally have "reply_loop ?sz buf j (?h - skip) = Some (drop (nat (offset - base - 1)) hist)"
      using reply_loop_ring [OF ok(1) j(2), of "?h - skip"] ok(3) by simp
    then show ?thesis
      using False b skip ok(6) by (simp add: addReplyReplicationBacklog_def Let_def j_def [symmetric])
  qed
qed

subsection \<open>What the replicas are sent\<close>

definition obj_text :: "robj \<Rightarrow> byte list" where
  "obj_text ob = (case ob of Sds_obj t \<Rightarrow> t | Int_obj v \<Rightarrow> int_dec v)"

text \<open>The smallest integer is left out: \<^verbatim>\<open>tryObjectEncoding\<close> does store it in a pointer, but \<^verbatim>\<open>addReplyBulkLen\<close> negates it, which overflows.\<close>

definition obj_ok :: "robj \<Rightarrow> bool" where
  "obj_ok ob \<longleftrightarrow> is_int64 (int (length (obj_text ob))) \<and> (case ob of Sds_obj t \<Rightarrow> True | Int_obj v \<Rightarrow> is_int64 v \<and> v \<noteq> INT64_MIN)"

lemma header_line_eq:
  assumes "is_int64 v" and "24 \<le> n"
  shows "header_line junk n tag v = Some (tag # int_dec v @ [13, 10])"
proof -
  let ?d = "int_dec v"
  have l: "length ?d \<le> 20" by (rule length_int_dec [OF assms(1)])
  have ll: "ll2string (map junk [1..<n]) v = Some (?d @ 0 # drop (length ?d + 1) (map junk [1..<n]), length ?d)"
    using l assms(2) by (intro ll2string_fits [OF assms(1)]) simp
  obtain x y zs where xs: "0 # drop (length ?d + 1) (map junk [1..<n]) = x # y # zs"
    using l assms(2) by (cases "drop (length ?d + 1) (map junk [1..<n])") auto
  have "(tag # ?d @ x # y # zs)[length ?d + 1 := 13, length ?d + 2 := 10] = tag # ?d @ 13 # 10 # zs"
    by (simp add: list_update_append)
  then show ?thesis using ll unfolding header_line_def xs by (simp add: numeral_3_eq_3)
qed

lemma digits_loop_eq: "digits_loop len n = len + length (nat_dec n) - 1"
proof (induction len n rule: digits_loop.induct)
  case (1 len n)
  show ?case
  proof (cases "n < 10")
    case True
    then show ?thesis by (subst digits_loop.simps) (simp add: nat_dec_small)
  next
    case False
    then have nz: "n div 10 \<noteq> 0" by (simp add: div_eq_0_iff)
    then have "digits_loop len n = digits_loop (len + 1) (n div 10)" by (subst digits_loop.simps) (simp add: Let_def)
    moreover have "length (nat_dec n) = length (nat_dec (n div 10)) + 1" using False nat_dec_step [of n] by simp
    moreover have "0 < length (nat_dec (n div 10))" by simp
    ultimately show ?thesis using 1 [OF refl nz] by simp
  qed
qed

lemma bulk_len_eq: "obj_ok ob \<Longrightarrow> bulk_len ob = Some (length (obj_text ob))"
  by (auto simp: bulk_len_def obj_ok_def obj_text_def digits_loop_eq int_dec_def split: robj.splits)

lemma stringObjectLen_eq: "obj_ok ob \<Longrightarrow> stringObjectLen ob = length (obj_text ob)"
  by (auto simp: stringObjectLen_def obj_ok_def obj_text_def sdigits10_dec split: robj.splits)

lemma ll2string_text:
  assumes "is_int64 v" and "21 \<le> n"
  shows "\<exists>b. ll2string (map junk [0..<n]) v = Some (b, length (int_dec v)) \<and> take (length (int_dec v)) b = int_dec v \<and> cstr b = int_dec v"
proof -
  let ?d = "int_dec v"
  have l: "length ?d \<le> 20" by (rule length_int_dec [OF assms(1)])
  have "list_all isdigit (nat_dec (nat \<bar>v\<bar>))" using nat_dec_parse by blast
  moreover have "\<not> isdigit 0" by (simp add: isdigit_def)
  ultimately have "\<forall>b\<in>set ?d. b \<noteq> 0" by (auto simp: int_dec_def list_all_iff)
  then have "cstr (?d @ 0 # xs) = ?d" for xs by (simp add: cstr_def takeWhile_append2)
  then show ?thesis using ll2string_fits [OF assms(1), of "map junk [0..<n]"] l assms(2) by simp
qed

text \<open>A step that feeds the backlog with \<open>p\<close> and leaves the rest alone.\<close>

definition feeds :: "(repl \<Rightarrow> repl option) \<Rightarrow> byte list \<Rightarrow> bool" where
  "feeds F p \<longleftrightarrow> (\<forall>base hist r. backlog_ok base hist r \<longrightarrow>
     (\<exists>r'. F r = Some r' \<and> backlog_ok base (hist @ p) r' \<and> rp_slaves r' = rp_slaves r \<and> rp_slaveseldb r' = rp_slaveseldb r \<and> rp_masterhost r' = rp_masterhost r))"

lemma feedsD:
  assumes "feeds F p" and "backlog_ok base hist r"
  obtains r' where "F r = Some r'" "backlog_ok base (hist @ p) r'" "rp_slaves r' = rp_slaves r" "rp_slaveseldb r' = rp_slaveseldb r" "rp_masterhost r' = rp_masterhost r"
  using assms unfolding feeds_def by blast

lemma feeds_backlog: "feeds (feedReplicationBacklog p) p"
  unfolding feeds_def using feedReplicationBacklog_ok by blast

lemma feeds_none: "feeds Some []"
  by (simp add: feeds_def)

lemma feeds_seq:
  assumes "feeds F p" and "feeds G q"
  shows "feeds (\<lambda>r. do { r \<leftarrow> F r; G r }) (p @ q)"
  unfolding feeds_def
proof (intro allI impI)
  fix base hist r
  assume "backlog_ok base hist r"
  then obtain r1 where r1: "F r = Some r1" "backlog_ok base (hist @ p) r1" "rp_slaves r1 = rp_slaves r" "rp_slaveseldb r1 = rp_slaveseldb r"
      "rp_masterhost r1 = rp_masterhost r" using feedsD [OF assms(1)] by blast
  obtain r2 where "G r1 = Some r2" "backlog_ok base ((hist @ p) @ q) r2" "rp_slaves r2 = rp_slaves r1" "rp_slaveseldb r2 = rp_slaveseldb r1"
      "rp_masterhost r2 = rp_masterhost r1" using feedsD [OF assms(2) r1(2)] by blast
  then show "\<exists>r'. do { r \<leftarrow> F r; G r } = Some r' \<and> backlog_ok base (hist @ p @ q) r' \<and> rp_slaves r' = rp_slaves r \<and> rp_slaveseldb r' = rp_slaveseldb r \<and>
      rp_masterhost r' = rp_masterhost r" using r1 by simp
qed

lemma feeds_object:
  assumes "obj_ok ob"
  shows "feeds (feedReplicationBacklogWithObject junk ob) (obj_text ob)"
proof (cases ob)
  case (Sds_obj t)
  then have "feedReplicationBacklogWithObject junk ob = feedReplicationBacklog t" by (simp add: feedReplicationBacklogWithObject_def fun_eq_iff)
  then show ?thesis using feeds_backlog [of t] Sds_obj by (simp add: obj_text_def)
next
  case (Int_obj v)
  then obtain b where "ll2string (map junk [0..<21]) v = Some (b, length (int_dec v))" "take (length (int_dec v)) b = int_dec v"
    using ll2string_text [of v 21 junk] assms by (auto simp: obj_ok_def)
  then have "feedReplicationBacklogWithObject junk ob = feedReplicationBacklog (int_dec v)"
    using Int_obj by (simp add: feedReplicationBacklogWithObject_def fun_eq_iff)
  then show ?thesis using feeds_backlog [of "int_dec v"] Int_obj by (simp add: obj_text_def)
qed

lemma feeds_args: "\<forall>ob\<in>set obs. obj_ok ob \<Longrightarrow> feeds (feed_args junk obs) (enc_args (map obj_text obs))"
proof (induction obs)
  case Nil
  have "feed_args junk [] = Some" by (simp add: fun_eq_iff)
  then show ?case using feeds_none by simp
next
  case (Cons ob obs)
  have ok: "obj_ok ob" using Cons.prems by simp
  let ?h = "count_text 36 (length (obj_text ob)) @ [13, 10]"
  have h: "header_line junk 24 36 (int (stringObjectLen ob)) = Some ?h"
    using header_line_eq [of "int (length (obj_text ob))" 24 junk 36] ok stringObjectLen_eq [OF ok] by (simp add: obj_ok_def count_text_def)
  have "feed_args junk (ob # obs) = (\<lambda>r. do { r \<leftarrow> feedReplicationBacklog ?h r; do { r \<leftarrow> feedReplicationBacklogWithObject junk ob r;
      do { r \<leftarrow> feedReplicationBacklog [13, 10] r; feed_args junk obs r } } })" using h by (simp add: fun_eq_iff)
  moreover have "feeds (\<lambda>r. do { r \<leftarrow> feedReplicationBacklog ?h r; do { r \<leftarrow> feedReplicationBacklogWithObject junk ob r;
      do { r \<leftarrow> feedReplicationBacklog [13, 10] r; feed_args junk obs r } } }) (?h @ obj_text ob @ [13, 10] @ enc_args (map obj_text obs))"
    using Cons by (intro feeds_seq feeds_backlog feeds_object) simp_all
  ultimately show ?case by (simp add: enc_arg_def)
qed

subsection \<open>Output buffers\<close>

definition sent :: "byte list \<Rightarrow> slave \<Rightarrow> slave" where
  "sent p sl = (if sl_replstate sl = SLAVE_STATE_WAIT_BGSAVE_START then sl else sl\<lparr>sl_out := sl_out sl @ p\<rparr>)"

lemma each_slave_sent: "(\<And>sl. f sl = Some (sl\<lparr>sl_out := sl_out sl @ p\<rparr>)) \<Longrightarrow> each_slave f sls = Some (map (sent p) sls)"
  by (induction sls) (simp_all add: sent_def)

lemma sent_sent: "sent q (sent p sl) = sent (p @ q) sl"
  by (simp add: sent_def)

lemma addReplyLongLongWithPrefix_eq:
  "is_int64 (int n) \<Longrightarrow> addReplyLongLongWithPrefix junk sl (int n) tag = Some (sl\<lparr>sl_out := sl_out sl @ count_text tag n @ [13, 10]\<rparr>)"
  by (simp add: addReplyLongLongWithPrefix_def shared_header_def header_line_eq count_text_def)

lemma addReplyMultiBulkLen_eq:
  "is_int64 (int n) \<Longrightarrow> addReplyMultiBulkLen junk sl (int n) = Some (sl\<lparr>sl_out := sl_out sl @ count_text 42 n @ [13, 10]\<rparr>)"
  by (simp add: addReplyMultiBulkLen_def shared_header_def addReplyLongLongWithPrefix_eq count_text_def)

lemma addReplyBulk_eq:
  assumes "obj_ok ob"
  shows "addReplyBulk junk sl ob = Some (sl\<lparr>sl_out := sl_out sl @ enc_arg (obj_text ob)\<rparr>)"
proof -
  have n: "is_int64 (int (length (obj_text ob)))" using assms by (simp add: obj_ok_def)
  have "addReplyBulkLen junk sl ob = Some (sl\<lparr>sl_out := sl_out sl @ count_text 36 (length (obj_text ob)) @ [13, 10]\<rparr>)"
    using addReplyLongLongWithPrefix_eq [OF n] by (simp add: addReplyBulkLen_def bulk_len_eq [OF assms] shared_header_def count_text_def)
  moreover have "addReply_obj junk sl' ob = Some (sl'\<lparr>sl_out := sl_out sl' @ obj_text ob\<rparr>)" for sl'
  proof (cases ob)
    case (Int_obj v)
    then obtain b where "ll2string (map junk [0..<32]) v = Some (b, length (int_dec v))" "take (length (int_dec v)) b = int_dec v"
      using ll2string_text [of v 32 junk] assms by (auto simp: obj_ok_def)
    then show ?thesis using Int_obj by (simp add: addReply_obj_def obj_text_def)
  qed (simp add: addReply_obj_def obj_text_def)
  ultimately show ?thesis by (simp add: addReplyBulk_def enc_arg_def)
qed

lemma reply_args_eq: "\<forall>ob\<in>set obs. obj_ok ob \<Longrightarrow> reply_args junk obs sl = Some (sl\<lparr>sl_out := sl_out sl @ enc_args (map obj_text obs)\<rparr>)"
  by (induction obs arbitrary: sl) (simp_all add: addReplyBulk_eq)

end
