(* ===== verification/Replication_Sync.thy ===== *)
theory Replication_Sync
  imports Replication
begin

text \<open>
  The handler of SYNC and PSYNC (\<^verbatim>\<open>replication.c\<close>): a replica is continued from the backlog, attached to a background save that is
  running, or made to wait for the next one; and what happens when the background save is done. The script cache is left out.
  \<open>sync_env\<close> holds what lies outside: whether the reply to a replica was written to its socket, the random id of a new history,
  whether a background save to a file could be started, whether the pipe to the child of a save to sockets and the child itself could be created,
  and whether the RDB file could be opened and the handler that sends it be installed for a replica.
\<close>

record sync_env =
  e_written :: "nat \<Rightarrow> bool"
  e_random_id :: "byte list"
  e_bgsave_ok :: "repl \<Rightarrow> bool"
  e_pipe_ok :: "repl \<Rightarrow> bool"
  e_fork_ok :: "repl \<Rightarrow> bool"
  e_send_ready :: "nat \<Rightarrow> bool"

definition changeReplicationId :: "byte list \<Rightarrow> repl \<Rightarrow> repl" where
  "changeReplicationId random_id r = r\<lparr>rp_replid := random_id\<rparr>"

definition clearReplicationId2 :: "repl \<Rightarrow> repl" where
  "clearReplicationId2 r = r\<lparr>rp_replid2 := replicate 40 48, rp_second_replid_offset := - 1\<rparr>"

definition copyClientOutputBuffer :: "slave \<Rightarrow> slave \<Rightarrow> slave" where
  "copyClientOutputBuffer dst src = dst\<lparr>sl_out := sl_out src\<rparr>"

text \<open>The loop over the replicas that wait for the start of the save.\<close>

primrec setup_waiting :: "(nat \<Rightarrow> bool) \<Rightarrow> slave list \<Rightarrow> repl \<Rightarrow> slave list \<times> repl" where
  "setup_waiting written [] r = ([], r)"
| "setup_waiting written (sl # sls) r =
     (let (sl, r) = (if sl_replstate sl = SLAVE_STATE_WAIT_BGSAVE_START
                     then replicationSetupSlaveForFullResync (written (sl_id sl)) (getPsyncInitialOffset r) sl r else (sl, r));
          (sls, r) = setup_waiting written sls r
      in (sl # sls, r))"

text \<open>
  The save to the sockets (\<^verbatim>\<open>rdb.c\<close>), as far as the parent process does it: the waiting replicas are set up before the child is
  created, and if it is not, their state is taken back.
\<close>

definition after_fork :: "sync_env \<Rightarrow> nat list \<Rightarrow> repl \<Rightarrow> bool \<times> repl" where
  "after_fork e clientids r =
     (if \<not> e_fork_ok e r then
        (False, r\<lparr>rp_slaves := map (\<lambda>sl. if sl_id sl \<in> set clientids then sl\<lparr>sl_replstate := SLAVE_STATE_WAIT_BGSAVE_START\<rparr> else sl) (rp_slaves r)\<rparr>)
      else (True, r\<lparr>rp_rdb_child := RDB_CHILD_TYPE_SOCKET\<rparr>))"

definition rdbSaveToSlavesSockets :: "sync_env \<Rightarrow> repl \<Rightarrow> bool \<times> repl" where
  "rdbSaveToSlavesSockets e r =
     (if rp_aof_child r \<or> rp_rdb_child r \<noteq> No_child then (False, r)
      else if \<not> e_pipe_ok e r then (False, r)
      else
        let clientids = map sl_id (filter (\<lambda>sl. sl_replstate sl = SLAVE_STATE_WAIT_BGSAVE_START) (rp_slaves r));
            (sls, r) = setup_waiting (e_written e) (rp_slaves r) r
        in after_fork e clientids (r\<lparr>rp_slaves := sls\<rparr>))"

text \<open>The replicas that are dropped when the save fails get an error and are closed; they are no longer in the list.\<close>

definition startBgsaveForReplication :: "sync_env \<Rightarrow> slave_capa set \<Rightarrow> repl \<Rightarrow> bool \<times> repl" where
  "startBgsaveForReplication e mincapa r =
     (let socket_target = (rp_diskless_sync r \<and> SLAVE_CAPA_EOF \<in> mincapa);
          (retval, r) = (if socket_target then rdbSaveToSlavesSockets e r
                         else if e_bgsave_ok e r then (True, r\<lparr>rp_rdb_child := RDB_CHILD_TYPE_DISK\<rparr>) else (False, r))
      in if \<not> retval then (False, r\<lparr>rp_slaves := filter (\<lambda>sl. sl_replstate sl \<noteq> SLAVE_STATE_WAIT_BGSAVE_START) (rp_slaves r)\<rparr>)
         else if \<not> socket_target then
           let (sls, r) = setup_waiting (e_written e) (rp_slaves r) r in (True, r\<lparr>rp_slaves := sls\<rparr>)
         else (True, r))"

text \<open>The three cases of the full resynchronisation; the replica is the last of the list.\<close>

definition attach_full :: "sync_env \<Rightarrow> slave \<Rightarrow> repl \<Rightarrow> repl" where
  "attach_full e sl r =
     (case rp_rdb_child r of
       RDB_CHILD_TYPE_DISK \<Rightarrow>
         (case find (\<lambda>x. sl_replstate x = SLAVE_STATE_WAIT_BGSAVE_END) (rp_slaves r) of
           Some slave \<Rightarrow>
             if sl_capa slave \<subseteq> sl_capa sl then
               let sl = copyClientOutputBuffer sl slave;
                   (sl, r) = replicationSetupSlaveForFullResync (e_written e (sl_id sl)) (sl_psync_initial_offset slave) sl r
               in r\<lparr>rp_slaves := butlast (rp_slaves r) @ [sl]\<rparr>
             else r
         | None \<Rightarrow> r)
     | RDB_CHILD_TYPE_SOCKET \<Rightarrow> r
     | No_child \<Rightarrow>
         if rp_diskless_sync r \<and> SLAVE_CAPA_EOF \<in> sl_capa sl then r
         else if \<not> rp_aof_child r then snd (startBgsaveForReplication e (sl_capa sl) r) else r)"

definition full_resync :: "sync_env \<Rightarrow> (nat \<Rightarrow> byte) \<Rightarrow> slave \<Rightarrow> repl \<Rightarrow> repl option" where
  "full_resync e junk sl r =
     do { let sl = sl\<lparr>sl_replstate := SLAVE_STATE_WAIT_BGSAVE_START, sl_is_slave := True\<rparr>;
          let r = r\<lparr>rp_slaves := rp_slaves r @ [sl]\<rparr>;
          r \<leftarrow> (if length (rp_slaves r) = 1 \<and> rp_backlog r = None then
                  createReplicationBacklog junk (clearReplicationId2 (changeReplicationId (e_random_id e) r))
                else Some r);
          Some (attach_full e sl r) }"

text \<open>
  The request is \<open>None\<close> for SYNC, and the id and the offset for PSYNC. The client is returned as the handler leaves it where it has not become a
  replica; otherwise it is in the list of the replicas.
\<close>

definition syncCommand :: "sync_env \<Rightarrow> (nat \<Rightarrow> byte) \<Rightarrow> (byte list \<times> byte list) option \<Rightarrow> slave \<Rightarrow> repl \<Rightarrow> (slave \<times> repl) option" where
  "syncCommand e junk req sl r =
     (if sl_is_slave sl then Some (sl, r)
      else if rp_masterhost r \<and> \<not> rp_link_connected r then
        Some (sl\<lparr>sl_out := sl_out sl @ bytes ''-NOMASTERLINK Can'' @ [39] @ bytes ''t SYNC while not connected with my master'' @ [13, 10]\<rparr>, r)
      else if sl_out sl \<noteq> [] then Some (sl\<lparr>sl_out := sl_out sl @ error_text ''SYNC and PSYNC are invalid with pending output''\<rparr>, r)
      else
        case req of
          Some (master_replid, offset_arg) \<Rightarrow>
            do { (continued, sl, r) \<leftarrow> masterTryPartialResynchronization (e_written e (sl_id sl)) sl master_replid offset_arg r;
                 if continued then Some (sl, r) else do { r \<leftarrow> full_resync e junk sl r; Some (sl, r) } }
        | None \<Rightarrow> do { let sl = sl\<lparr>sl_pre_psync := True\<rparr>; r \<leftarrow> full_resync e junk sl r; Some (sl, r) })"

subsection \<open>The end of a background save\<close>

text \<open>
  The loop over the replicas: those that wait for the start of a save give the capabilities for the next one (\<open>None\<close> while there is none), those that wait
  for the end are put online after a save to the sockets, and otherwise begin to receive the file or are closed.
\<close>

primrec waiting_loop :: "sync_env \<Rightarrow> bool \<Rightarrow> rdb_child \<Rightarrow> slave list \<Rightarrow> slave_capa set option \<Rightarrow> slave list \<times> slave_capa set option" where
  "waiting_loop e bgsave_ok type [] mincapa = ([], mincapa)"
| "waiting_loop e bgsave_ok type (sl # sls) mincapa =
     (case sl_replstate sl of
       SLAVE_STATE_WAIT_BGSAVE_START \<Rightarrow>
         let (sls, mincapa) = waiting_loop e bgsave_ok type sls (Some (case mincapa of None \<Rightarrow> sl_capa sl | Some m \<Rightarrow> m \<inter> sl_capa sl)) in (sl # sls, mincapa)
     | SLAVE_STATE_WAIT_BGSAVE_END \<Rightarrow>
         let (sls, mincapa) = waiting_loop e bgsave_ok type sls mincapa
         in if type = RDB_CHILD_TYPE_SOCKET then (sl\<lparr>sl_replstate := SLAVE_STATE_ONLINE\<rparr> # sls, mincapa)
            else if \<not> bgsave_ok then (sls, mincapa)
            else if \<not> e_send_ready e (sl_id sl) then (sls, mincapa)
            else (sl\<lparr>sl_replstate := SLAVE_STATE_SEND_BULK\<rparr> # sls, mincapa)
     | _ \<Rightarrow> let (sls, mincapa) = waiting_loop e bgsave_ok type sls mincapa in (sl # sls, mincapa))"

definition updateSlavesWaitingBgsave :: "sync_env \<Rightarrow> bool \<Rightarrow> rdb_child \<Rightarrow> repl \<Rightarrow> repl" where
  "updateSlavesWaitingBgsave e bgsave_ok type r =
     (let (sls, mincapa) = waiting_loop e bgsave_ok type (rp_slaves r) None; r = r\<lparr>rp_slaves := sls\<rparr>
      in case mincapa of None \<Rightarrow> r | Some m \<Rightarrow> snd (startBgsaveForReplication e m r))"

definition backgroundSaveDoneHandlerDisk :: "sync_env \<Rightarrow> bool \<Rightarrow> repl \<Rightarrow> repl" where
  "backgroundSaveDoneHandlerDisk e bgsave_ok r = updateSlavesWaitingBgsave e bgsave_ok RDB_CHILD_TYPE_DISK (r\<lparr>rp_rdb_child := No_child\<rparr>)"

text \<open>\<open>report\<close> is what the child has written to the pipe: the ids of the replicas with their error codes.\<close>

definition backgroundSaveDoneHandlerSocket :: "sync_env \<Rightarrow> bool \<Rightarrow> (nat \<times> nat) list \<Rightarrow> repl \<Rightarrow> repl" where
  "backgroundSaveDoneHandlerSocket e bgsave_ok report r =
     (let r = r\<lparr>rp_rdb_child := No_child\<rparr>;
          ok_slaves = (if bgsave_ok then report else []);
          r = r\<lparr>rp_slaves := filter (\<lambda>sl. sl_replstate sl = SLAVE_STATE_WAIT_BGSAVE_END \<longrightarrow> map_of ok_slaves (sl_id sl) = Some 0) (rp_slaves r)\<rparr>
      in updateSlavesWaitingBgsave e bgsave_ok RDB_CHILD_TYPE_SOCKET r)"

definition backgroundSaveDoneHandler :: "sync_env \<Rightarrow> bool \<Rightarrow> (nat \<times> nat) list \<Rightarrow> repl \<Rightarrow> repl option" where
  "backgroundSaveDoneHandler e bgsave_ok report r =
     (case rp_rdb_child r of
       RDB_CHILD_TYPE_DISK \<Rightarrow> Some (backgroundSaveDoneHandlerDisk e bgsave_ok r)
     | RDB_CHILD_TYPE_SOCKET \<Rightarrow> Some (backgroundSaveDoneHandlerSocket e bgsave_ok report r)
     | No_child \<Rightarrow> None)"

end
