(* ===== verification/Replication_Prop.thy ===== *)
theory Replication_Prop
  imports Replication_Spec Replication_Sync Refine
begin

text \<open>
  Runs of a master: commands that are fed, replicas that ask for synchronisation, are put online and go away, background saves, and changes of
  the size of the backlog. At every point the backlog and all replicas agree on one stream of requests.
\<close>

subsection \<open>The stream as a sequence of requests\<close>

abbreviation select_request :: "int \<Rightarrow> byte list list" where
  "select_request d \<equiv> [bytes ''SELECT'', int_dec d]"

text \<open>
  The requests carry the commands, each with the database in which it is to be executed: a reader that starts with no database selected, and obeys
  SELECT, executes every command in its database. The last argument is the database that is selected at the end.
\<close>

inductive carries :: "(int \<times> byte list list) list \<Rightarrow> byte list list list \<Rightarrow> int \<Rightarrow> bool" where
  start: "carries [] [] (- 1)"
| same: "carries cs rs d \<Longrightarrow> carries (cs @ [(d, a)]) (rs @ [a]) d"
| select: "carries cs rs d \<Longrightarrow> carries (cs @ [(d', a)]) (rs @ [select_request d', a]) d'"

inductive_cases carries_nilE: "carries [] rs d"

text \<open>The bytes that feeding a command adds to the stream.\<close>

definition fed_bytes :: "int \<Rightarrow> int \<Rightarrow> robj list \<Rightarrow> byte list" where
  "fed_bytes seldb dictid argv = (if seldb \<noteq> dictid then enc_request (select_request dictid) else []) @ enc_request (map obj_text argv)"

text \<open>\<open>out\<close> carries the commands of \<open>cs\<close> from some point on.\<close>

definition tracks :: "(int \<times> byte list list) list \<Rightarrow> int \<Rightarrow> nat \<Rightarrow> byte list \<Rightarrow> bool" where
  "tracks cs seldb n out \<longleftrightarrow> n \<le> length cs \<and> (\<exists>rs d. out = enc_requests rs \<and> carries (drop n cs) rs d \<and> (seldb = - 1 \<or> seldb = d))"

lemma tracks_start: "tracks cs (- 1) (length cs) []"
proof -
  have "[] = enc_requests [] \<and> carries (drop (length cs) cs) [] (- 1) \<and> (- 1 = (- 1 :: int) \<or> - 1 = (- 1 :: int))" by (simp add: carries.start)
  then show ?thesis unfolding tracks_def by blast
qed

lemma tracks_reset: "tracks cs seldb n out \<Longrightarrow> tracks cs (- 1) n out"
  unfolding tracks_def by blast

lemma enc_requests_append: "enc_requests (xs @ ys) = enc_requests xs @ enc_requests ys"
  by (simp add: enc_requests_def)

lemma tracks_feed:
  assumes "tracks cs seldb n out" and "0 \<le> dictid"
  shows "tracks (cs @ [(dictid, map obj_text argv)]) dictid n (out @ fed_bytes seldb dictid argv)"
proof -
  let ?a = "map obj_text argv"
  obtain rs d where t: "n \<le> length cs" "out = enc_requests rs" "carries (drop n cs) rs d" "seldb = - 1 \<or> seldb = d"
    using assms(1) by (auto simp: tracks_def)
  show ?thesis
  proof (cases "seldb = dictid")
    case True
    then have "d = dictid" using t(4) assms(2) by auto
    then have "carries (drop n cs @ [(dictid, ?a)]) (rs @ [?a]) dictid" using carries.same [OF t(3)] by simp
    then show ?thesis using t(1,2) True unfolding tracks_def by (auto simp: fed_bytes_def enc_requests_append intro!: exI [of _ "rs @ [?a]"])
  next
    case False
    have "carries (drop n cs @ [(dictid, ?a)]) (rs @ [select_request dictid, ?a]) dictid" by (rule carries.select [OF t(3)])
    then show ?thesis using t(1,2) False unfolding tracks_def
      by (auto simp: fed_bytes_def enc_requests_append intro!: exI [of _ "rs @ [select_request dictid, ?a]"])
  qed
qed

subsection \<open>The invariant\<close>

definition follows :: "int \<Rightarrow> byte list \<Rightarrow> slave \<Rightarrow> bool" where
  "follows base hist sl \<longleftrightarrow> base < sl_from sl \<and> sl_from sl \<le> base + int (length hist) + 1 \<and> sl_out sl = drop (nat (sl_from sl - base - 1)) hist"

text \<open>A replica that was put online and whose connection is about to be closed gets no guarantee.\<close>

definition slave_ok :: "int \<Rightarrow> byte list \<Rightarrow> (int \<times> byte list list) list \<Rightarrow> int \<Rightarrow> slave \<Rightarrow> bool" where
  "slave_ok base hist cs seldb sl \<longleftrightarrow>
     (case sl_replstate sl of
       SLAVE_STATE_WAIT_BGSAVE_START \<Rightarrow> sl_out sl = []
     | SLAVE_STATE_ONLINE \<Rightarrow> sl_close_asap sl \<or> follows base hist sl
     | _ \<Rightarrow> follows base hist sl \<and> sl_from sl = sl_psync_initial_offset sl + 1 \<and> (\<exists>n. tracks cs seldb n (sl_out sl)))"

definition stream_inv :: "int \<Rightarrow> byte list \<Rightarrow> (int \<times> byte list list) list \<Rightarrow> repl \<Rightarrow> bool" where
  "stream_inv base hist cs r \<longleftrightarrow> backlog_ok base hist r \<and> \<not> rp_masterhost r \<and> tracks cs (rp_slaveseldb r) 0 hist \<and>
     (\<forall>sl\<in>set (rp_slaves r). slave_ok base hist cs (rp_slaveseldb r) sl)"

lemma follows_sent: "follows base hist sl \<Longrightarrow> follows base (hist @ p) (sl\<lparr>sl_out := sl_out sl @ p\<rparr>)"
  by (auto simp: follows_def)

lemma slave_ok_sent:
  assumes "slave_ok base hist cs seldb sl" and "0 \<le> dictid"
  shows "slave_ok base (hist @ fed_bytes seldb dictid argv) (cs @ [(dictid, map obj_text argv)]) dictid (sent (fed_bytes seldb dictid argv) sl)"
  using assms follows_sent [of base hist sl "fed_bytes seldb dictid argv"] tracks_feed [OF _ assms(2), of cs seldb _ "sl_out sl" argv]
  by (cases "sl_replstate sl") (auto simp: slave_ok_def sent_def)

lemma slave_ok_reset: "slave_ok base hist cs seldb sl \<Longrightarrow> slave_ok base hist cs (- 1) sl"
  by (auto simp: slave_ok_def intro: tracks_reset split: slave_state.splits)

lemma backlog_ok_cong:
  assumes "rp_backlog r' = rp_backlog r" "rp_backlog_size r' = rp_backlog_size r" "rp_backlog_idx r' = rp_backlog_idx r"
    "rp_backlog_histlen r' = rp_backlog_histlen r" "rp_backlog_off r' = rp_backlog_off r" "rp_master_repl_offset r' = rp_master_repl_offset r"
  shows "backlog_ok base hist r' = backlog_ok base hist r"
  unfolding backlog_ok_def assms ..

lemma backlog_ok_other [simp]:
  "backlog_ok base hist (r\<lparr>rp_slaves := sls\<rparr>) = backlog_ok base hist r"
  "backlog_ok base hist (r\<lparr>rp_slaveseldb := d\<rparr>) = backlog_ok base hist r"
  "backlog_ok base hist (r\<lparr>rp_rdb_child := c\<rparr>) = backlog_ok base hist r"
  by (rule backlog_ok_cong; simp)+

lemma backlog_okD: "backlog_ok base hist r \<Longrightarrow> rp_backlog r \<noteq> None" "backlog_ok base hist r \<Longrightarrow> rp_master_repl_offset r = base + int (length hist)"
  by (auto simp: backlog_ok_def split: option.splits)

subsection \<open>Feeding a command\<close>

lemma sent_nil: "map (sent []) sls = sls"
  by (induction sls) (simp_all add: sent_def)

lemma select_command_eq:
  assumes "is_int64 dictid" and "21 \<le> n"
  shows "select_command junk n dictid = Some (enc_request (select_request dictid))"
proof -
  have dec: "int_dec 2 = [50]" "int_dec 6 = [54]" by (simp_all add: int_dec_def nat_dec_small digit_def)
  obtain b where "ll2string (map junk [0..<n]) dictid = Some (b, length (int_dec dictid))" "cstr b = int_dec dictid"
    using ll2string_text [OF assms] by blast
  then show ?thesis by (simp add: select_command_def enc_request_def enc_arg_def count_text_def dec bytes_def)
qed

lemma feed_select_ok:
  assumes "backlog_ok base hist r" and "is_int64 dictid"
  defines "q \<equiv> (if rp_slaveseldb r \<noteq> dictid then enc_request (select_request dictid) else [])"
  shows "\<exists>r'. feed_select junk dictid r = Some r' \<and> backlog_ok base (hist @ q) r' \<and> rp_slaves r' = map (sent q) (rp_slaves r) \<and>
    rp_masterhost r' = rp_masterhost r"
proof (cases "rp_slaveseldb r = dictid")
  case True
  then show ?thesis using assms(1) by (simp add: feed_select_def q_def sent_nil)
next
  case False
  let ?t = "enc_request (select_request dictid)"
  have sel: "select_command junk (if dictid \<ge> 0 \<and> dictid < PROTO_SHARED_SELECT_CMDS then 64 else 21) dictid = Some ?t"
    by (rule select_command_eq [OF assms(2)]) simp
  obtain r1 where r1: "feedReplicationBacklogWithObject junk (Sds_obj ?t) r = Some r1" "backlog_ok base (hist @ ?t) r1" "rp_slaves r1 = rp_slaves r"
      "rp_masterhost r1 = rp_masterhost r"
    using feedsD [OF feeds_backlog [of ?t] assms(1)] by (auto simp: feedReplicationBacklogWithObject_def)
  have "each_slave (\<lambda>sl. addReply_obj junk sl (Sds_obj ?t)) (rp_slaves r) = Some (map (sent ?t) (rp_slaves r))"
    by (rule each_slave_sent) (simp add: addReply_obj_def)
  then show ?thesis using False r1 backlog_okD(1) [OF assms(1)] by (simp add: feed_select_def sel q_def)
qed

definition command_ok :: "int \<Rightarrow> robj list \<Rightarrow> bool" where
  "command_ok dictid argv \<longleftrightarrow> 0 \<le> dictid \<and> is_int64 dictid \<and> is_int64 (int (length argv)) \<and> (\<forall>ob\<in>set argv. obj_ok ob)"

lemma feed_command_ok:
  assumes "backlog_ok base hist r" and "command_ok dictid argv"
  shows "\<exists>r'. do { aux \<leftarrow> header_line junk 24 42 (int (length argv)); r \<leftarrow> feedReplicationBacklog aux r; feed_args junk argv r } = Some r' \<and>
    backlog_ok base (hist @ enc_request (map obj_text argv)) r' \<and> rp_slaves r' = rp_slaves r \<and> rp_slaveseldb r' = rp_slaveseldb r \<and>
    rp_masterhost r' = rp_masterhost r"
proof -
  let ?h = "count_text 42 (length argv) @ [13, 10]"
  have h: "header_line junk 24 42 (int (length argv)) = Some ?h"
    using header_line_eq [of "int (length argv)" 24 junk 42] assms(2) by (simp add: command_ok_def count_text_def)
  have "feeds (\<lambda>r. do { r \<leftarrow> feedReplicationBacklog ?h r; feed_args junk argv r }) (?h @ enc_args (map obj_text argv))"
    using assms(2) by (intro feeds_seq feeds_backlog feeds_args) (simp add: command_ok_def)
  then show ?thesis using assms(1) unfolding feeds_def h by (auto simp: enc_request_def)
qed

lemma send_command_ok:
  assumes "command_ok dictid argv"
  shows "each_slave (\<lambda>sl. do { sl \<leftarrow> addReplyMultiBulkLen junk sl (int (length argv)); reply_args junk argv sl }) sls =
    Some (map (sent (enc_request (map obj_text argv))) sls)"
  using assms by (intro each_slave_sent) (simp add: addReplyMultiBulkLen_eq reply_args_eq command_ok_def enc_request_def)

lemma replicationFeedSlaves_ok:
  assumes "stream_inv base hist cs r" and "command_ok dictid argv"
  shows "\<exists>r'. replicationFeedSlaves junk dictid argv r = Some r' \<and>
    stream_inv base (hist @ fed_bytes (rp_slaveseldb r) dictid argv) (cs @ [(dictid, map obj_text argv)]) r'"
proof -
  define q where "q = (if rp_slaveseldb r \<noteq> dictid then enc_request (select_request dictid) else [])"
  let ?p = "fed_bytes (rp_slaveseldb r) dictid argv" and ?a = "enc_request (map obj_text argv)"
  have p: "?p = q @ ?a" by (simp add: fed_bytes_def q_def)
  have inv: "backlog_ok base hist r" "\<not> rp_masterhost r" "tracks cs (rp_slaveseldb r) 0 hist"
      "\<forall>sl\<in>set (rp_slaves r). slave_ok base hist cs (rp_slaveseldb r) sl" and d: "0 \<le> dictid" "is_int64 dictid"
    using assms by (simp_all add: stream_inv_def command_ok_def)
  obtain r1 where r1: "feed_select junk dictid r = Some r1" "backlog_ok base (hist @ q) r1" "rp_slaves r1 = map (sent q) (rp_slaves r)"
      "rp_masterhost r1 = rp_masterhost r" using feed_select_ok [OF inv(1) d(2)] unfolding q_def by blast
  have b: "backlog_ok base (hist @ q) (r1\<lparr>rp_slaveseldb := dictid\<rparr>)" using r1(2) by simp
  obtain aux r' r2 where r2: "header_line junk 24 42 (int (length argv)) = Some aux" "feedReplicationBacklog aux (r1\<lparr>rp_slaveseldb := dictid\<rparr>) = Some r'"
      "feed_args junk argv r' = Some r2" "backlog_ok base ((hist @ q) @ ?a) r2" "rp_slaves r2 = map (sent q) (rp_slaves r)" "rp_slaveseldb r2 = dictid"
      "\<not> rp_masterhost r2"
    using feed_command_ok [OF b assms(2), of junk] r1(3,4) inv(2) by (auto simp: bind_eq_Some_conv)
  have "rp_backlog r \<noteq> None" "rp_backlog r1 \<noteq> None" using backlog_okD(1) inv(1) r1(2) by blast+
  then have "replicationFeedSlaves junk dictid argv r = Some (r2\<lparr>rp_slaves := map (sent ?p) (rp_slaves r)\<rparr>)"
    using inv(2) r1(1) r2(1-3,5) send_command_ok [OF assms(2)] by (auto simp: replicationFeedSlaves_def p sent_sent comp_def)
  moreover have "stream_inv base (hist @ ?p) (cs @ [(dictid, map obj_text argv)]) (r2\<lparr>rp_slaves := map (sent ?p) (rp_slaves r)\<rparr>)"
  proof -
    have "backlog_ok base (hist @ ?p) r2" using r2(4) p by simp
    moreover have "\<forall>sl\<in>set (map (sent ?p) (rp_slaves r)). slave_ok base (hist @ ?p) (cs @ [(dictid, map obj_text argv)]) dictid sl"
      using inv(4) slave_ok_sent [OF _ d(1)] by simp
    ultimately show ?thesis using r2(6,7) tracks_feed [OF inv(3) d(1), of argv] by (simp add: stream_inv_def)
  qed
  ultimately show ?thesis by blast
qed

subsection \<open>Synchronisation\<close>

lemma setup_full_ok:
  assumes "slave_ok base hist cs seldb sl" and "sl_replstate sl = SLAVE_STATE_WAIT_BGSAVE_START"
    and "replicationSetupSlaveForFullResync written (base + int (length hist)) sl r = (sl', r')"
  shows "slave_ok base hist cs (- 1) sl' \<and> r' = r\<lparr>rp_slaveseldb := - 1\<rparr>"
  using assms tracks_start [of cs]
  by (auto simp: replicationSetupSlaveForFullResync_def slave_ok_def follows_def Let_def split: if_splits)

lemma setup_copy_ok:
  assumes "slave_ok base hist cs seldb src" and "sl_replstate src = SLAVE_STATE_WAIT_BGSAVE_END"
    and "replicationSetupSlaveForFullResync written (sl_psync_initial_offset src) (copyClientOutputBuffer sl src) r = (sl', r')"
  shows "slave_ok base hist cs (- 1) sl' \<and> r' = r\<lparr>rp_slaveseldb := - 1\<rparr>"
  using slave_ok_reset [OF assms(1)] assms(2,3)
  by (auto simp: replicationSetupSlaveForFullResync_def copyClientOutputBuffer_def slave_ok_def follows_def Let_def split: if_splits)

lemma setup_waiting_ok:
  "setup_waiting written sls r = (sls', r') \<Longrightarrow> rp_master_repl_offset r = base + int (length hist) \<Longrightarrow>
   \<forall>sl\<in>set sls. slave_ok base hist cs (rp_slaveseldb r) sl \<Longrightarrow> tracks cs (rp_slaveseldb r) 0 hist \<Longrightarrow>
   (\<exists>d. r' = r\<lparr>rp_slaveseldb := d\<rparr> \<and> (d = rp_slaveseldb r \<or> d = - 1)) \<and> (\<forall>sl\<in>set sls'. slave_ok base hist cs (rp_slaveseldb r') sl)"
proof (induction sls arbitrary: r sls' r')
  case Nil
  then show ?case by (auto intro!: exI [of _ "rp_slaveseldb r"])
next
  case (Cons sl sls)
  show ?case
  proof (cases "sl_replstate sl = SLAVE_STATE_WAIT_BGSAVE_START")
    case True
    obtain sl1 r1 where f: "replicationSetupSlaveForFullResync (written (sl_id sl)) (getPsyncInitialOffset r) sl r = (sl1, r1)" by fastforce
    obtain sls2 r2 where w: "setup_waiting written sls r1 = (sls2, r2)" by fastforce
    have f': "slave_ok base hist cs (- 1) sl1" "r1 = r\<lparr>rp_slaveseldb := - 1\<rparr>"
      using setup_full_ok [of base hist cs "rp_slaveseldb r" sl] True f Cons.prems(2,3) by (auto simp: getPsyncInitialOffset_def)
    have "(\<exists>d. r2 = r1\<lparr>rp_slaveseldb := d\<rparr> \<and> (d = rp_slaveseldb r1 \<or> d = - 1)) \<and> (\<forall>sl\<in>set sls2. slave_ok base hist cs (rp_slaveseldb r2) sl)"
      using Cons.prems f'(2) slave_ok_reset tracks_reset by (intro Cons.IH [OF w]) auto
    then show ?thesis using Cons.prems(1) True f w f' by auto
  next
    case False
    obtain sls2 r2 where w: "setup_waiting written sls r = (sls2, r2)" by fastforce
    have "(\<exists>d. r2 = r\<lparr>rp_slaveseldb := d\<rparr> \<and> (d = rp_slaveseldb r \<or> d = - 1)) \<and> (\<forall>sl\<in>set sls2. slave_ok base hist cs (rp_slaveseldb r2) sl)"
      using Cons.prems by (intro Cons.IH [OF w]) auto
    then show ?thesis using Cons.prems(1,3) False w slave_ok_reset by auto
  qed
qed

lemma stream_inv_child [simp]: "stream_inv base hist cs (r\<lparr>rp_rdb_child := x\<rparr>) = stream_inv base hist cs r"
  by (simp add: stream_inv_def)

lemma stream_inv_slaves:
  "stream_inv base hist cs r \<Longrightarrow> (\<And>sl. sl \<in> set sls \<Longrightarrow> slave_ok base hist cs (rp_slaveseldb r) sl) \<Longrightarrow> stream_inv base hist cs (r\<lparr>rp_slaves := sls\<rparr>)"
  by (simp add: stream_inv_def)

lemma setup_waiting_inv:
  assumes "stream_inv base hist cs r" and "setup_waiting written (rp_slaves r) r = (sls, r')"
  shows "stream_inv base hist cs (r'\<lparr>rp_slaves := sls\<rparr>)"
proof -
  have inv: "rp_master_repl_offset r = base + int (length hist)" "\<forall>sl\<in>set (rp_slaves r). slave_ok base hist cs (rp_slaveseldb r) sl"
      "tracks cs (rp_slaveseldb r) 0 hist" using assms(1) backlog_okD(2) by (auto simp: stream_inv_def)
  from setup_waiting_ok [OF assms(2) inv] obtain d where "r' = r\<lparr>rp_slaveseldb := d\<rparr>" "d = rp_slaveseldb r \<or> d = - 1"
      "\<forall>sl\<in>set sls. slave_ok base hist cs (rp_slaveseldb r') sl" by blast
  then show ?thesis using assms tracks_reset by (auto simp: stream_inv_def)
qed

text \<open>A failed save drops the replicas that wait for its start, in whatever condition they are.\<close>

definition all_but_waiting :: "repl \<Rightarrow> repl" where
  "all_but_waiting r = r\<lparr>rp_slaves := filter (\<lambda>sl. sl_replstate sl \<noteq> SLAVE_STATE_WAIT_BGSAVE_START) (rp_slaves r)\<rparr>"

lemma all_but_waiting_ok: "stream_inv base hist cs r \<Longrightarrow> stream_inv base hist cs (all_but_waiting r)"
  unfolding all_but_waiting_def by (rule stream_inv_slaves) (auto simp: stream_inv_def)

lemma all_but_waiting_map:
  "all_but_waiting (r\<lparr>rp_slaves := map (\<lambda>sl. if P sl then sl\<lparr>sl_replstate := SLAVE_STATE_WAIT_BGSAVE_START\<rparr> else sl) sls\<rparr>) =
     all_but_waiting (r\<lparr>rp_slaves := filter (\<lambda>sl. \<not> P sl) sls\<rparr>)"
proof -
  have "filter (\<lambda>sl. sl_replstate sl \<noteq> SLAVE_STATE_WAIT_BGSAVE_START) (map (\<lambda>sl. if P sl then sl\<lparr>sl_replstate := SLAVE_STATE_WAIT_BGSAVE_START\<rparr> else sl) sls) =
      filter (\<lambda>sl. sl_replstate sl \<noteq> SLAVE_STATE_WAIT_BGSAVE_START) (filter (\<lambda>sl. \<not> P sl) sls)" by (induction sls) auto
  then show ?thesis by (simp add: all_but_waiting_def)
qed

lemma rdbSaveToSlavesSockets_ok:
  assumes "stream_inv base hist cs r" and "rdbSaveToSlavesSockets e r = (retval, r')"
  shows "if retval then stream_inv base hist cs r' else stream_inv base hist cs (all_but_waiting r')"
proof (cases "rp_aof_child r \<or> rp_rdb_child r \<noteq> No_child \<or> \<not> e_pipe_ok e r")
  case True
  then have "\<not> retval" "r' = r" using assms(2) by (auto simp: rdbSaveToSlavesSockets_def split: if_splits)
  then show ?thesis using all_but_waiting_ok [OF assms(1)] by simp
next
  case False
  obtain sls r1 where w: "setup_waiting (e_written e) (rp_slaves r) r = (sls, r1)" by fastforce
  define r2 where "r2 = r1\<lparr>rp_slaves := sls\<rparr>"
  have inv: "stream_inv base hist cs r2" unfolding r2_def by (rule setup_waiting_inv [OF assms(1) w])
  let ?P = "\<lambda>sl. sl_id sl \<in> set (map sl_id (filter (\<lambda>sl. sl_replstate sl = SLAVE_STATE_WAIT_BGSAVE_START) (rp_slaves r)))"
  have r': "(retval, r') = (if \<not> e_fork_ok e r2 then
        (False, r2\<lparr>rp_slaves := map (\<lambda>sl. if ?P sl then sl\<lparr>sl_replstate := SLAVE_STATE_WAIT_BGSAVE_START\<rparr> else sl) (rp_slaves r2)\<rparr>)
      else (True, r2\<lparr>rp_rdb_child := RDB_CHILD_TYPE_SOCKET\<rparr>))"
    using assms(2) False w unfolding rdbSaveToSlavesSockets_def after_fork_def r2_def by (simp add: Let_def)
  have "stream_inv base hist cs (r2\<lparr>rp_slaves := filter (\<lambda>sl. \<not> ?P sl) (rp_slaves r2)\<rparr>)"
    using inv by (intro stream_inv_slaves) (auto simp: stream_inv_def)
  then show ?thesis using r' inv all_but_waiting_ok unfolding all_but_waiting_map [symmetric] by (auto simp: all_but_waiting_map split: if_splits)
qed

lemma startBgsave_ok:
  assumes "stream_inv base hist cs r"
  shows "stream_inv base hist cs (snd (startBgsaveForReplication e mincapa r))"
proof -
  define target where "target = (rp_diskless_sync r \<and> SLAVE_CAPA_EOF \<in> mincapa)"
  obtain retval r1 where save: "(if target then rdbSaveToSlavesSockets e r
      else if e_bgsave_ok e r then (True, r\<lparr>rp_rdb_child := RDB_CHILD_TYPE_DISK\<rparr>) else (False, r)) = (retval, r1)" by fastforce
  have r1: "if retval then stream_inv base hist cs r1 else stream_inv base hist cs (all_but_waiting r1)"
    using save assms rdbSaveToSlavesSockets_ok [OF assms] all_but_waiting_ok [OF assms] by (cases target) (auto split: if_splits)
  obtain sls r2 where w: "setup_waiting (e_written e) (rp_slaves r1) r1 = (sls, r2)" by fastforce
  have "snd (startBgsaveForReplication e mincapa r) =
      (if \<not> retval then all_but_waiting r1 else if \<not> target then r2\<lparr>rp_slaves := sls\<rparr> else r1)"
    unfolding startBgsaveForReplication_def Let_def target_def [symmetric] save by (simp add: w all_but_waiting_def)
  then show ?thesis using r1 setup_waiting_inv [OF _ w] by (auto split: if_splits)
qed

lemma attach_full_ok:
  assumes "stream_inv base hist cs r" and "rp_slaves r = sls @ [sl]"
  shows "stream_inv base hist cs (attach_full e sl r)"
proof (cases "rp_rdb_child r")
  case No_child
  then show ?thesis using assms(1) startBgsave_ok [OF assms(1), of e "sl_capa sl"] by (auto simp: attach_full_def)
next
  case RDB_CHILD_TYPE_DISK
  let ?src = "find (\<lambda>x. sl_replstate x = SLAVE_STATE_WAIT_BGSAVE_END) (rp_slaves r)"
  show ?thesis
  proof (cases "\<exists>src. ?src = Some src \<and> sl_capa src \<subseteq> sl_capa sl")
    case True
    then obtain src where src: "?src = Some src" "sl_capa src \<subseteq> sl_capa sl" by blast
    then have w: "sl_replstate src = SLAVE_STATE_WAIT_BGSAVE_END" "src \<in> set (rp_slaves r)" by (auto simp: find_Some_iff)
    then have ok: "slave_ok base hist cs (rp_slaveseldb r) src" using assms(1) by (simp add: stream_inv_def)
    obtain sl' r' where f: "replicationSetupSlaveForFullResync (e_written e (sl_id sl)) (sl_psync_initial_offset src) (copyClientOutputBuffer sl src) r = (sl', r')"
      by fastforce
    have sid: "sl_id (copyClientOutputBuffer sl src) = sl_id sl" by (simp add: copyClientOutputBuffer_def)
    have r': "slave_ok base hist cs (- 1) sl'" "r' = r\<lparr>rp_slaveseldb := - 1\<rparr>" using setup_copy_ok [OF ok w(1) f] by auto
    have "attach_full e sl r = r'\<lparr>rp_slaves := sls @ [sl']\<rparr>"
      using RDB_CHILD_TYPE_DISK src f assms(2) r'(2) by (simp add: attach_full_def sid)
    then show ?thesis using assms r' slave_ok_reset tracks_reset by (auto simp: stream_inv_def)
  next
    case False
    then have "attach_full e sl r = r" using RDB_CHILD_TYPE_DISK by (auto simp: attach_full_def split: option.splits)
    then show ?thesis using assms(1) by simp
  qed
qed (use assms in \<open>simp add: attach_full_def\<close>)

lemma full_resync_ok:
  assumes "stream_inv base hist cs r" and "sl_out sl = []"
  shows "\<exists>r'. full_resync e junk sl r = Some r' \<and> stream_inv base hist cs r'"
proof -
  let ?sl = "sl\<lparr>sl_replstate := SLAVE_STATE_WAIT_BGSAVE_START, sl_is_slave := True\<rparr>"
  have "stream_inv base hist cs (r\<lparr>rp_slaves := rp_slaves r @ [?sl]\<rparr>)" using assms by (auto simp: stream_inv_def slave_ok_def)
  then have "stream_inv base hist cs (attach_full e ?sl (r\<lparr>rp_slaves := rp_slaves r @ [?sl]\<rparr>))" by (rule attach_full_ok) simp
  moreover have "rp_backlog r \<noteq> None" using assms(1) backlog_okD(1) by (auto simp: stream_inv_def)
  ultimately show ?thesis by (auto simp: full_resync_def Let_def)
qed

lemma stream_inv_attach: "stream_inv base hist cs r \<Longrightarrow> slave_ok base hist cs (rp_slaveseldb r) sl \<Longrightarrow> stream_inv base hist cs (r\<lparr>rp_slaves := rp_slaves r @ [sl]\<rparr>)"
  by (simp add: stream_inv_def)

text \<open>Either nothing changes, or the replica is attached, with the backlog from the offset on as its output.\<close>

lemma partial_resync_cases:
  assumes "backlog_ok base hist r" and "sl_out sl = []" and "string2ll off = Some v"
  shows "masterTryPartialResynchronization written sl rid off r = Some (False, sl, r) \<or>
    (\<exists>sl'. masterTryPartialResynchronization written sl rid off r = Some (True, sl', r\<lparr>rp_slaves := rp_slaves r @ [sl']\<rparr>) \<and>
      sl_replstate sl' = SLAVE_STATE_ONLINE \<and> (sl_close_asap sl' \<or> follows base hist sl'))"
proof -
  let ?ids = "strcaseeq (cstr rid) (cstr (rp_replid r)) \<or> strcaseeq (cstr rid) (cstr (rp_replid2 r)) \<and> \<not> rp_second_replid_offset r < v"
  note attempt = masterTryPartialResynchronization_def [of written sl rid off r, unfolded assms(3) option.case]
  consider "\<not> ?ids" | "?ids" "v < rp_backlog_off r \<or> rp_backlog_off r + int (rp_backlog_histlen r) < v"
    | "?ids" "rp_backlog_off r \<le> v" "v \<le> rp_backlog_off r + int (rp_backlog_histlen r)" by linarith
  then show ?thesis
  proof cases
    case 1
    then show ?thesis unfolding attempt by (intro disjI1) (rule if_P, blast)
  next
    case 2
    then show ?thesis unfolding attempt by (intro disjI1) (subst if_not_P, blast, rule if_P, blast)
  next
    case 3
    let ?sl = "sl\<lparr>sl_is_slave := True, sl_replstate := SLAVE_STATE_ONLINE, sl_from := v\<rparr>"
    have v: "base < v" "v \<le> base + int (length hist) + 1" using assms(1) 3(2,3) by (auto simp: backlog_ok_def split: option.splits)
    have c: "\<not> (rp_backlog r = None \<or> v < rp_backlog_off r \<or> rp_backlog_off r + int (rp_backlog_histlen r) < v)"
      using backlog_okD(1) [OF assms(1)] 3(2,3) by simp
    have i: "\<not> (\<not> strcaseeq (cstr rid) (cstr (rp_replid r)) \<and> (\<not> strcaseeq (cstr rid) (cstr (rp_replid2 r)) \<or> rp_second_replid_offset r < v))" using 3(1) by blast
    define reply where "reply = (if SLAVE_CAPA_PSYNC2 \<in> sl_capa ?sl then bytes ''+CONTINUE '' @ cstr (rp_replid r) @ [13, 10] else bytes ''+CONTINUE'' @ [13, 10])"
    note accepted = attempt [unfolded if_not_P [OF i] if_not_P [OF c] Let_def, folded reply_def]
    show ?thesis
    proof (cases written)
      case True
      let ?sl' = "?sl\<lparr>sl_wire := sl_wire ?sl @ reply, sl_out := sl_out sl @ drop (nat (v - base - 1)) hist\<rparr>"
      have "masterTryPartialResynchronization written sl rid off r = Some (True, ?sl', r\<lparr>rp_slaves := rp_slaves r @ [?sl']\<rparr>)"
        unfolding accepted using True by (simp add: addReplyReplicationBacklog_ok [OF assms(1) 3(2,3)])
      moreover have "follows base hist ?sl'" using v assms(2) by (simp add: follows_def)
      ultimately show ?thesis by (intro disjI2 exI [of _ ?sl']) simp
    next
      case False
      let ?sl' = "?sl\<lparr>sl_close_asap := True\<rparr>"
      have "masterTryPartialResynchronization written sl rid off r = Some (True, ?sl', r\<lparr>rp_slaves := rp_slaves r @ [?sl']\<rparr>)"
        unfolding accepted using False by simp
      then show ?thesis by (intro disjI2 exI [of _ ?sl']) simp
    qed
  qed
qed

lemma partial_resync_ok:
  assumes "stream_inv base hist cs r" and "sl_out sl = []" and "string2ll off = Some v"
  shows "\<exists>b sl' r'. masterTryPartialResynchronization written sl rid off r = Some (b, sl', r') \<and> stream_inv base hist cs r' \<and> (\<not> b \<longrightarrow> sl' = sl \<and> r' = r)"
proof -
  have b: "backlog_ok base hist r" using assms(1) by (simp add: stream_inv_def)
  have "slave_ok base hist cs d sl'" if "sl_replstate sl' = SLAVE_STATE_ONLINE" "sl_close_asap sl' \<or> follows base hist sl'" for sl' d
    using that by (simp add: slave_ok_def)
  then show ?thesis using partial_resync_cases [OF b assms(2,3), of written rid] assms(1) stream_inv_attach by blast
qed

lemma syncCommand_ok:
  assumes "stream_inv base hist cs r" and "\<forall>rid off. req = Some (rid, off) \<longrightarrow> string2ll off \<noteq> None"
  shows "\<exists>sl' r'. syncCommand e junk req sl r = Some (sl', r') \<and> stream_inv base hist cs r'"
proof (cases "sl_is_slave sl \<or> sl_out sl \<noteq> []")
  case True
  then show ?thesis using assms(1) by (cases "sl_is_slave sl") (simp_all add: syncCommand_def stream_inv_def)
next
  case False
  have m: "\<not> rp_masterhost r" using assms(1) by (simp add: stream_inv_def)
  show ?thesis
  proof (cases req)
    case None
    obtain r' where "full_resync e junk (sl\<lparr>sl_pre_psync := True\<rparr>) r = Some r'" "stream_inv base hist cs r'"
      using full_resync_ok [OF assms(1), of "sl\<lparr>sl_pre_psync := True\<rparr>" e junk] False by auto
    then show ?thesis using False None m by (simp add: syncCommand_def)
  next
    case (Some q)
    then obtain rid off v where q: "req = Some (rid, off)" "string2ll off = Some v" using assms(2) by (cases q) auto
    obtain b sl' r' where p: "masterTryPartialResynchronization (e_written e (sl_id sl)) sl rid off r = Some (b, sl', r')" "stream_inv base hist cs r'"
        "\<not> b \<longrightarrow> sl' = sl \<and> r' = r" using partial_resync_ok [OF assms(1) _ q(2)] False by blast
    obtain r'' where "full_resync e junk sl r = Some r''" "stream_inv base hist cs r''" using full_resync_ok [OF assms(1), of sl e junk] False by auto
    then show ?thesis using False m q(1) p by (cases b) (simp_all add: syncCommand_def)
  qed
qed

end
