(* ===== verification/Replication_Run.thy ===== *)
theory Replication_Run
  imports Replication_Prop
begin

text \<open>The events of a master and the guarantee for all runs.\<close>

definition putSlaveOnline :: "slave \<Rightarrow> slave" where
  "putSlaveOnline sl = sl\<lparr>sl_replstate := SLAVE_STATE_ONLINE\<rparr>"

text \<open>
  \<open>Saved\<close> is the end of the background save with its outcome and the report of a save to sockets, \<open>Online\<close> the end of the transfer of the file to
  a replica, \<open>Gone\<close> a replica whose connection is freed.
\<close>

datatype repl_event =
    Feed int "robj list"
  | Sync slave "(byte list \<times> byte list) option"
  | Resize nat
  | Bgsave "slave_capa set"
  | Saved bool "(nat \<times> nat) list"
  | Online nat
  | Gone nat

fun handle_event :: "sync_env \<Rightarrow> (nat \<Rightarrow> byte) \<Rightarrow> repl_event \<Rightarrow> repl \<Rightarrow> repl option" where
  "handle_event e junk (Feed dictid argv) r = replicationFeedSlaves junk dictid argv r"
| "handle_event e junk (Sync sl req) r = do { (sl, r) \<leftarrow> syncCommand e junk req sl r; Some r }"
| "handle_event e junk (Resize n) r = Some (resizeReplicationBacklog junk n r)"
| "handle_event e junk (Bgsave mincapa) r = Some (snd (startBgsaveForReplication e mincapa r))"
| "handle_event e junk (Saved bgsave_ok report) r = (if rp_rdb_child r = No_child then Some r else backgroundSaveDoneHandler e bgsave_ok report r)"
| "handle_event e junk (Online k) r =
     Some (r\<lparr>rp_slaves := map (\<lambda>sl. if sl_id sl = k \<and> sl_replstate sl = SLAVE_STATE_SEND_BULK then putSlaveOnline sl else sl) (rp_slaves r)\<rparr>)"
| "handle_event e junk (Gone k) r = Some (r\<lparr>rp_slaves := filter (\<lambda>sl. sl_id sl \<noteq> k) (rp_slaves r)\<rparr>)"

text \<open>The commands are well formed, and the offset of a PSYNC is a number.\<close>

fun event_ok :: "repl_event \<Rightarrow> 'c \<Rightarrow> bool" where
  "event_ok (Feed dictid argv) cs = command_ok dictid argv"
| "event_ok (Sync sl req) cs = (case req of Some (rid, off) \<Rightarrow> string2ll off \<noteq> None | None \<Rightarrow> True)"
| "event_ok _ cs = True"

fun fed :: "repl_event \<Rightarrow> (int \<times> byte list list) list \<Rightarrow> (int \<times> byte list list) list" where
  "fed (Feed dictid argv) cs = cs @ [(dictid, map obj_text argv)]"
| "fed _ cs = cs"

definition stream_rep :: "int \<Rightarrow> repl \<Rightarrow> (int \<times> byte list list) list \<Rightarrow> bool" where
  "stream_rep base r cs \<longleftrightarrow> (\<exists>hist. stream_inv base hist cs r)"

lemma resize_ok:
  assumes "stream_inv base hist cs r"
  shows "stream_inv base hist cs (resizeReplicationBacklog junk n r)"
proof -
  have "backlog_ok base hist (resizeReplicationBacklog junk n r)"
    using assms by (auto simp: resizeReplicationBacklog_def fresh_backlog_def stream_inv_def backlog_ok_def last_n_def Let_def length_ring split: option.splits)
  then show ?thesis using assms by (simp add: stream_inv_def resizeReplicationBacklog_def fresh_backlog_def Let_def)
qed

lemma online_ok: "slave_ok base hist cs seldb sl \<Longrightarrow> sl_replstate sl = SLAVE_STATE_SEND_BULK \<Longrightarrow> slave_ok base hist cs seldb (putSlaveOnline sl)"
  by (simp add: slave_ok_def putSlaveOnline_def follows_def)

lemma waiting_loop_ok:
  "waiting_loop e bgsave_ok type sls mincapa = (sls', mincapa') \<Longrightarrow> \<forall>sl\<in>set sls. slave_ok base hist cs seldb sl \<Longrightarrow>
   \<forall>sl\<in>set sls'. slave_ok base hist cs seldb sl"
proof (induction sls arbitrary: mincapa sls' mincapa')
  case (Cons sl sls)
  have "slave_ok base hist cs seldb (sl\<lparr>sl_replstate := st\<rparr>)"
    if "sl_replstate sl = SLAVE_STATE_WAIT_BGSAVE_END" "st \<in> {SLAVE_STATE_ONLINE, SLAVE_STATE_SEND_BULK}" for st
    using Cons.prems(2) that by (auto simp: slave_ok_def follows_def)
  then show ?case using Cons.prems Cons.IH by (auto simp: Let_def split: slave_state.splits if_splits prod.splits)
qed simp

lemma updateSlavesWaitingBgsave_ok:
  assumes "stream_inv base hist cs r"
  shows "stream_inv base hist cs (updateSlavesWaitingBgsave e bgsave_ok type r)"
proof -
  obtain sls mincapa where w: "waiting_loop e bgsave_ok type (rp_slaves r) None = (sls, mincapa)" by fastforce
  have "stream_inv base hist cs (r\<lparr>rp_slaves := sls\<rparr>)"
    using assms waiting_loop_ok [OF w] by (intro stream_inv_slaves) (simp_all add: stream_inv_def)
  then show ?thesis using w startBgsave_ok by (simp add: updateSlavesWaitingBgsave_def Let_def split: option.split)
qed

lemma backgroundSaveDoneHandler_ok:
  assumes "stream_inv base hist cs r" and "rp_rdb_child r \<noteq> No_child"
  shows "\<exists>r'. backgroundSaveDoneHandler e bgsave_ok report r = Some r' \<and> stream_inv base hist cs r'"
proof -
  have "stream_inv base hist cs (r\<lparr>rp_rdb_child := No_child\<rparr>)" using assms(1) by simp
  moreover from this have "stream_inv base hist cs ((r\<lparr>rp_rdb_child := No_child\<rparr>)\<lparr>rp_slaves := filter P (rp_slaves r)\<rparr>)" for P
    by (rule stream_inv_slaves) (use assms(1) in \<open>auto simp: stream_inv_def\<close>)
  ultimately show ?thesis using assms(2) updateSlavesWaitingBgsave_ok
    by (auto simp: backgroundSaveDoneHandler_def backgroundSaveDoneHandlerDisk_def backgroundSaveDoneHandlerSocket_def Let_def split: rdb_child.split)
qed

lemma handle_event_ok:
  assumes "stream_rep base r cs" and "event_ok ev cs"
  shows "\<exists>r'. handle_event e junk ev r = Some r' \<and> stream_rep base r' (fed ev cs)"
proof -
  obtain hist where inv: "stream_inv base hist cs r" using assms(1) by (auto simp: stream_rep_def)
  show ?thesis
  proof (cases ev)
    case (Feed dictid argv)
    then show ?thesis using replicationFeedSlaves_ok [OF inv, of dictid argv junk] assms(2) by (auto simp: stream_rep_def)
  next
    case (Sync sl req)
    have "\<forall>rid off. req = Some (rid, off) \<longrightarrow> string2ll off \<noteq> None" using assms(2) Sync by auto
    from syncCommand_ok [OF inv this, of e junk sl] show ?thesis using Sync by (auto simp: stream_rep_def)
  next
    case (Resize n)
    then show ?thesis using resize_ok [OF inv] by (auto simp: stream_rep_def)
  next
    case (Bgsave mincapa)
    then show ?thesis using startBgsave_ok [OF inv, of e mincapa] by (auto simp: stream_rep_def)
  next
    case (Saved bgsave_ok report)
    then show ?thesis using backgroundSaveDoneHandler_ok [OF inv, of e bgsave_ok report] inv by (auto simp: stream_rep_def)
  qed (use inv online_ok in \<open>auto simp: stream_rep_def stream_inv_def intro!: exI [of _ hist]\<close>)
qed

interpretation rs: stepwise "stream_rep base" "handle_event e junk" fed event_ok for base e junk
  by unfold_locales (rule handle_event_ok)

lemma run_fed: "run_pre event_ok fed es cs \<longleftrightarrow> (\<forall>ev\<in>set es. event_ok ev ())"
proof (induction es arbitrary: cs)
  case (Cons ev es)
  have "event_ok ev cs = event_ok ev ()" by (cases ev) simp_all
  then show ?case using Cons by simp
qed simp

text \<open>
  C35. A master with a backlog and no replicas goes through any sequence of events: commands that are fed, SYNC and PSYNC with any id and offset,
  background saves to a file or to the sockets that start, fail and end, replicas put online or lost, changes of the backlog size, with replies that may
  fail to be written. No access is outside of the backlog, and there is one stream of bytes such that: its requests carry exactly the commands fed, in
  order and each in its database; the replication offset has advanced by its length; a replica that waits for its RDB file or is receiving it has exactly the stream from the announced offset on, which
  by itself carries, with its own SELECT, the commands fed since then; and every online replica that is not being closed has been sent exactly the
  stream from the offset it asked for.
\<close>

theorem replicas_receive_one_stream:
  assumes "backlog_ok base [] r" and "rp_slaves r = []" and "\<not> rp_masterhost r" and "rp_slaveseldb r = - 1" and "\<forall>ev\<in>set es. event_ok ev ()"
  shows "\<exists>r' hist rs d. run_steps (handle_event e junk) es r = Some r' \<and> hist = enc_requests rs \<and> carries (run_text fed es []) rs d \<and>
    rp_master_repl_offset r' = base + int (length hist) \<and>
    (\<forall>sl\<in>set (rp_slaves r').
       (sl_replstate sl \<in> {SLAVE_STATE_WAIT_BGSAVE_END, SLAVE_STATE_SEND_BULK} \<longrightarrow> sl_out sl = drop (nat (sl_psync_initial_offset sl - base)) hist \<and>
          (\<exists>n rs' d'. sl_out sl = enc_requests rs' \<and> carries (drop n (run_text fed es [])) rs' d')) \<and>
       (sl_replstate sl = SLAVE_STATE_ONLINE \<and> \<not> sl_close_asap sl \<longrightarrow> base < sl_from sl \<and> sl_out sl = drop (nat (sl_from sl - base - 1)) hist))"
proof -
  have "stream_rep base r []" using assms(1-4) tracks_start [of "[]"] by (auto simp: stream_rep_def stream_inv_def intro!: exI [of _ "[]"])
  then obtain r' where run: "run_steps (handle_event e junk) es r = Some r'" "stream_rep base r' (run_text fed es [])"
    using rs.run_sim [of base r "[]" es e junk] assms(5) run_fed by blast
  then obtain hist where inv: "stream_inv base hist (run_text fed es []) r'" by (auto simp: stream_rep_def)
  then obtain rs d where h: "hist = enc_requests rs" "carries (run_text fed es []) rs d" by (auto simp: stream_inv_def tracks_def)
  have wait: "sl_out sl = drop (nat (sl_psync_initial_offset sl - base)) hist \<and> (\<exists>n rs' d'. sl_out sl = enc_requests rs' \<and> carries (drop n (run_text fed es [])) rs' d')"
    if "sl \<in> set (rp_slaves r')" "sl_replstate sl \<in> {SLAVE_STATE_WAIT_BGSAVE_END, SLAVE_STATE_SEND_BULK}" for sl
  proof -
    have "slave_ok base hist (run_text fed es []) (rp_slaveseldb r') sl" using inv that(1) by (simp add: stream_inv_def)
    then have "follows base hist sl" "sl_from sl = sl_psync_initial_offset sl + 1" "\<exists>n. tracks (run_text fed es []) (rp_slaveseldb r') n (sl_out sl)"
      using that(2) by (auto simp: slave_ok_def)
    moreover from this(3) have "\<exists>n rs' d'. sl_out sl = enc_requests rs' \<and> carries (drop n (run_text fed es [])) rs' d'" unfolding tracks_def by blast
    ultimately show ?thesis by (simp add: follows_def)
  qed
  have online: "base < sl_from sl \<and> sl_out sl = drop (nat (sl_from sl - base - 1)) hist"
    if "sl \<in> set (rp_slaves r')" "sl_replstate sl = SLAVE_STATE_ONLINE" "\<not> sl_close_asap sl" for sl
    using inv that by (auto simp: stream_inv_def slave_ok_def follows_def)
  have "rp_master_repl_offset r' = base + int (length hist)" using inv backlog_okD(2) by (simp add: stream_inv_def)
  moreover have "\<forall>sl\<in>set (rp_slaves r').
      (sl_replstate sl \<in> {SLAVE_STATE_WAIT_BGSAVE_END, SLAVE_STATE_SEND_BULK} \<longrightarrow> sl_out sl = drop (nat (sl_psync_initial_offset sl - base)) hist \<and>
         (\<exists>n rs' d'. sl_out sl = enc_requests rs' \<and> carries (drop n (run_text fed es [])) rs' d')) \<and>
      (sl_replstate sl = SLAVE_STATE_ONLINE \<and> \<not> sl_close_asap sl \<longrightarrow> base < sl_from sl \<and> sl_out sl = drop (nat (sl_from sl - base - 1)) hist)"
    using wait online by blast
  ultimately show ?thesis using run(1) h by blast
qed

definition demo_slave :: "nat \<Rightarrow> slave" where
  "demo_slave k = \<lparr>sl_id = k, sl_replstate = SLAVE_STATE_ONLINE, sl_out = [], sl_psync_initial_offset = 0, sl_close_asap = False, sl_is_slave = False,
     sl_pre_psync = False, sl_capa = {SLAVE_CAPA_PSYNC2}, sl_wire = [], sl_from = 0\<rparr>"

definition demo_repl :: repl where
  "demo_repl = \<lparr>rp_masterhost = False, rp_backlog = Some (replicate 8 0), rp_backlog_size = 8, rp_backlog_idx = 0, rp_backlog_histlen = 0,
     rp_backlog_off = 1, rp_master_repl_offset = 0, rp_slaveseldb = - 1, rp_slaves = [], rp_replid = [97], rp_replid2 = [48],
     rp_second_replid_offset = - 1, rp_link_connected = False, rp_rdb_child = No_child, rp_aof_child = False, rp_diskless_sync = False\<rparr>"

definition demo_sync_env :: sync_env where
  "demo_sync_env = \<lparr>e_written = (\<lambda>_. True), e_random_id = [98], e_bgsave_ok = (\<lambda>_. True), e_pipe_ok = (\<lambda>_. True),
     e_fork_ok = (\<lambda>_. True), e_send_ready = (\<lambda>_. True)\<rparr>"

theorem replicas_receive_one_stream_witness:
  "\<exists>r' rs d. run_steps (handle_event demo_sync_env (\<lambda>_. 0))
      [Sync (demo_slave 1) (Some ([97], int_dec 1)), Feed 0 [Sds_obj [65]], Sync (demo_slave 2) None, Feed 3 [Int_obj 7], Saved True [], Online 2, Gone 1] demo_repl = Some r' \<and>
    carries [(0, [[65]]), (3, [int_dec 7])] rs d \<and> rp_master_repl_offset r' = int (length (enc_requests rs))"
proof -
  let ?es = "[Sync (demo_slave 1) (Some ([97], int_dec 1)), Feed 0 [Sds_obj [65]], Sync (demo_slave 2) None, Feed 3 [Int_obj 7], Saved True [], Online 2, Gone 1]"
  have b: "backlog_ok 0 [] demo_repl" by (simp add: backlog_ok_def demo_repl_def last_n_def length_ring)
  have r: "rp_slaves demo_repl = []" "\<not> rp_masterhost demo_repl" "rp_slaveseldb demo_repl = - 1" by (simp_all add: demo_repl_def)
  have "string2ll (int_dec 1) = Some 1" by (simp add: string2ll_iff)
  moreover have "length (int_dec 7) \<le> 20" by (rule length_int_dec) simp
  ultimately have "\<forall>ev\<in>set ?es. event_ok ev ()" by (simp add: command_ok_def obj_ok_def obj_text_def)
  note run = replicas_receive_one_stream [OF b r this, of demo_sync_env "\<lambda>_. 0"]
  have "run_text fed ?es [] = [(0, [[65]]), (3, [int_dec 7])]" by (simp add: obj_text_def)
  with run show ?thesis by (metis add_0)
qed

end
