(* ===== verification/Spec2Isabelle.thy ===== *)
theory Spec2Isabelle
  imports Prelude Intset Dict_Scan Dict_Iter Util_Glob Util_Num Sds_Spec Adlist_Spec Cluster_Slot Rand Localtime Pqsort_Prop Endianconv Multi_Queue Aof_Feed Replication_Run
begin

text \<open>
  A verification development for the Redis 5.0.5 sources under \<^verbatim>\<open>redis_505/src\<close>.
\<close>

end
